(* ===== verification/Ceph_Prelude.thy ===== *)
theory Ceph_Prelude
  imports Complex_Main "HOL-Library.Word" "HOL-Library.Monad_Syntax"
begin

text \<open>
  The shared base of the development: names for the machine integers of the source, the model
  of a failing \<^verbatim>\<open>assert\<close>, the simplification collections that the component theories fill,
  and list lemmas that several of them use.

  A C++ function that can hit \<^verbatim>\<open>assert(0)\<close>, \<^verbatim>\<open>ceph_abort()\<close> or an \<^verbatim>\<open>assert\<close> on its
  arguments is a function into \<open>option\<close>: \<open>None\<close> is "the daemon does not return from this
  call", \<open>Some\<close> carries the result and the new state.
\<close>

section \<open>Machine integers\<close>

type_synonym u8 = "8 word"
type_synonym u32 = "32 word"
type_synonym u64 = "64 word"

text \<open>An MDS rank: \<^verbatim>\<open>mds_rank_t\<close> is a signed integer, \<open>-1\<close> is \<^verbatim>\<open>MDS_RANK_NONE\<close>.\<close>

type_synonym mds_rank_t = int

section \<open>Assertions\<close>

definition assert_that :: "bool \<Rightarrow> unit option" where
  "assert_that b = (if b then Some () else None)"

lemma assert_that_simps [simp]:
  "assert_that True = Some ()"
  "assert_that False = None"
  by (simp_all add: assert_that_def)

lemma assert_that_eq_Some [simp]: "assert_that b = Some u \<longleftrightarrow> b"
  by (simp add: assert_that_def)

lemma bind_assert_that [simp]: "assert_that b \<bind> f = (if b then f () else None)"
  by simp

lemma bind_eq_SomeE:
  assumes "m \<bind> f = Some r"
  obtains a where "m = Some a" and "f a = Some r"
  using assms by (cases m) auto

section \<open>Transition systems\<close>

text \<open>
  The contract of a component whose state changes in steps: the starting states satisfy the invariant and every
  step keeps it. Its clients learn that the invariant holds in every state that can be reached.
\<close>

locale transition_system =
  fixes start :: "'s \<Rightarrow> bool"
    and step :: "'s \<Rightarrow> 's \<Rightarrow> bool"
    and inv :: "'s \<Rightarrow> bool"
  assumes start_inv: "start s \<Longrightarrow> inv s"
    and step_inv: "step s s' \<Longrightarrow> inv s \<Longrightarrow> inv s'"
begin

lemma steps_inv: "step\<^sup>*\<^sup>* s s' \<Longrightarrow> inv s \<Longrightarrow> inv s'"
  by (induction rule: rtranclp_induct) (auto intro: step_inv)

lemma reach_inv: "start s \<Longrightarrow> step\<^sup>*\<^sup>* s s' \<Longrightarrow> inv s'"
  by (blast intro: steps_inv start_inv)

end

section \<open>Ordered maps\<close>

text \<open>
  A \<^verbatim>\<open>std::map\<close> is the list of its entries in key order, which is the order its iterators
  visit; \<open>omap_set\<close> is \<^verbatim>\<open>m[k] = v\<close>, \<open>omap_insert\<close> is \<^verbatim>\<open>m.insert(pair(k, v))\<close>, which keeps
  an existing entry, and \<open>omap_erase\<close> is \<^verbatim>\<open>m.erase(k)\<close>.
\<close>

fun omap_set :: "'k::linorder \<Rightarrow> 'v \<Rightarrow> ('k \<times> 'v) list \<Rightarrow> ('k \<times> 'v) list" where
  "omap_set k v [] = [(k, v)]"
| "omap_set k v ((a, b) # m) =
     (if k < a then (k, v) # (a, b) # m
      else if k = a then (k, v) # m
      else (a, b) # omap_set k v m)"

definition omap_insert :: "'k::linorder \<Rightarrow> 'v \<Rightarrow> ('k \<times> 'v) list \<Rightarrow> ('k \<times> 'v) list" where
  "omap_insert k v m = (case map_of m k of None \<Rightarrow> omap_set k v m | Some _ \<Rightarrow> m)"

definition omap_erase :: "'k \<Rightarrow> ('k \<times> 'v) list \<Rightarrow> ('k \<times> 'v) list" where
  "omap_erase k m = filter (\<lambda>p. fst p \<noteq> k) m"

definition omap_ok :: "('k::linorder \<times> 'v) list \<Rightarrow> bool" where
  "omap_ok m \<longleftrightarrow> sorted_wrt (<) (map fst m)"

lemma map_of_omap_set [simp]: "map_of (omap_set k v m) = (map_of m)(k \<mapsto> v)"
  by (induction k v m rule: omap_set.induct) auto

lemma map_of_omap_insert [simp]:
  "map_of (omap_insert k v m) k' = (if k' = k \<and> map_of m k = None then Some v else map_of m k')"
  by (auto simp: omap_insert_def split: option.split)

lemma map_of_omap_erase [simp]: "map_of (omap_erase k m) = (map_of m)(k := None)"
proof -
  have "map_of (omap_erase k m) = map_of m |` {x. x \<noteq> k}"
    by (induction m) (auto simp: omap_erase_def restrict_map_def)
  also have "\<dots> = (map_of m)(k := None)" by (auto simp: restrict_map_def)
  finally show ?thesis .
qed

lemma set_fst_omap_set [simp]: "fst ` set (omap_set k v m) = insert k (fst ` set m)"
  by (induction k v m rule: omap_set.induct) auto

lemma omap_ok_Nil [simp]: "omap_ok []"
  by (simp add: omap_ok_def)

lemma omap_ok_Cons: "omap_ok (x # m) \<longleftrightarrow> (\<forall>y\<in>set m. fst x < fst y) \<and> omap_ok m"
  by (auto simp: omap_ok_def)

lemma omap_ok_distinct: "omap_ok m \<Longrightarrow> distinct (map fst m)"
  by (auto simp: omap_ok_def sorted_wrt_iff_nth_less distinct_conv_nth neq_iff)

lemma omap_ok_set [simp]: "omap_ok m \<Longrightarrow> omap_ok (omap_set k v m)"
proof (induction k v m rule: omap_set.induct)
  case (2 k v a b m)
  have "fst ` set (omap_set k v m) = insert k (fst ` set m)" by simp
  then have "fst y \<in> insert k (fst ` set m)" if "y \<in> set (omap_set k v m)" for y
    using that by blast
  then show ?case using 2 by (fastforce simp: omap_ok_Cons)
qed (simp add: omap_ok_def)

lemma omap_ok_insert [simp]: "omap_ok m \<Longrightarrow> omap_ok (omap_insert k v m)"
  by (simp add: omap_insert_def split: option.split)

lemma omap_ok_erase [simp]: "omap_ok m \<Longrightarrow> omap_ok (omap_erase k m)"
  by (induction m) (auto simp: omap_erase_def omap_ok_Cons)

text \<open>
  \<^verbatim>\<open>m[k]\<close> on a \<^verbatim>\<open>map<K, double>\<close> reads zero where there is no entry. A \<^verbatim>\<open>multimap\<close> keeps equal
  keys in the order of their insertion.
\<close>

definition get0 :: "('k \<times> real) list \<Rightarrow> 'k \<Rightarrow> real" where
  "get0 m k = (case map_of m k of None \<Rightarrow> 0 | Some v \<Rightarrow> v)"

fun mmap_insert :: "'k::linorder \<Rightarrow> 'v \<Rightarrow> ('k \<times> 'v) list \<Rightarrow> ('k \<times> 'v) list" where
  "mmap_insert k v [] = [(k, v)]"
| "mmap_insert k v ((a, b) # m) =
     (if k < a then (k, v) # (a, b) # m else (a, b) # mmap_insert k v m)"

lemma get0_Nil [simp]: "get0 [] k = 0"
  by (simp add: get0_def)

lemma get0_set [simp]: "get0 (omap_set k v m) k' = (if k' = k then v else get0 m k')"
  by (simp add: get0_def)

lemma set_mmap_insert [simp]: "set (mmap_insert k v m) = insert (k, v) (set m)"
  by (induction k v m rule: mmap_insert.induct) auto

text \<open>A position in an ordered map is a split of its list; an entry with a key between the parts.\<close>

lemma omap_set_between:
  assumes "\<forall>x\<in>set pre. fst x < k" "\<forall>x\<in>set post. k < fst x"
  shows "omap_set k v (pre @ post) = pre @ (k, v) # post"
  using assms
proof (induction pre)
  case Nil
  then show ?case by (cases post) auto
next
  case (Cons a pre)
  then show ?case by (cases a) auto
qed

lemma omap_insert_between:
  assumes "\<forall>x\<in>set pre. fst x < k" "\<forall>x\<in>set post. k < fst x"
  shows "omap_insert k v (pre @ post) = pre @ (k, v) # post"
proof -
  have "map_of (pre @ post) k = None"
    using assms by (force simp: map_of_eq_None_iff simp del: map_of_append)
  then show ?thesis by (simp add: omap_insert_def omap_set_between [OF assms] del: map_of_append)
qed

section \<open>Loops that may fail\<close>

text \<open>A \<^verbatim>\<open>for\<close> loop over the entries of a container whose body can hit an assertion.\<close>

fun fold_opt :: "('a \<Rightarrow> 's \<Rightarrow> 's option) \<Rightarrow> 'a list \<Rightarrow> 's \<Rightarrow> 's option" where
  "fold_opt f [] s = Some s"
| "fold_opt f (x # xs) s = f x s \<bind> fold_opt f xs"

lemma fold_opt_append: "fold_opt f (xs @ ys) s = fold_opt f xs s \<bind> fold_opt f ys"
  by (induction xs arbitrary: s) (auto split: bind_split)

end
