(* ===== verification/Time_Decay.thy ===== *)
theory Time_Decay
  imports Ceph_Prelude
begin

text \<open>
  Time stamps (\<^verbatim>\<open>src/include/utime.h\<close>), exponentially decaying counters
  (\<^verbatim>\<open>src/common/DecayCounter.h\<close> and \<^verbatim>\<open>.cc\<close>) and the load vectors built from them
  (\<^verbatim>\<open>dirfrag_load_vec_t\<close>, \<^verbatim>\<open>load_spread_t\<close> of \<^verbatim>\<open>src/mds/mdstypes.h\<close>).

  A time stamp keeps its two 32-bit fields, so subtraction wraps as in the source. A C++
  \<open>double\<close> is a real number: rounding is not modelled.
\<close>

section \<open>utime\_t\<close>

record utime_t =
  tv_sec :: u32
  tv_nsec :: u32

definition utime_zero :: utime_t where
  "utime_zero = \<lparr>tv_sec = 0, tv_nsec = 0\<rparr>"

text \<open>\<^verbatim>\<open>operator-=\<close>; \<^verbatim>\<open>nsec()\<close> returns the field as a signed \<^verbatim>\<open>int\<close>.\<close>

definition utime_sub :: "utime_t \<Rightarrow> utime_t \<Rightarrow> utime_t" where
  "utime_sub l r =
     (let s = tv_sec l - tv_sec r in
      if sint (tv_nsec l) \<ge> sint (tv_nsec r)
      then \<lparr>tv_sec = s, tv_nsec = tv_nsec l - tv_nsec r\<rparr>
      else \<lparr>tv_sec = s - 1, tv_nsec = tv_nsec l + (1000000000 - tv_nsec r)\<rparr>)"

definition utime_double :: "utime_t \<Rightarrow> real" where
  "utime_double t = real_of_int (uint (tv_sec t)) + real_of_int (sint (tv_nsec t)) / 1000000000"

definition utime_lt :: "utime_t \<Rightarrow> utime_t \<Rightarrow> bool" where
  "utime_lt a b \<longleftrightarrow>
     tv_sec a < tv_sec b \<or> (tv_sec a = tv_sec b \<and> sint (tv_nsec a) < sint (tv_nsec b))"

definition utime_le :: "utime_t \<Rightarrow> utime_t \<Rightarrow> bool" where
  "utime_le a b \<longleftrightarrow>
     \<not> (tv_sec a > tv_sec b \<or> (tv_sec a = tv_sec b \<and> sint (tv_nsec a) > sint (tv_nsec b)))"

definition utime_normalize :: "utime_t \<Rightarrow> utime_t" where
  "utime_normalize t =
     (if tv_nsec t > 1000000000
      then \<lparr>tv_sec = tv_sec t + tv_nsec t div 1000000000, tv_nsec = tv_nsec t mod 1000000000\<rparr>
      else t)"

definition utime_ok :: "utime_t \<Rightarrow> bool" where
  "utime_ok t \<longleftrightarrow> tv_nsec t < 1000000000"

section \<open>DecayRate and DecayCounter\<close>

record decay_rate =
  dr_k :: real

definition decay_rate_default :: decay_rate where
  "decay_rate_default = \<lparr>dr_k = 0\<rparr>"

definition set_halflife :: "real \<Rightarrow> decay_rate" where
  "set_halflife hl = \<lparr>dr_k = ln (1 / 2) / hl\<rparr>"

record decay_counter =
  dc_val :: real
  dc_delta :: real
  dc_vel :: real
  dc_last_decay :: utime_t
  dc_rate :: decay_rate

definition DecayCounter :: "utime_t \<Rightarrow> decay_rate \<Rightarrow> decay_counter" where
  "DecayCounter now r =
     \<lparr>dc_val = 0, dc_delta = 0, dc_vel = 0, dc_last_decay = now, dc_rate = r\<rparr>"

definition dc_decay :: "utime_t \<Rightarrow> decay_rate \<Rightarrow> decay_counter \<Rightarrow> decay_counter" where
  "dc_decay now rate c =
     (let el = utime_sub now (dc_last_decay c) in
      if tv_sec el \<ge> 1 then
        (let f = exp (utime_double el * dr_k rate);
             newval0 = (dc_val c + dc_delta c) * f;
             newval = (if newval0 < 1 / 100 then 0 else newval0);
             vel = (dc_vel c + (newval - dc_val c) * utime_double el) * f
         in c\<lparr>dc_val := newval, dc_delta := 0, dc_vel := vel, dc_last_decay := now\<rparr>)
      else c)"

definition dc_get :: "utime_t \<Rightarrow> decay_rate \<Rightarrow> decay_counter \<Rightarrow> real \<times> decay_counter" where
  "dc_get now rate c = (let c' = dc_decay now rate c in (dc_val c' + dc_delta c', c'))"

definition dc_hit :: "utime_t \<Rightarrow> decay_rate \<Rightarrow> real \<Rightarrow> decay_counter \<Rightarrow> real \<times> decay_counter" where
  "dc_hit now rate v c =
     (let c' = dc_decay now rate c; c'' = c'\<lparr>dc_delta := dc_delta c' + v\<rparr>
      in (dc_val c'' + dc_delta c'', c''))"

definition dc_adjust :: "real \<Rightarrow> decay_counter \<Rightarrow> decay_counter" where
  "dc_adjust a c = c\<lparr>dc_val := dc_val c + a\<rparr>"

definition dc_adjust_now :: "utime_t \<Rightarrow> decay_rate \<Rightarrow> real \<Rightarrow> decay_counter \<Rightarrow> decay_counter" where
  "dc_adjust_now now rate a c = (let c' = dc_decay now rate c in c'\<lparr>dc_val := dc_val c' + a\<rparr>)"

definition dc_scale :: "real \<Rightarrow> decay_counter \<Rightarrow> decay_counter" where
  "dc_scale f c = c\<lparr>dc_val := dc_val c * f, dc_delta := dc_delta c * f, dc_vel := dc_vel c * f\<rparr>"

definition dc_reset :: "utime_t \<Rightarrow> decay_counter \<Rightarrow> decay_counter" where
  "dc_reset now c = c\<lparr>dc_last_decay := now, dc_val := 0, dc_delta := 0\<rparr>"

definition dc_get_last :: "decay_counter \<Rightarrow> real" where
  "dc_get_last c = dc_val c"

definition dc_get_last_vel :: "decay_counter \<Rightarrow> real" where
  "dc_get_last_vel c = dc_vel c"

definition dc_total :: "decay_counter \<Rightarrow> real" where
  "dc_total c = dc_val c + dc_delta c"

lemmas dc_op_defs = dc_get_def dc_hit_def dc_adjust_def dc_adjust_now_def dc_scale_def
  dc_reset_def dc_get_last_def dc_total_def Let_def

section \<open>Load vectors\<close>

datatype meta_pop = META_POP_IRD | META_POP_IWR | META_POP_READDIR | META_POP_FETCH | META_POP_STORE

record dirfrag_load_vec_t =
  lv_ird :: decay_counter
  lv_iwr :: decay_counter
  lv_readdir :: decay_counter
  lv_fetch :: decay_counter
  lv_store :: decay_counter

definition dirfrag_load_vec :: "utime_t \<Rightarrow> dirfrag_load_vec_t" where
  "dirfrag_load_vec now =
     (let c = DecayCounter now decay_rate_default
      in \<lparr>lv_ird = c, lv_iwr = c, lv_readdir = c, lv_fetch = c, lv_store = c\<rparr>)"

fun lv_get :: "meta_pop \<Rightarrow> dirfrag_load_vec_t \<Rightarrow> decay_counter" where
  "lv_get META_POP_IRD v = lv_ird v"
| "lv_get META_POP_IWR v = lv_iwr v"
| "lv_get META_POP_READDIR v = lv_readdir v"
| "lv_get META_POP_FETCH v = lv_fetch v"
| "lv_get META_POP_STORE v = lv_store v"

definition lv_map :: "(decay_counter \<Rightarrow> decay_counter) \<Rightarrow> dirfrag_load_vec_t \<Rightarrow> dirfrag_load_vec_t" where
  "lv_map f v =
     \<lparr>lv_ird = f (lv_ird v), lv_iwr = f (lv_iwr v), lv_readdir = f (lv_readdir v),
      lv_fetch = f (lv_fetch v), lv_store = f (lv_store v)\<rparr>"

definition lv_map2 ::
  "(decay_counter \<Rightarrow> decay_counter \<Rightarrow> decay_counter) \<Rightarrow> dirfrag_load_vec_t \<Rightarrow> dirfrag_load_vec_t
    \<Rightarrow> dirfrag_load_vec_t" where
  "lv_map2 f v w =
     \<lparr>lv_ird = f (lv_ird v) (lv_ird w), lv_iwr = f (lv_iwr v) (lv_iwr w),
      lv_readdir = f (lv_readdir v) (lv_readdir w), lv_fetch = f (lv_fetch v) (lv_fetch w),
      lv_store = f (lv_store v) (lv_store w)\<rparr>"

fun lv_upd :: "meta_pop \<Rightarrow> (decay_counter \<Rightarrow> decay_counter) \<Rightarrow> dirfrag_load_vec_t
    \<Rightarrow> dirfrag_load_vec_t" where
  "lv_upd META_POP_IRD f v = v\<lparr>lv_ird := f (lv_ird v)\<rparr>"
| "lv_upd META_POP_IWR f v = v\<lparr>lv_iwr := f (lv_iwr v)\<rparr>"
| "lv_upd META_POP_READDIR f v = v\<lparr>lv_readdir := f (lv_readdir v)\<rparr>"
| "lv_upd META_POP_FETCH f v = v\<lparr>lv_fetch := f (lv_fetch v)\<rparr>"
| "lv_upd META_POP_STORE f v = v\<lparr>lv_store := f (lv_store v)\<rparr>"

definition lv_adjust :: "utime_t \<Rightarrow> decay_rate \<Rightarrow> real \<Rightarrow> dirfrag_load_vec_t \<Rightarrow> dirfrag_load_vec_t" where
  "lv_adjust now rate d v = lv_map (dc_adjust_now now rate d) v"

definition lv_zero :: "utime_t \<Rightarrow> dirfrag_load_vec_t \<Rightarrow> dirfrag_load_vec_t" where
  "lv_zero now v = lv_map (dc_reset now) v"

definition lv_scale :: "real \<Rightarrow> dirfrag_load_vec_t \<Rightarrow> dirfrag_load_vec_t" where
  "lv_scale f v = lv_map (dc_scale f) v"

text \<open>\<^verbatim>\<open>meta_load(now, rate)\<close> decays every counter it reads, so it also returns the vector.\<close>

definition meta_load_now :: "utime_t \<Rightarrow> decay_rate \<Rightarrow> dirfrag_load_vec_t \<Rightarrow> real \<times> dirfrag_load_vec_t" where
  "meta_load_now now rate v =
     (1 * fst (dc_get now rate (lv_ird v)) + 2 * fst (dc_get now rate (lv_iwr v))
        + 1 * fst (dc_get now rate (lv_readdir v)) + 2 * fst (dc_get now rate (lv_fetch v))
        + 4 * fst (dc_get now rate (lv_store v)),
      lv_map (\<lambda>c. snd (dc_get now rate c)) v)"

definition meta_load_last :: "dirfrag_load_vec_t \<Rightarrow> real" where
  "meta_load_last v =
     1 * dc_get_last (lv_ird v) + 2 * dc_get_last (lv_iwr v) + 1 * dc_get_last (lv_readdir v)
       + 2 * dc_get_last (lv_fetch v) + 4 * dc_get_last (lv_store v)"

text \<open>\<^verbatim>\<open>add\<close> and \<^verbatim>\<open>sub\<close> read \<open>r\<close> through \<^verbatim>\<open>get\<close>, which decays it: both vectors are returned.\<close>

definition lv_add ::
  "utime_t \<Rightarrow> decay_rate \<Rightarrow> dirfrag_load_vec_t \<Rightarrow> dirfrag_load_vec_t
    \<Rightarrow> dirfrag_load_vec_t \<times> dirfrag_load_vec_t" where
  "lv_add now rate v r =
     (lv_map2 (\<lambda>c rc. dc_adjust (fst (dc_get now rate rc)) c) v r,
      lv_map (\<lambda>c. snd (dc_get now rate c)) r)"

definition lv_sub ::
  "utime_t \<Rightarrow> decay_rate \<Rightarrow> dirfrag_load_vec_t \<Rightarrow> dirfrag_load_vec_t
    \<Rightarrow> dirfrag_load_vec_t \<times> dirfrag_load_vec_t" where
  "lv_sub now rate v r =
     (lv_map2 (\<lambda>c rc. dc_adjust (- fst (dc_get now rate rc)) c) v r,
      lv_map (\<lambda>c. snd (dc_get now rate c)) r)"

section \<open>load\_spread\_t\<close>

record load_spread_t =
  sp_last :: "int list"
  sp_p :: nat
  sp_n :: nat
  sp_count :: decay_counter

definition SPREAD_MAX :: nat where
  "SPREAD_MAX = 4"

definition load_spread :: "utime_t \<Rightarrow> load_spread_t" where
  "load_spread now =
     \<lparr>sp_last = replicate SPREAD_MAX (- 1), sp_p = 0, sp_n = 0,
      sp_count = DecayCounter now decay_rate_default\<rparr>"

text \<open>
  \<^verbatim>\<open>last[p++] = who\<close> with \<open>p\<close> outside the array is undefined behaviour; the model returns
  \<open>None\<close> there.
\<close>

definition spread_hit ::
  "utime_t \<Rightarrow> decay_rate \<Rightarrow> int \<Rightarrow> load_spread_t \<Rightarrow> (real \<times> load_spread_t) option" where
  "spread_hit now rate who s =
     (if who \<in> set (take (sp_n s) (sp_last s)) then Some (dc_get_last (sp_count s), s)
      else if sp_p s < length (sp_last s) then
        (let s1 = s\<lparr>sp_last := (sp_last s)[sp_p s := who], sp_p := sp_p s + 1,
                    sp_n := (if sp_n s < SPREAD_MAX then sp_n s + 1 else sp_n s)\<rparr>
         in if sp_n s1 = 1 then Some (0, s1)
            else
              (let s2 = s1\<lparr>sp_p := (if sp_p s1 = SPREAD_MAX then 0 else sp_p s1)\<rparr>;
                   (v, c) = dc_hit now rate 1 (sp_count s2)
               in Some (v, s2\<lparr>sp_count := c\<rparr>)))
      else None)"

definition spread_get :: "utime_t \<Rightarrow> decay_rate \<Rightarrow> load_spread_t \<Rightarrow> real \<times> load_spread_t" where
  "spread_get now rate s =
     (let (v, c) = dc_get now rate (sp_count s) in (v, s\<lparr>sp_count := c\<rparr>))"

definition spread_inv :: "load_spread_t \<Rightarrow> bool" where
  "spread_inv s \<longleftrightarrow>
     length (sp_last s) = SPREAD_MAX \<and> sp_p s < SPREAD_MAX \<and> sp_n s \<le> SPREAD_MAX \<and>
     (sp_n s < SPREAD_MAX \<longrightarrow> sp_p s = sp_n s) \<and> distinct (take (sp_n s) (sp_last s))"

section \<open>Time stamps\<close>

declare of_int_uint [simp del] of_nat_unat [simp del]

lemma sint_nsec_ok: "(w :: u32) < 1000000000 \<Longrightarrow> sint w = uint w"
proof -
  assume "w < 1000000000"
  then have "uint w < 1000000000" by (simp add: word_less_def)
  moreover have "0 \<le> uint w" by simp
  ultimately show ?thesis
    unfolding sint_uint by (intro signed_take_bit_int_eq_self) (auto intro: order_trans [of _ 0])
qed

lemma uint_sub_le: "(b :: u32) \<le> a \<Longrightarrow> uint (a - b) = uint a - uint b"
  by (rule uint_minus_simple_alt [THEN iffD1])

lemma uint_nsec_borrow:
  fixes a b :: u32
  assumes "a < b" "b < 1000000000"
  shows "uint (a + (1000000000 - b)) = uint a + 1000000000 - uint b"
proof -
  have "uint a < uint b" and b: "uint b < 1000000000"
    using assms by (simp_all add: word_less_def)
  moreover have "uint (1000000000 - b) = 1000000000 - uint b"
    using uint_sub_le [of b 1000000000] assms(2) by (simp add: word_le_def word_less_def)
  moreover have "(2 :: int) ^ 32 = 4294967296" by simp
  ultimately show ?thesis by (simp add: uint_word_ariths)
qed

lemma utime_double_ok:
  "utime_ok t \<Longrightarrow> utime_double t = real_of_int (uint (tv_sec t)) + real_of_int (uint (tv_nsec t)) / 1000000000"
  by (simp add: utime_double_def utime_ok_def sint_nsec_ok)

lemma utime_le_ok:
  assumes "utime_ok a" "utime_ok b"
  shows "utime_le a b \<longleftrightarrow> uint (tv_sec a) < uint (tv_sec b)
    \<or> uint (tv_sec a) = uint (tv_sec b) \<and> uint (tv_nsec a) \<le> uint (tv_nsec b)"
proof -
  have "sint (tv_nsec a) = uint (tv_nsec a)" "sint (tv_nsec b) = uint (tv_nsec b)"
    using assms by (simp_all add: utime_ok_def sint_nsec_ok)
  then show ?thesis by (auto simp: utime_le_def word_less_def simp flip: word_uint_eq_iff)
qed

lemma utime_sub_parts:
  assumes ok: "utime_ok l" "utime_ok r" and le: "utime_le r l"
  shows "utime_ok (utime_sub l r)"
    and "real_of_int (uint (tv_sec (utime_sub l r))) + real_of_int (uint (tv_nsec (utime_sub l r))) / 1000000000
      = utime_double l - utime_double r"
proof -
  have n: "uint (tv_nsec l) < 1000000000" "uint (tv_nsec r) < 1000000000"
    using ok by (simp_all add: utime_ok_def word_less_def)
  have s: "sint (tv_nsec l) = uint (tv_nsec l)" "sint (tv_nsec r) = uint (tv_nsec r)"
    using ok by (simp_all add: utime_ok_def sint_nsec_ok)
  note d = utime_double_ok [OF ok(1)] utime_double_ok [OF ok(2)]
  have "utime_ok (utime_sub l r) \<and>
    real_of_int (uint (tv_sec (utime_sub l r))) + real_of_int (uint (tv_nsec (utime_sub l r))) / 1000000000
      = utime_double l - utime_double r"
  proof (cases "uint (tv_nsec l) \<ge> uint (tv_nsec r)")
    case True
    have "uint (tv_sec r) \<le> uint (tv_sec l)"
      using le utime_le_ok [OF ok(2) ok(1)] by auto
    then have 1: "uint (tv_sec l - tv_sec r) = uint (tv_sec l) - uint (tv_sec r)"
      by (simp add: uint_sub_le word_le_def)
    have 2: "uint (tv_nsec l - tv_nsec r) = uint (tv_nsec l) - uint (tv_nsec r)"
      using True by (simp add: uint_sub_le word_le_def)
    have e: "utime_sub l r = \<lparr>tv_sec = tv_sec l - tv_sec r, tv_nsec = tv_nsec l - tv_nsec r\<rparr>"
      using True s by (simp add: utime_sub_def)
    have "uint (tv_nsec l - tv_nsec r) < 1000000000"
      using n 2 by (smt (verit) uint_ge_0)
    then show ?thesis
      unfolding e d using 1 2 by (simp add: utime_ok_def word_less_def diff_divide_distrib add_divide_distrib)
  next
    case False
    then have lt: "tv_nsec l < tv_nsec r" by (simp add: word_less_def)
    have sec: "uint (tv_sec r) < uint (tv_sec l)"
      using le False utime_le_ok [OF ok(2) ok(1)] by auto
    have 1: "uint (tv_sec l - tv_sec r) = uint (tv_sec l) - uint (tv_sec r)"
      using sec by (simp add: uint_sub_le word_le_def)
    have 2: "uint (tv_sec l - tv_sec r - 1) = uint (tv_sec l) - uint (tv_sec r) - 1"
      using sec 1 uint_sub_le [of 1 "tv_sec l - tv_sec r"] by (simp add: word_le_def)
    have 3: "uint (tv_nsec l + (1000000000 - tv_nsec r)) = uint (tv_nsec l) + 1000000000 - uint (tv_nsec r)"
      using uint_nsec_borrow [OF lt] ok(2) by (simp add: utime_ok_def)
    have e: "utime_sub l r = \<lparr>tv_sec = tv_sec l - tv_sec r - 1,
        tv_nsec = tv_nsec l + (1000000000 - tv_nsec r)\<rparr>"
      using False s by (simp add: utime_sub_def)
    have "uint (tv_nsec l + (1000000000 - tv_nsec r)) < 1000000000"
      using 3 False by linarith
    then show ?thesis
      unfolding e d using 2 3 by (simp add: utime_ok_def word_less_def diff_divide_distrib add_divide_distrib)
  qed
  then show "utime_ok (utime_sub l r)"
    and "real_of_int (uint (tv_sec (utime_sub l r))) + real_of_int (uint (tv_nsec (utime_sub l r))) / 1000000000
      = utime_double l - utime_double r"
    by simp_all
qed

lemma utime_sub_double_eq:
  assumes "utime_ok l" "utime_ok r" "utime_le r l"
  shows "utime_double (utime_sub l r) = utime_double l - utime_double r"
  using utime_sub_parts [OF assms] by (simp add: utime_double_ok)

lemma utime_sub_self: "utime_sub t t = utime_zero"
  by (simp add: utime_sub_def utime_zero_def)

section \<open>Decay\<close>

lemma exp_halflife:
  assumes "hl \<noteq> 0"
  shows "exp (x * dr_k (set_halflife hl)) = (1 / 2) powr (x / hl)"
  using assms by (simp add: set_halflife_def powr_def)

lemma dc_get_elapsed:
  assumes "tv_sec (utime_sub now (dc_last_decay c)) \<ge> 1" "hl \<noteq> 0"
  shows "fst (dc_get now (set_halflife hl) c) =
    (let x = dc_total c * (1 / 2) powr (utime_double (utime_sub now (dc_last_decay c)) / hl)
     in if x < 1 / 100 then 0 else x)"
  using assms by (simp add: dc_get_def dc_decay_def exp_halflife dc_total_def Let_def)

lemma dc_get_recent:
  assumes "\<not> tv_sec (utime_sub now (dc_last_decay c)) \<ge> 1"
  shows "dc_get now rate c = (dc_total c, c)"
  using assms by (simp add: dc_get_def dc_decay_def dc_total_def Let_def)

lemma dc_decay_idem: "dc_decay now rate (dc_decay now rate c) = dc_decay now rate c"
  by (simp add: dc_decay_def Let_def utime_sub_self utime_zero_def)

lemma dc_get_idem: "dc_get now rate (snd (dc_get now rate c)) = dc_get now rate c"
  by (simp add: dc_get_def Let_def dc_decay_idem)

lemma dc_get_snd: "snd (dc_get now rate c) = dc_decay now rate c"
  by (simp add: dc_get_def Let_def)

lemma powr_half_le_one: "0 \<le> x \<Longrightarrow> (1 / 2 :: real) powr x \<le> 1"
  using powr_mono_both' [of 0 x "1/2" "1/2"] powr_mono' [of 0 x "1/2 :: real"] by simp

lemma utime_double_nonneg: "utime_ok t \<Longrightarrow> 0 \<le> utime_double t"
  by (simp add: utime_double_ok)

lemma one_le_sec_iff: "utime_ok t \<Longrightarrow> 1 \<le> tv_sec t \<longleftrightarrow> 1 \<le> utime_double t"
proof -
  assume ok: "utime_ok t"
  have n: "0 \<le> uint (tv_nsec t)" "uint (tv_nsec t) < 1000000000"
    using ok by (simp_all add: utime_ok_def word_less_def)
  have d: "0 \<le> real_of_int (uint (tv_nsec t)) / 1000000000"
    "real_of_int (uint (tv_nsec t)) / 1000000000 < 1"
    using n by simp_all
  have "1 \<le> utime_double t \<longleftrightarrow> 1 \<le> uint (tv_sec t)"
  proof
    assume "1 \<le> utime_double t"
    then have "real_of_int (uint (tv_sec t)) > 0"
      using d by (simp add: utime_double_ok [OF ok])
    then show "1 \<le> uint (tv_sec t)" by simp
  next
    assume "1 \<le> uint (tv_sec t)"
    then have "1 \<le> real_of_int (uint (tv_sec t))" by simp
    then show "1 \<le> utime_double t" unfolding utime_double_ok [OF ok] using d by linarith
  qed
  then show ?thesis by (simp add: word_le_def)
qed

lemma utime_le_double:
  assumes "utime_ok a" "utime_ok b" "utime_le a b"
  shows "utime_double a \<le> utime_double b"
  using utime_double_nonneg [OF utime_sub_parts(1) [OF assms(2,1,3)]]
    utime_sub_double_eq [OF assms(2,1,3)] by simp

lemma utime_le_trans:
  "utime_ok a \<Longrightarrow> utime_ok b \<Longrightarrow> utime_ok c \<Longrightarrow> utime_le a b \<Longrightarrow> utime_le b c \<Longrightarrow> utime_le a c"
  by (auto simp: utime_le_ok)

text \<open>The value read at \<open>now\<close>, for an ordered pair of normalised time stamps.\<close>

lemma dc_get_ordered:
  assumes "utime_ok now" "utime_ok (dc_last_decay c)" "utime_le (dc_last_decay c) now"
    and "1 \<le> utime_double now - utime_double (dc_last_decay c)" "hl \<noteq> 0"
  shows "fst (dc_get now (set_halflife hl) c) =
    (let x = dc_total c * (1 / 2) powr ((utime_double now - utime_double (dc_last_decay c)) / hl)
     in if x < 1 / 100 then 0 else x)"
    and "dc_last_decay (dc_decay now (set_halflife hl) c) = now"
    and "dc_total (dc_decay now (set_halflife hl) c) = fst (dc_get now (set_halflife hl) c)"
proof -
  note sub = utime_sub_parts(1) [OF assms(1-3)] utime_sub_double_eq [OF assms(1-3)]
  have e: "tv_sec (utime_sub now (dc_last_decay c)) \<ge> 1"
    using one_le_sec_iff [OF sub(1)] sub(2) assms(4) by simp
  show "fst (dc_get now (set_halflife hl) c) =
    (let x = dc_total c * (1 / 2) powr ((utime_double now - utime_double (dc_last_decay c)) / hl)
     in if x < 1 / 100 then 0 else x)"
    using dc_get_elapsed [OF e assms(5)] sub(2) by simp
  show "dc_last_decay (dc_decay now (set_halflife hl) c) = now"
    using e by (simp add: dc_decay_def Let_def)
  show "dc_total (dc_decay now (set_halflife hl) c) = fst (dc_get now (set_halflife hl) c)"
    by (simp add: dc_get_def dc_total_def Let_def)
qed

lemma distinct_take_push:
  assumes "n < length xs" "distinct (take n xs)" "x \<notin> set (take n xs)"
  shows "distinct (take (Suc n) (xs[n := x]))"
  using assms by (simp add: take_Suc_conv_app_nth)

section \<open>Properties\<close>

text \<open>
  C29: reading a decay counter does not disturb it. If a counter with a non-negative value is read
  at \<open>t1\<close> and again at \<open>t2\<close>, each at least one second after the previous decay, then the value
  at \<open>t2\<close> is the same as without the reading at \<open>t1\<close>, as long as it has not dropped below the
  cut-off 0.01 of \<^verbatim>\<open>DecayCounter::decay\<close>.
\<close>

theorem decay_sampling_independent:
  assumes ok: "utime_ok (dc_last_decay c)" "utime_ok t1" "utime_ok t2"
    and le: "utime_le (dc_last_decay c) t1" "utime_le t1 t2"
    and gap: "1 \<le> utime_double t1 - utime_double (dc_last_decay c)"
      "1 \<le> utime_double t2 - utime_double t1"
    and hl: "0 < hl" and pos: "0 \<le> dc_total c"
    and above: "1 / 100 \<le> fst (dc_get t2 (set_halflife hl) c)"
  shows "fst (dc_get t2 (set_halflife hl) (dc_decay t1 (set_halflife hl) c))
    = fst (dc_get t2 (set_halflife hl) c)"
proof -
  let ?T = "utime_double" and ?r = "set_halflife hl"
  define a where "a = dc_total c * (1 / 2) powr ((?T t1 - ?T (dc_last_decay c)) / hl)"
  define b where "b = dc_total c * (1 / 2) powr ((?T t2 - ?T (dc_last_decay c)) / hl)"
  have hl0: "hl \<noteq> 0" using hl by simp
  have le02: "utime_le (dc_last_decay c) t2" by (rule utime_le_trans [OF ok le])
  have g02: "1 \<le> ?T t2 - ?T (dc_last_decay c)" using gap by simp
  have b1: "fst (dc_get t2 ?r c) = (if b < 1 / 100 then 0 else b)"
    using dc_get_ordered(1) [OF ok(3) ok(1) le02 g02 hl0] by (simp add: b_def Let_def)
  then have b2: "1 / 100 \<le> b" using above by (auto split: if_splits)
  have ab: "b = a * (1 / 2) powr ((?T t2 - ?T t1) / hl)"
    by (simp add: a_def b_def powr_add [symmetric] add_divide_distrib [symmetric] mult.assoc)
  have "0 \<le> a" using pos by (simp add: a_def)
  moreover have "(1 / 2) powr ((?T t2 - ?T t1) / hl) \<le> (1 :: real)"
    using gap(2) hl by (intro powr_half_le_one) simp
  ultimately have "b \<le> a" using ab by (simp add: mult_left_le)
  then have a1: "fst (dc_get t1 ?r c) = a"
    using dc_get_ordered(1) [OF ok(2) ok(1) le(1) gap(1) hl0] b2 by (simp add: a_def Let_def)
  let ?c = "dc_decay t1 ?r c"
  have c: "dc_last_decay ?c = t1" "dc_total ?c = a"
    using dc_get_ordered(2,3) [OF ok(2) ok(1) le(1) gap(1) hl0] a1 by simp_all
  have "fst (dc_get t2 ?r ?c) = (if b < 1 / 100 then 0 else b)"
    using dc_get_ordered(1) [of t2 ?c hl] ok(2,3) le(2) gap(2) hl0 by (simp add: c ab Let_def)
  then show ?thesis using b1 by simp
qed

text \<open>
  Decay never creates load. For a non-positive rate constant (a positive half-life) the value
  read from a counter that holds a non-negative value lies between 0 and the stored value.
\<close>

lemma decay_bounded:
  assumes "0 \<le> dc_total c" "utime_ok (dc_last_decay c)" "utime_ok now"
    "utime_le (dc_last_decay c) now" "dr_k rate \<le> 0"
  shows "0 \<le> fst (dc_get now rate c) \<and> fst (dc_get now rate c) \<le> dc_total c"
proof -
  let ?el = "utime_sub now (dc_last_decay c)"
  have "0 \<le> utime_double ?el"
    using utime_sub_parts(1) [OF assms(3,2,4)] by (rule utime_double_nonneg)
  then have "exp (utime_double ?el * dr_k rate) \<le> 1"
    using assms(5) by (simp add: mult_nonneg_nonpos)
  then have "dc_total c * exp (utime_double ?el * dr_k rate) \<le> dc_total c"
    using assms(1) by (simp add: mult_left_le)
  then show ?thesis
    using assms(1) by (auto simp: dc_get_def dc_decay_def dc_total_def Let_def)
qed

text \<open>
  \<^verbatim>\<open>dirfrag_load_vec_t::sub\<close> undoes \<^verbatim>\<open>add\<close>. Adding the load of an imported subtree and
  subtracting it again at the same time stamp restores every counter of the parent, so an
  export that directly follows an import leaves the ancestors' load as it was.
\<close>

lemma load_vec_sub_add:
  "(let (v', r') = lv_add now rate v r in fst (lv_sub now rate v' r')) = v"
  by (simp add: lv_add_def lv_sub_def lv_map2_def lv_map_def dc_adjust_def dc_get_idem)

text \<open>
  \<^verbatim>\<open>load_spread_t::hit\<close> never writes outside its array of the last four clients: on every
  state that satisfies the class invariant the call returns, and keeps the invariant.
\<close>

lemma spread_hit_safe:
  assumes "spread_inv s"
  shows "\<exists>v s'. spread_hit now rate who s = Some (v, s') \<and> spread_inv s'"
proof (cases "who \<in> set (take (sp_n s) (sp_last s))")
  case True
  then show ?thesis using assms by (simp add: spread_hit_def)
next
  case new: False
  have inv: "length (sp_last s) = 4" "sp_p s < 4" "sp_n s \<le> 4" "distinct (take (sp_n s) (sp_last s))"
    "sp_n s < 4 \<Longrightarrow> sp_p s = sp_n s"
    using assms by (auto simp: spread_inv_def SPREAD_MAX_def)
  show ?thesis
  proof (cases "sp_n s < 4")
    case True
    have "distinct (take (Suc (sp_n s)) ((sp_last s)[sp_n s := who]))"
      using distinct_take_push [of "sp_n s" "sp_last s" who] inv new True by simp
    then show ?thesis
      using new inv True
      by (auto simp: spread_hit_def spread_inv_def Let_def SPREAD_MAX_def split: prod.split)
  next
    case False
    then have n: "sp_n s = 4" using inv by simp
    then have "distinct ((sp_last s)[sp_p s := who])"
      using inv new by (auto intro: distinct_list_update)
    then show ?thesis
      using new inv n
      by (auto simp: spread_hit_def spread_inv_def Let_def SPREAD_MAX_def split: prod.split)
  qed
qed

text \<open>Concrete runs of the properties above.\<close>

definition sample_counter :: decay_counter where
  "sample_counter = (DecayCounter utime_zero decay_rate_default)\<lparr>dc_val := 1\<rparr>"

lemma sample_counter_simps [simp]:
  "dc_total sample_counter = 1" "dc_last_decay sample_counter = utime_zero"
  by (simp_all add: sample_counter_def dc_total_def DecayCounter_def)

lemma utime_whole_seconds [simp]:
  "utime_ok \<lparr>tv_sec = s, tv_nsec = 0\<rparr>" "utime_ok utime_zero" "utime_double utime_zero = 0"
  "utime_double \<lparr>tv_sec = s, tv_nsec = 0\<rparr> = real_of_int (uint s)"
  by (simp_all add: utime_ok_def utime_zero_def utime_double_def)

theorem decay_sampling_independent_witness:
  "fst (dc_get \<lparr>tv_sec = 20, tv_nsec = 0\<rparr> (set_halflife 10)
      (dc_decay \<lparr>tv_sec = 10, tv_nsec = 0\<rparr> (set_halflife 10) sample_counter)) = 1 / 4"
proof -
  let ?t1 = "\<lparr>tv_sec = 10 :: u32, tv_nsec = 0\<rparr>" and ?t2 = "\<lparr>tv_sec = 20 :: u32, tv_nsec = 0\<rparr>"
  have le: "utime_le utime_zero ?t1" "utime_le ?t1 ?t2" "utime_le utime_zero ?t2"
    by (simp_all add: utime_le_def utime_zero_def)
  have v: "fst (dc_get ?t2 (set_halflife 10) sample_counter) = 1 / 4"
    using dc_get_ordered(1) [of ?t2 sample_counter 10] le
    by (simp add: Let_def power2_eq_square)
  show ?thesis
    using decay_sampling_independent [of sample_counter ?t1 ?t2 10] le v by simp
qed

end
