(* ===== verification/Hotness.thy ===== *)
theory Hotness
  imports Time_Decay
begin

text \<open>
  Lunule's workload-aware load model: the per-inode hit history (\<^verbatim>\<open>ReqCounter\<close> of
  \<^verbatim>\<open>src/mds/adsl/ReqCounter.cc\<close>), the potential load (\<^verbatim>\<open>dirfrag_pot_load_t\<close> of
  \<^verbatim>\<open>src/mds/adsl/mdstypes.cc\<close>), the hit counters and the recency factors of an inode
  (\<^verbatim>\<open>CInode::hit\<close>, \<^verbatim>\<open>CInode::alpha_beta\<close>) and the load of a directory fragment
  (\<^verbatim>\<open>CDir::get_load\<close>).

  The part of the metadata cache these functions walk is a tree of inodes and directory
  fragments; a walk that refreshes cached fields returns the refreshed tree.
\<close>

section \<open>ReqCounter\<close>

definition REQCOUNTER_QUEUE_LEN_DEFAULT :: nat where
  "REQCOUNTER_QUEUE_LEN_DEFAULT = 5"

record req_counter =
  rc_data :: "bool list"
  rc_last_hit :: bool
  rc_cache_hit_times :: int

text \<open>
  The constructor fills \<^verbatim>\<open>_data\<close> with \<^verbatim>\<open>false\<close> and leaves \<^verbatim>\<open>_last_hit\<close> and
  \<^verbatim>\<open>_cache_hit_times\<close> uninitialised: they are arguments here.
\<close>

definition ReqCounter :: "bool \<Rightarrow> int \<Rightarrow> req_counter" where
  "ReqCounter lh cht =
     \<lparr>rc_data = replicate REQCOUNTER_QUEUE_LEN_DEFAULT False, rc_last_hit = lh,
      rc_cache_hit_times = cht\<rparr>"

text \<open>The body of the loop that shifts in one idle epoch.\<close>

definition rc_shift_idle :: "req_counter \<Rightarrow> req_counter" where
  "rc_shift_idle c =
     c\<lparr>rc_cache_hit_times := rc_cache_hit_times c - of_bool (hd (rc_data c)),
       rc_data := tl (rc_data c) @ [False]\<rparr>"

definition switch_epoch :: "int \<Rightarrow> req_counter \<Rightarrow> req_counter" where
  "switch_epoch epoch_num c =
     (if epoch_num > int REQCOUNTER_QUEUE_LEN_DEFAULT + 1 then
        c\<lparr>rc_data := replicate REQCOUNTER_QUEUE_LEN_DEFAULT False, rc_last_hit := False,
          rc_cache_hit_times := 0\<rparr>
      else
        (let c1 = c\<lparr>rc_cache_hit_times :=
                      rc_cache_hit_times c + of_bool (rc_last_hit c) - of_bool (hd (rc_data c)),
                    rc_data := tl (rc_data c) @ [rc_last_hit c],
                    rc_last_hit := False\<rparr>
         in (rc_shift_idle ^^ nat (epoch_num - 1)) c1))"

text \<open>\<open>-1\<close>: already hit in this epoch; \<open>0\<close>: first hit in this epoch; \<open>1\<close>: brand new hit.\<close>

definition rc_hit :: "req_counter \<Rightarrow> int \<times> req_counter" where
  "rc_hit c =
     (if rc_last_hit c then (- 1, c)
      else (of_bool (rc_cache_hit_times c = 0), c\<lparr>rc_last_hit := True\<rparr>))"

definition rc_inv :: "req_counter \<Rightarrow> bool" where
  "rc_inv c \<longleftrightarrow>
     length (rc_data c) = REQCOUNTER_QUEUE_LEN_DEFAULT \<and>
     rc_cache_hit_times c = int (count_list (rc_data c) True)"

section \<open>Potential load\<close>

record dirfrag_pot_load_t =
  pot_value :: real
  pot_last_value :: real
  pot_last_epoch :: int

definition dirfrag_pot_load :: dirfrag_pot_load_t where
  "dirfrag_pot_load = \<lparr>pot_value = 0, pot_last_value = 0, pot_last_epoch = - 1\<rparr>"

definition pot_update_epoch :: "int \<Rightarrow> dirfrag_pot_load_t \<Rightarrow> dirfrag_pot_load_t" where
  "pot_update_epoch epoch p =
     (if epoch > pot_last_epoch p then
        p\<lparr>pot_last_value := (if epoch - pot_last_epoch p = 1 then pot_value p else 0),
          pot_value := pot_value p / 4, pot_last_epoch := epoch\<rparr>
      else p)"

definition pot_adjust :: "real \<Rightarrow> int \<Rightarrow> dirfrag_pot_load_t \<Rightarrow> dirfrag_pot_load_t" where
  "pot_adjust adj epoch p =
     (let p' = pot_update_epoch epoch p in p'\<lparr>pot_value := pot_value p' + adj\<rparr>)"

definition pot_inc :: "int \<Rightarrow> dirfrag_pot_load_t \<Rightarrow> dirfrag_pot_load_t" where
  "pot_inc epoch p =
     (let p' = pot_update_epoch epoch p in p'\<lparr>pot_value := pot_value p' + 1\<rparr>)"

definition pot_add :: "dirfrag_pot_load_t \<Rightarrow> dirfrag_pot_load_t \<Rightarrow> dirfrag_pot_load_t" where
  "pot_add p another =
     (if pot_last_epoch p > pot_last_epoch another then p
      else pot_adjust (pot_value another) (pot_last_epoch another) p)"

definition pot_clear :: "int \<Rightarrow> dirfrag_pot_load_t \<Rightarrow> dirfrag_pot_load_t" where
  "pot_clear epoch p =
     (let p' = pot_update_epoch epoch p in p'\<lparr>pot_value := 0, pot_last_value := 0\<rparr>)"

definition pot_load :: "int \<Rightarrow> bool \<Rightarrow> dirfrag_pot_load_t \<Rightarrow> real \<times> dirfrag_pot_load_t" where
  "pot_load epoch use_current p =
     (let p' = (if epoch > 0 then pot_update_epoch epoch p else p)
      in (if use_current then pot_value p' else pot_last_value p', p'))"

section \<open>The cached tree\<close>

record inode_hot =
  in_hitcount :: req_counter
  in_newoldhit :: "int \<times> int"
  in_last_newoldhit :: "int \<times> int"
  in_subtree_size :: int
  in_beat_epoch :: int

record dir_hot =
  d_auth :: bool
  d_beat_epoch :: int
  d_num_dentries_auth_subtree_nested :: int
  d_pot_auth :: dirfrag_pot_load_t
  d_pot_all :: dirfrag_pot_load_t
  d_pop_auth_subtree :: dirfrag_load_vec_t

text \<open>
  \<^verbatim>\<open>CDentry::linkage_t\<close> is primary (it owns an inode), remote (the inode is elsewhere) or null.
\<close>

datatype cinode = CInode (hot_of: inode_hot) (dirfrags_of: "cdir list")
  and cdir = CDir (dhot_of: dir_hot) (items_of: "linkage list")
  and linkage = Primary cinode | Remote | Null

text \<open>\<^verbatim>\<open>CInode::maybe_update_epoch\<close>: a smaller epoch is reported as \<open>2\<close>.\<close>

definition maybe_update_epoch :: "int \<Rightarrow> inode_hot \<Rightarrow> int \<times> inode_hot" where
  "maybe_update_epoch epoch h =
     (let ret = epoch - in_beat_epoch h;
          h1 = (if epoch > in_beat_epoch h
                then h\<lparr>in_hitcount := switch_epoch (epoch - in_beat_epoch h) (in_hitcount h),
                       in_last_newoldhit := in_newoldhit h, in_newoldhit := (0, 0)\<rparr>
                else h)
      in (if ret < 0 then 2 else ret, h1\<lparr>in_beat_epoch := epoch\<rparr>))"

fun size_slow_inode :: "int \<Rightarrow> cinode \<Rightarrow> int \<times> cinode"
  and size_slow_dirs :: "int \<Rightarrow> cdir list \<Rightarrow> int \<times> cdir list"
  and size_slow_dir :: "int \<Rightarrow> cdir \<Rightarrow> int \<times> cdir"
  and size_slow_items :: "int \<Rightarrow> linkage list \<Rightarrow> int \<times> linkage list" where
  "size_slow_inode epoch (CInode h ds) =
     (if epoch mod 3 = 0 then (in_subtree_size h, CInode h ds)
      else
        (let (r, h1) = maybe_update_epoch epoch h in
         if r \<le> 0 then (in_subtree_size h1, CInode h1 ds)
         else
           (let (n, ds') = size_slow_dirs epoch ds
            in (n, CInode (h1\<lparr>in_subtree_size := n\<rparr>) ds'))))"
| "size_slow_dirs epoch [] = (0, [])"
| "size_slow_dirs epoch (d # ds) =
     (let (n, d') = (if d_auth (dhot_of d) then size_slow_dir epoch d else (0, d));
          (m, ds') = size_slow_dirs epoch ds
      in (n + m, d' # ds'))"
| "size_slow_dir epoch (CDir h ls) =
     (if epoch \<le> d_beat_epoch h then (d_num_dentries_auth_subtree_nested h, CDir h ls)
      else
        (let (n, ls') = size_slow_items epoch ls;
             t = n + int (length ls)
         in (t, CDir (h\<lparr>d_beat_epoch := epoch, d_num_dentries_auth_subtree_nested := t\<rparr>) ls')))"
| "size_slow_items epoch [] = (0, [])"
| "size_slow_items epoch (l # ls) =
     (let (n, l') = (case l of Primary i \<Rightarrow> let (k, i') = size_slow_inode epoch i in (k, Primary i')
                              | _ \<Rightarrow> (0, l));
          (m, ls') = size_slow_items epoch ls
      in (n + m, l' # ls'))"

text \<open>The number of dentries in the authoritative subtree, as a plain count.\<close>

fun dentries_inode :: "cinode \<Rightarrow> int"
  and dentries_dirs :: "cdir list \<Rightarrow> int"
  and dentries_dir :: "cdir \<Rightarrow> int"
  and dentries_items :: "linkage list \<Rightarrow> int" where
  "dentries_inode (CInode h ds) = dentries_dirs ds"
| "dentries_dirs [] = 0"
| "dentries_dirs (d # ds) = (if d_auth (dhot_of d) then dentries_dir d else 0) + dentries_dirs ds"
| "dentries_dir (CDir h ls) = dentries_items ls + int (length ls)"
| "dentries_items [] = 0"
| "dentries_items (l # ls) =
     (case l of Primary i \<Rightarrow> dentries_inode i | _ \<Rightarrow> 0) + dentries_items ls"

text \<open>Every cached epoch in the tree is older than \<open>epoch\<close>.\<close>

fun older_inode :: "int \<Rightarrow> cinode \<Rightarrow> bool"
  and older_dirs :: "int \<Rightarrow> cdir list \<Rightarrow> bool"
  and older_dir :: "int \<Rightarrow> cdir \<Rightarrow> bool"
  and older_items :: "int \<Rightarrow> linkage list \<Rightarrow> bool" where
  "older_inode epoch (CInode h ds) = (in_beat_epoch h < epoch \<and> older_dirs epoch ds)"
| "older_dirs epoch [] = True"
| "older_dirs epoch (d # ds) = (older_dir epoch d \<and> older_dirs epoch ds)"
| "older_dir epoch (CDir h ls) = (d_beat_epoch h < epoch \<and> older_items epoch ls)"
| "older_items epoch [] = True"
| "older_items epoch (l # ls) =
     ((case l of Primary i \<Rightarrow> older_inode epoch i | _ \<Rightarrow> True) \<and> older_items epoch ls)"

section \<open>Hits and the recency factors\<close>

definition bump_newold :: "int \<Rightarrow> inode_hot \<Rightarrow> inode_hot" where
  "bump_newold newold h =
     h\<lparr>in_newoldhit := (if newold = 0 then (fst (in_newoldhit h) + 1, snd (in_newoldhit h))
                        else (fst (in_newoldhit h), snd (in_newoldhit h) + 1))\<rparr>"

text \<open>
  \<^verbatim>\<open>CInode::hit\<close>; the second argument is the chain of inodes from the parent up to the root.
\<close>

definition inode_hit ::
  "bool \<Rightarrow> int \<Rightarrow> inode_hot \<Rightarrow> inode_hot list \<Rightarrow> int \<times> inode_hot \<times> inode_hot list" where
  "inode_hit check_epoch epoch h ancestors =
     (let (r, h1) = (if check_epoch then maybe_update_epoch epoch h else (0, h)) in
      if check_epoch \<and> r < 0 then (- 2, h1, ancestors)
      else
        (let (newold, hc) = rc_hit (in_hitcount h1); h2 = h1\<lparr>in_hitcount := hc\<rparr> in
         if newold < 0 then (newold, h2, ancestors)
         else (newold, bump_newold newold h2, map (bump_newold newold) ancestors)))"

definition alpha_beta :: "int \<Rightarrow> cinode \<Rightarrow> (real \<times> real) \<times> cinode" where
  "alpha_beta epoch i =
     (let (subtree_size, i1) = size_slow_inode epoch i;
          (r, h) = maybe_update_epoch epoch (hot_of i1);
          (oldcnt, newcnt) = in_last_newoldhit h;
          total = oldcnt + newcnt;
          alpha = (if total \<noteq> 0 then real_of_int oldcnt / real_of_int (oldcnt + newcnt) else 0);
          beta = (if subtree_size \<noteq> 0
                  then real_of_int (subtree_size - oldcnt) / real_of_int subtree_size else 0);
          beta = (if beta \<le> 1 / 10 then 1 / 10 else beta);
          alpha = (if alpha \<le> 1 / 10 then 1 / 10 else alpha)
      in ((alpha, beta), CInode h (dirfrags_of i1)))"

definition last_hit_amount :: "inode_hot \<Rightarrow> int" where
  "last_hit_amount h = fst (in_last_newoldhit h) + snd (in_last_newoldhit h)"

text \<open>\<^verbatim>\<open>CDir::_maybe_update_epoch\<close>; see the note on the order of its two statements below.\<close>

definition dir_maybe_update_epoch :: "int \<Rightarrow> cdir \<Rightarrow> cdir" where
  "dir_maybe_update_epoch epoch d =
     (if epoch > d_beat_epoch (dhot_of d) then
        (let d1 = CDir ((dhot_of d)\<lparr>d_beat_epoch := epoch\<rparr>) (items_of d);
             (n, d2) = size_slow_dir epoch d1
         in CDir ((dhot_of d2)\<lparr>d_num_dentries_auth_subtree_nested := n\<rparr>) (items_of d2))
      else d)"

text \<open>
  \<^verbatim>\<open>CDir::get_load\<close> for the \<open>k\<close>-th fragment of an inode. It refreshes the fragment, the
  inode's recency factors and the potential load, and returns the refreshed inode.
\<close>

definition dir_get_load :: "int \<Rightarrow> utime_t \<Rightarrow> decay_rate \<Rightarrow> nat \<Rightarrow> cinode \<Rightarrow> real \<times> cinode" where
  "dir_get_load beat_epoch rebalance_time rate k i =
     (let ds = dirfrags_of i;
          d0 = dir_maybe_update_epoch beat_epoch (ds ! k);
          ((alpha, beta), i1) = alpha_beta (d_beat_epoch (dhot_of d0)) (CInode (hot_of i) (ds[k := d0]));
          d1 = dirfrags_of i1 ! k;
          (pop, v) = meta_load_now rebalance_time rate (d_pop_auth_subtree (dhot_of d1));
          (pot, p) = pot_load beat_epoch False (d_pot_auth (dhot_of d1));
          d2 = CDir ((dhot_of d1)\<lparr>d_pop_auth_subtree := v, d_pot_auth := p\<rparr>) (items_of d1)
      in (alpha * real_of_int (fst (in_last_newoldhit (hot_of i1))) + beta * pot,
          CInode (hot_of i1) ((dirfrags_of i1)[k := d2])))"

section \<open>The hit history refines a set of epochs\<close>

text \<open>
  The specification of a \<^verbatim>\<open>ReqCounter\<close>: the current epoch \<open>e\<close> and the set \<open>H\<close> of epochs with a
  hit. The implementation keeps the last five finished epochs and a count.
\<close>

definition rc_refines :: "req_counter \<Rightarrow> int \<Rightarrow> int set \<Rightarrow> bool" where
  "rc_refines c e H \<longleftrightarrow>
     (\<forall>x\<in>H. x \<le> e) \<and> rc_data c = map (\<lambda>i. e - 5 + i \<in> H) [0..4] \<and>
     rc_last_hit c = (e \<in> H) \<and> rc_cache_hit_times c = int (count_list (rc_data c) True)"

definition spec_hit :: "int \<Rightarrow> int set \<Rightarrow> int" where
  "spec_hit e H = (if e \<in> H then - 1 else if H \<inter> {e - 5..<e} = {} then 1 else 0)"

datatype rc_event = Hit | Epochs nat

fun rc_run :: "req_counter \<Rightarrow> rc_event list \<Rightarrow> int list \<times> req_counter" where
  "rc_run c [] = ([], c)"
| "rc_run c (Hit # es) =
     (let (r, c') = rc_hit c; (rs, c'') = rc_run c' es in (r # rs, c''))"
| "rc_run c (Epochs n # es) = rc_run (switch_epoch (int (Suc n)) c) es"

fun spec_run :: "int \<Rightarrow> int set \<Rightarrow> rc_event list \<Rightarrow> int list" where
  "spec_run e H [] = []"
| "spec_run e H (Hit # es) = spec_hit e H # spec_run e (insert e H) es"
| "spec_run e H (Epochs n # es) = spec_run (e + int (Suc n)) H es"

lemma upto_0_4: "[0..4::int] = [0, 1, 2, 3, 4]"
  by (simp add: upto_rec1)

lemmas rc_defs = rc_refines_def upto_0_4 REQCOUNTER_QUEUE_LEN_DEFAULT_def

lemma rc_refines_fresh: "rc_refines (ReqCounter False 0) e {}"
  by (simp add: rc_defs ReqCounter_def numeral_eq_Suc)

lemma rc_refines_shift:
  assumes "rc_refines c e H" "e \<notin> H"
  shows "rc_refines (rc_shift_idle c) (e + 1) H"
  using assms by (auto simp: rc_defs rc_shift_idle_def algebra_simps)

lemma rc_refines_shifts:
  assumes "rc_refines c e H" "e \<notin> H"
  shows "rc_refines ((rc_shift_idle ^^ n) c) (e + int n) H"
proof (induction n)
  case 0
  then show ?case using assms by simp
next
  case (Suc n)
  have "e + int n \<notin> H"
    using assms by (cases n) (auto simp: rc_refines_def)
  then show ?case
    using rc_refines_shift [OF Suc] by (simp add: algebra_simps)
qed

lemma rc_refines_switch:
  assumes "rc_refines c e H" "1 \<le> n"
  shows "rc_refines (switch_epoch n c) (e + n) H"
proof (cases "n > 6")
  case True
  have "x \<notin> H" if "e < x" for x
    using assms(1) that by (force simp: rc_refines_def)
  moreover have "\<forall>x\<in>H. x \<le> e + n"
    using assms(1) True by (force simp: rc_refines_def)
  ultimately show ?thesis
    using True by (auto simp: switch_epoch_def rc_defs numeral_eq_Suc)
next
  case False
  define c1 where "c1 = c\<lparr>rc_cache_hit_times :=
      rc_cache_hit_times c + of_bool (rc_last_hit c) - of_bool (hd (rc_data c)),
    rc_data := tl (rc_data c) @ [rc_last_hit c], rc_last_hit := False\<rparr>"
  have "e + 1 \<notin> H" using assms(1) by (force simp: rc_refines_def)
  moreover have "rc_refines c1 (e + 1) H"
    using assms(1) \<open>e + 1 \<notin> H\<close> by (auto simp: c1_def rc_defs algebra_simps)
  ultimately have "rc_refines ((rc_shift_idle ^^ nat (n - 1)) c1) (e + 1 + int (nat (n - 1))) H"
    by (intro rc_refines_shifts)
  then show ?thesis
    using False assms(2) by (simp add: switch_epoch_def c1_def REQCOUNTER_QUEUE_LEN_DEFAULT_def Let_def)
qed

lemma rc_refines_hit:
  assumes "rc_refines c e H"
  shows "fst (rc_hit c) = spec_hit e H" "rc_refines (snd (rc_hit c)) e (insert e H)"
proof -
  have r: "{e - 5..<e} = {e - 5, e - 4, e - 3, e - 2, e - 1}" by auto
  have "(H \<inter> {e - 5..<e} = {}) \<longleftrightarrow> count_list (rc_data c) True = 0"
    unfolding r using assms by (auto simp: rc_defs count_list_0_iff)
  then show "fst (rc_hit c) = spec_hit e H"
    using assms by (simp add: rc_hit_def spec_hit_def rc_refines_def)
  show "rc_refines (snd (rc_hit c)) e (insert e H)"
    using assms by (auto simp: rc_hit_def rc_defs)
qed

lemma rc_refines_unique: "rc_refines c e H \<Longrightarrow> rc_refines c' e H \<Longrightarrow> c = c'"
  by (simp add: rc_refines_def)

lemma rc_refines_inv: "rc_refines c e H \<Longrightarrow> rc_inv c"
  by (simp add: rc_inv_def rc_defs)

lemma rc_inv_refines:
  assumes "rc_inv c"
  obtains H where "rc_refines c 5 H"
proof -
  obtain a0 a1 a2 a3 a4 where d: "rc_data c = [a0, a1, a2, a3, a4]"
    using assms by (auto simp: rc_inv_def REQCOUNTER_QUEUE_LEN_DEFAULT_def numeral_eq_Suc length_Suc_conv)
  define H :: "int set" where "H = {x. (x = 0 \<and> a0) \<or> (x = 1 \<and> a1) \<or> (x = 2 \<and> a2) \<or> (x = 3 \<and> a3)
    \<or> (x = 4 \<and> a4) \<or> (x = 5 \<and> rc_last_hit c)}"
  have "rc_refines c 5 H"
    using assms d by (auto simp: rc_defs rc_inv_def H_def)
  then show ?thesis by (rule that)
qed

section \<open>Refreshing the subtree size\<close>

lemma maybe_update_epoch_newer:
  "in_beat_epoch h < epoch \<Longrightarrow> fst (maybe_update_epoch epoch h) = epoch - in_beat_epoch h"
  by (simp add: maybe_update_epoch_def Let_def)

lemma maybe_update_epoch_beat: "in_beat_epoch (snd (maybe_update_epoch epoch h)) = epoch"
  by (simp add: maybe_update_epoch_def Let_def)

lemma maybe_update_epoch_same: "in_beat_epoch h = epoch \<Longrightarrow> maybe_update_epoch epoch h = (0, h)"
  by (simp add: maybe_update_epoch_def Let_def)

lemma maybe_update_epoch_nonneg: "0 \<le> fst (maybe_update_epoch epoch h)"
  by (simp add: maybe_update_epoch_def Let_def)

lemma size_slow_counts:
  "older_inode e i \<Longrightarrow> e mod 3 \<noteq> 0 \<Longrightarrow> fst (size_slow_inode e i) = dentries_inode i"
  "older_dirs e ds \<Longrightarrow> e mod 3 \<noteq> 0 \<Longrightarrow> fst (size_slow_dirs e ds) = dentries_dirs ds"
  "older_dir e d \<Longrightarrow> e mod 3 \<noteq> 0 \<Longrightarrow> fst (size_slow_dir e d) = dentries_dir d"
  "older_items e ls \<Longrightarrow> e mod 3 \<noteq> 0 \<Longrightarrow> fst (size_slow_items e ls) = dentries_items ls"
proof (induction e i and e ds and e d and e ls
    rule: size_slow_inode_size_slow_dirs_size_slow_dir_size_slow_items.induct)
  case (1 epoch h ds)
  then show ?case
    using maybe_update_epoch_newer [of h epoch]
    by (auto simp: Let_def split: prod.splits)
next
  case (6 epoch l ls)
  then show ?case by (cases l) (auto simp: Let_def split: prod.splits)
qed (auto simp: Let_def split: prod.splits)

lemma size_slow_inode_parts:
  assumes "older_inode e i" "e mod 3 \<noteq> 0"
  shows "in_beat_epoch (hot_of (snd (size_slow_inode e i))) = e"
    and "in_subtree_size (hot_of (snd (size_slow_inode e i))) = fst (size_slow_inode e i)"
proof -
  obtain h ds where i: "i = CInode h ds" by (cases i)
  have "fst (maybe_update_epoch e h) > 0"
    using assms(1) maybe_update_epoch_newer [of h e] by (simp add: i)
  then show "in_beat_epoch (hot_of (snd (size_slow_inode e i))) = e"
    and "in_subtree_size (hot_of (snd (size_slow_inode e i))) = fst (size_slow_inode e i)"
    using assms maybe_update_epoch_beat [of e h]
    by (auto simp: i Let_def split: prod.splits)
qed

lemma size_slow_inode_cached:
  assumes "in_beat_epoch (hot_of i) = e" "e mod 3 \<noteq> 0"
  shows "size_slow_inode e i = (in_subtree_size (hot_of i), i)"
  using assms by (cases i) (simp add: maybe_update_epoch_same)

definition hits_nonneg :: "inode_hot \<Rightarrow> bool" where
  "hits_nonneg h \<longleftrightarrow> 0 \<le> fst (in_newoldhit h) \<and> 0 \<le> snd (in_newoldhit h) \<and>
     0 \<le> fst (in_last_newoldhit h) \<and> 0 \<le> snd (in_last_newoldhit h)"

lemma hits_nonneg_update: "hits_nonneg h \<Longrightarrow> hits_nonneg (snd (maybe_update_epoch e h))"
  by (auto simp: hits_nonneg_def maybe_update_epoch_def Let_def)

lemma hits_nonneg_size_slow:
  "hits_nonneg (hot_of i) \<Longrightarrow> hits_nonneg (hot_of (snd (size_slow_inode e i)))"
  using hits_nonneg_update [of "hot_of i" e]
  by (cases i) (auto simp: Let_def hits_nonneg_def split: prod.splits)

lemma alpha_factor_range:
  fixes oldcnt newcnt :: int
  assumes "0 \<le> oldcnt" "0 \<le> newcnt"
  shows "0 \<le> real_of_int oldcnt / real_of_int (oldcnt + newcnt)"
    and "real_of_int oldcnt / real_of_int (oldcnt + newcnt) \<le> 1"
  using assms by (auto simp: divide_le_eq_1)

section \<open>Properties\<close>

text \<open>
  C30: the hit history refines its specification. The constructor leaves the flag \<open>lh\<close> and the count \<open>n\<close> uninitialised. If they happen to be
  false and zero, or as soon as more than six epochs pass at once, which resets the counter, then for every
  sequence of hits and epoch switches \<^verbatim>\<open>ReqCounter::hit\<close> answers \<open>-1\<close> iff the current epoch
  already had a hit, and otherwise \<open>1\<close> iff none of the five preceding epochs had one.
\<close>

theorem req_counter_refines_spec:
  assumes "\<not> lh \<and> n = 0 \<or> (\<exists>k es'. es = Epochs k # es' \<and> 6 \<le> k)"
  shows "fst (rc_run (ReqCounter lh n) es) = spec_run 0 {} es"
proof -
  have run: "fst (rc_run c es) = spec_run e H es" if "rc_refines c e H" for c e H es
    using that
  proof (induction es arbitrary: c e H)
    case Nil
    then show ?case by simp
  next
    case (Cons ev es)
    show ?case
    proof (cases ev)
      case Hit
      then show ?thesis
        using Cons.IH [OF rc_refines_hit(2) [OF Cons.prems]] rc_refines_hit(1) [OF Cons.prems]
        by (auto simp: Let_def split: prod.splits)
    next
      case (Epochs n)
      have "rc_refines (switch_epoch (int (Suc n)) c) (e + int (Suc n)) H"
        by (rule rc_refines_switch [OF Cons.prems]) simp
      then show ?thesis using Cons.IH Epochs by simp
    qed
  qed
  show ?thesis using assms
  proof
    assume "\<not> lh \<and> n = 0"
    then show ?thesis using run [OF rc_refines_fresh] by simp
  next
    assume "\<exists>k es'. es = Epochs k # es' \<and> 6 \<le> k"
    then obtain k es' where es: "es = Epochs k # es'" "6 \<le> k" by blast
    have "switch_epoch (int (Suc k)) (ReqCounter lh n) = ReqCounter False 0"
      using es(2) by (simp add: switch_epoch_def ReqCounter_def REQCOUNTER_QUEUE_LEN_DEFAULT_def)
    then show ?thesis using run [OF rc_refines_fresh [of "int (Suc k)"], of es'] by (simp add: es(1))
  qed
qed

theorem req_counter_refines_spec_witness:
  "fst (rc_run (ReqCounter True 7) [Epochs 6, Hit, Hit, Epochs 0, Hit, Epochs 5, Hit]) = [1, - 1, 0, 1]"
proof -
  have "fst (rc_run (ReqCounter True 7) [Epochs 6, Hit, Hit, Epochs 0, Hit, Epochs 5, Hit])
      = spec_run 0 {} [Epochs 6, Hit, Hit, Epochs 0, Hit, Epochs 5, Hit]"
    by (rule req_counter_refines_spec) simp
  also have "\<dots> = [1, - 1, 0, 1]" by (simp add: spec_hit_def)
  finally show ?thesis .
qed

text \<open>
  \<^verbatim>\<open>ReqCounter::switch_epoch(n)\<close>, with its reset for long gaps, equals \<open>n\<close> single epoch
  switches on every counter whose cached count agrees with its queue.
\<close>

lemma switch_epoch_iterated:
  assumes "rc_inv c" "1 \<le> n"
  shows "switch_epoch (int n) c = (switch_epoch 1 ^^ n) c"
proof -
  obtain H where H: "rc_refines c 5 H" by (rule rc_inv_refines [OF assms(1)])
  have "rc_refines ((switch_epoch 1 ^^ n) c) (5 + int n) H" for n
  proof (induction n)
    case (Suc n)
    then show ?case using rc_refines_switch [OF Suc, of 1] by (simp add: algebra_simps)
  qed (simp add: H)
  moreover have "rc_refines (switch_epoch (int n) c) (5 + int n) H"
    using rc_refines_switch [OF H] assms(2) by simp
  ultimately show ?thesis by (metis rc_refines_unique)
qed

text \<open>
  C31: \<^verbatim>\<open>get_authsubtree_size_slow\<close> counts the dentries of the authoritative subtree. On a tree
  whose cached epochs are all older, it returns the plain count, and calling it again in the same epoch returns the
  same from the cache and changes nothing; but in an epoch that is a multiple of three it returns the size cached last,
  however old, and changes nothing.
\<close>

theorem subtree_size_counts:
  assumes "older_inode e i"
  shows "if e mod 3 = 0 then size_slow_inode e i = (in_subtree_size (hot_of i), i)
    else fst (size_slow_inode e i) = dentries_inode i
      \<and> size_slow_inode e (snd (size_slow_inode e i)) = size_slow_inode e i"
proof (cases "e mod 3 = 0")
  case True
  then show ?thesis by (cases i) simp
next
  case False
  then show ?thesis
    using size_slow_counts(1) [OF assms False] size_slow_inode_parts [OF assms False]
      size_slow_inode_cached [of "snd (size_slow_inode e i)" e]
    by (simp add: prod_eq_iff)
qed

text \<open>
  The recency factors of \<^verbatim>\<open>CInode::alpha_beta\<close> are bounded: with non-negative hit counts
  \<open>alpha\<close> lies in \<open>[0.1, 1]\<close> and \<open>beta\<close> in \<open>[0.1, 1]\<close> when the size is non-negative.
\<close>

lemma alpha_beta_range:
  assumes "alpha_beta e i = ((alpha, beta), i')"
    and "hits_nonneg (hot_of i)" "0 \<le> fst (size_slow_inode e i)"
  shows "1 / 10 \<le> alpha \<and> alpha \<le> 1 \<and> 1 / 10 \<le> beta \<and> beta \<le> 1"
proof -
  obtain n i1 where s: "size_slow_inode e i = (n, i1)" by fastforce
  obtain r h where u: "maybe_update_epoch e (hot_of i1) = (r, h)" by fastforce
  obtain oldcnt newcnt where c: "in_last_newoldhit h = (oldcnt, newcnt)" by fastforce
  have "hits_nonneg h"
    using hits_nonneg_update [OF hits_nonneg_size_slow [OF assms(2)]] s u by (metis snd_conv)
  then have nn: "0 \<le> oldcnt" "0 \<le> newcnt" "0 \<le> n"
    using assms(3) by (simp_all add: hits_nonneg_def c s)
  have "real_of_int (n - oldcnt) / real_of_int n \<le> 1"
    using nn by (auto simp: divide_le_eq_1)
  then show ?thesis
    using assms(1) alpha_factor_range(2) [OF nn(1,2)]
    by (auto simp: alpha_beta_def s u c Let_def split: if_splits)
qed

text \<open>
  \<^verbatim>\<open>CDir::_maybe_update_epoch\<close> never refreshes the count it means to refresh: it stores the
  new epoch first, so the call to \<^verbatim>\<open>get_authsubtree_size_slow\<close> takes its early return and the old
  count is written back.
\<close>

lemma dir_update_epoch_keeps_stale_count:
  "dir_maybe_update_epoch e d =
     CDir ((dhot_of d)\<lparr>d_beat_epoch := max e (d_beat_epoch (dhot_of d))\<rparr>) (items_of d)"
  by (cases d) (auto simp: dir_maybe_update_epoch_def max_def)

text \<open>Concrete runs.\<close>

definition sample_inode_hot :: inode_hot where
  "sample_inode_hot = \<lparr>in_hitcount = ReqCounter False 0, in_newoldhit = (3, 1),
     in_last_newoldhit = (0, 0), in_subtree_size = 0, in_beat_epoch = - 1\<rparr>"

definition sample_dir_hot :: dir_hot where
  "sample_dir_hot = \<lparr>d_auth = True, d_beat_epoch = - 1, d_num_dentries_auth_subtree_nested = 0,
     d_pot_auth = dirfrag_pot_load, d_pot_all = dirfrag_pot_load,
     d_pop_auth_subtree = dirfrag_load_vec utime_zero\<rparr>"

definition sample_tree :: cinode where
  "sample_tree = CInode sample_inode_hot
     [CDir sample_dir_hot [Primary (CInode sample_inode_hot [CDir sample_dir_hot [Null, Remote]]), Null]]"

lemmas sample_tree_defs = sample_tree_def sample_dir_hot_def sample_inode_hot_def

theorem subtree_size_counts_witness:
  "fst (size_slow_inode 1 sample_tree) = 4
    \<and> size_slow_inode 1 (snd (size_slow_inode 1 sample_tree)) = size_slow_inode 1 sample_tree
    \<and> size_slow_inode 3 sample_tree = (0, sample_tree)"
  using subtree_size_counts [of 1 sample_tree] subtree_size_counts [of 3 sample_tree] by (simp add: sample_tree_defs)

end
