(* ===== verification/Balancer_Match.thy ===== *)
theory Balancer_Match
  imports Hotness
begin

text \<open>
  The cluster-wide part of the balancer (\<^verbatim>\<open>src/mds/MDBalancer.cc\<close>): the load of an MDS
  (\<^verbatim>\<open>mds_load_t\<close>), matching exporters to importers (\<^verbatim>\<open>try_match\<close>, \<^verbatim>\<open>get_maxex\<close>, \<^verbatim>\<open>get_maxim\<close>) and
  \<^verbatim>\<open>prep_rebalance\<close> up to its call of \<^verbatim>\<open>try_rebalance\<close>.
\<close>

section \<open>The load of an MDS\<close>

record mds_load_t =
  ml_auth :: dirfrag_load_vec_t
  ml_all :: dirfrag_load_vec_t
  ml_pot_auth :: dirfrag_pot_load_t
  ml_pot_all :: dirfrag_pot_load_t
  ml_req_rate :: real
  ml_cache_hit_rate :: real
  ml_queue_len :: real
  ml_cpu_load_avg :: real

definition mds_load_new :: "utime_t \<Rightarrow> mds_load_t" where
  "mds_load_new t =
     \<lparr>ml_auth = dirfrag_load_vec t, ml_all = dirfrag_load_vec t, ml_pot_auth = dirfrag_pot_load,
      ml_pot_all = dirfrag_pot_load, ml_req_rate = 0, ml_cache_hit_rate = 0, ml_queue_len = 0,
      ml_cpu_load_avg = 0\<rparr>"

text \<open>\<^verbatim>\<open>mds_pop_load\<close>; a mode other than 0, 1, 2 aborts.\<close>

definition mds_pop_load :: "int \<Rightarrow> mds_load_t \<Rightarrow> real option" where
  "mds_pop_load mds_bal_mode l =
     (if mds_bal_mode = 0 then
        Some (8 / 10 * meta_load_last (ml_auth l) + 2 / 10 * meta_load_last (ml_all l)
                + ml_req_rate l + 10 * ml_queue_len l)
      else if mds_bal_mode = 1 then Some (ml_req_rate l + 10 * ml_queue_len l)
      else if mds_bal_mode = 2 then Some (ml_cpu_load_avg l)
      else None)"

definition mds_pot_load :: "bool \<Rightarrow> int \<Rightarrow> mds_load_t \<Rightarrow> real \<times> mds_load_t" where
  "mds_pot_load auth epoch l =
     (let (a, pa) = pot_load epoch False (ml_pot_auth l) in
      if auth then (a, l\<lparr>ml_pot_auth := pa\<rparr>)
      else
        (let (b, pb) = pot_load epoch False (ml_pot_all l)
         in (8 / 10 * a + 2 / 10 * b, l\<lparr>ml_pot_auth := pa, ml_pot_all := pb\<rparr>)))"

text \<open>
  \<^verbatim>\<open>mds_load_t::mds_load\<close>. The last call passes \<open>epoch\<close> in the place of the parameter \<^verbatim>\<open>auth\<close>, and
  leaves the parameter \<^verbatim>\<open>epoch\<close> at its default -1.
\<close>

definition mds_load ::
  "int \<Rightarrow> utime_t \<Rightarrow> decay_rate \<Rightarrow> real \<Rightarrow> real \<Rightarrow> int \<Rightarrow> bool \<Rightarrow> mds_load_t
    \<Rightarrow> (real \<times> mds_load_t) option" where
  "mds_load mds_bal_mode rebalance_time rate alpha beta epoch is_auth l =
     (if is_auth then
        (let (a, v) = meta_load_now rebalance_time rate (ml_auth l);
             (b, p) = pot_load epoch False (ml_pot_all l)
         in Some (alpha * a + beta * b, l\<lparr>ml_auth := v, ml_pot_all := p\<rparr>))
      else do {
        pop \<leftarrow> mds_pop_load mds_bal_mode l;
        let (pot, l') = mds_pot_load (epoch \<noteq> 0) (- 1) l;
        Some (alpha * pop + beta * pot, l')
      })"

text \<open>
  \<^verbatim>\<open>MDBalancer::get_load\<close>: the counters of the root's fragments are added up. \<open>roots\<close> is \<open>None\<close> when
  the cache has no root; each entry holds \<^verbatim>\<open>pop_auth_subtree_nested\<close>, \<^verbatim>\<open>pop_nested\<close>, \<^verbatim>\<open>pot_auth\<close> and
  \<^verbatim>\<open>pot_all\<close> of one fragment. The request rate, the length of the dispatch queue and the CPU load
  are read from the system; \<open>cpu\<close> is \<open>None\<close> when the file cannot be opened.
\<close>

type_synonym root_frag =
  "dirfrag_load_vec_t \<times> dirfrag_load_vec_t \<times> dirfrag_pot_load_t \<times> dirfrag_pot_load_t"

fun add_root_frags ::
  "utime_t \<Rightarrow> decay_rate \<Rightarrow> root_frag list \<Rightarrow> mds_load_t \<Rightarrow> mds_load_t \<times> root_frag list" where
  "add_root_frags now rate [] l = (l, [])"
| "add_root_frags now rate ((na, nn, pa, pall) # fs) l =
     (let (auth', na') = lv_add now rate (ml_auth l) na;
          (all', nn') = lv_add now rate (ml_all l) nn;
          l1 = l\<lparr>ml_auth := auth', ml_all := all', ml_pot_auth := pot_add (ml_pot_auth l) pa,
                 ml_pot_all := pot_add (ml_pot_all l) pall\<rparr>;
          (l2, fs') = add_root_frags now rate fs l1
      in (l2, (na', nn', pa, pall) # fs'))"

definition get_mds_load ::
  "utime_t \<Rightarrow> decay_rate \<Rightarrow> root_frag list option \<Rightarrow> real \<Rightarrow> real \<Rightarrow> real option
    \<Rightarrow> mds_load_t \<times> root_frag list option" where
  "get_mds_load now rate roots req_rate queue_len cpu =
     (let (l, roots') =
            (case roots of
               None \<Rightarrow> (mds_load_new now, None)
             | Some fs \<Rightarrow> (let (l, fs') = add_root_frags now rate fs (mds_load_new now) in (l, Some fs')))
      in (l\<lparr>ml_req_rate := req_rate, ml_queue_len := queue_len,
            ml_cpu_load_avg := (case cpu of None \<Rightarrow> 0 | Some c \<Rightarrow> c)\<rparr>, roots'))"

text \<open>
  What the balancer reads of a directory fragment of the cache: whether it can be exported now
  and the value \<^verbatim>\<open>get_load\<close> returns for it in the current epoch.
\<close>

record subtree_view =
  sv_freezing :: bool
  sv_frozen :: bool
  sv_stray :: bool
  sv_load :: real

text \<open>
  \<^verbatim>\<open>calc_mds_load\<close>: the sum over the local full-auth subtrees. The parameters \<open>load\<close> and \<open>auth\<close> are
  not used by the code.
\<close>

definition calc_mds_load :: "bool \<Rightarrow> subtree_view list \<Rightarrow> mds_load_t \<Rightarrow> bool \<Rightarrow> real" where
  "calc_mds_load has_root fullauth load auth =
     (if \<not> has_root then 0
      else sum_list (map sv_load
             (filter (\<lambda>d. \<not> (sv_freezing d \<or> sv_frozen d \<or> sv_stray d)) fullauth)))"

section \<open>Matching\<close>

record balance_state_t =
  bs_targets :: "(mds_rank_t \<times> real) list"
  bs_imported :: "(mds_rank_t \<times> real) list"
  bs_exported :: "(mds_rank_t \<times> real) list"

definition balance_state_empty :: balance_state_t where
  "balance_state_empty = \<lparr>bs_targets = [], bs_imported = [], bs_exported = []\<rparr>"

definition get_maxim :: "real \<Rightarrow> (mds_rank_t \<times> real) list \<Rightarrow> balance_state_t \<Rightarrow> mds_rank_t \<Rightarrow> real" where
  "get_maxim target_load mds_meta_load st im =
     target_load - get0 mds_meta_load im - get0 (bs_imported st) im"

definition get_maxex :: "real \<Rightarrow> (mds_rank_t \<times> real) list \<Rightarrow> balance_state_t \<Rightarrow> mds_rank_t \<Rightarrow> real" where
  "get_maxex target_load mds_meta_load st ex =
     get0 mds_meta_load ex - target_load - get0 (bs_exported st) ex"

text \<open>The result is the amount, the new state and the two reference parameters.\<close>

definition try_match ::
  "mds_rank_t \<Rightarrow> balance_state_t \<Rightarrow> mds_rank_t \<Rightarrow> real \<Rightarrow> mds_rank_t \<Rightarrow> real
    \<Rightarrow> real \<times> balance_state_t \<times> real \<times> real" where
  "try_match whoami st ex maxex im maxim =
     (if maxex \<le> 0 \<or> maxim \<le> 0 then (0, st, maxex, maxim)
      else
        (let howmuch = min maxex maxim in
         if howmuch \<le> 0 then (0, st, maxex, maxim)
         else
           (let st1 = (if ex = whoami
                       then st\<lparr>bs_targets := omap_set im (get0 (bs_targets st) im + howmuch) (bs_targets st)\<rparr>
                       else st);
                st2 = st1\<lparr>bs_exported := omap_set ex (get0 (bs_exported st1) ex + howmuch) (bs_exported st1),
                          bs_imported := omap_set im (get0 (bs_imported st1) im + howmuch) (bs_imported st1)\<rparr>
            in (howmuch, st2, maxex - howmuch, maxim - howmuch))))"

text \<open>The inner loop over \<^verbatim>\<open>mds_import_map[ex]\<close>.\<close>

fun match_imports ::
  "mds_rank_t \<Rightarrow> real \<Rightarrow> (mds_rank_t \<times> real) list \<Rightarrow> mds_rank_t \<Rightarrow> real
    \<Rightarrow> (mds_rank_t \<times> real) list \<Rightarrow> balance_state_t \<Rightarrow> balance_state_t" where
  "match_imports whoami target ml ex maxex [] st = st"
| "match_imports whoami target ml ex maxex ((im, _) # ims) st =
     (let maxim = get_maxim target ml st im in
      if maxim \<le> 1 / 1000 then match_imports whoami target ml ex maxex ims st
      else
        (let (_, st', maxex', _) = try_match whoami st ex maxex im maxim in
         if maxex' \<le> 1 / 1000 then st'
         else match_imports whoami target ml ex maxex' ims st'))"

text \<open>The loop over the exporters, in the order given.\<close>

fun match_import_sources ::
  "mds_rank_t \<Rightarrow> real \<Rightarrow> (mds_rank_t \<times> real) list
    \<Rightarrow> (mds_rank_t \<Rightarrow> (mds_rank_t \<times> real) list)
    \<Rightarrow> (real \<times> mds_rank_t) list \<Rightarrow> balance_state_t \<Rightarrow> balance_state_t" where
  "match_import_sources whoami target ml import_map [] st = st"
| "match_import_sources whoami target ml import_map ((_, ex) # exs) st =
     (let maxex = get_maxex target ml st ex in
      if maxex \<le> 1 / 1000 then match_import_sources whoami target ml import_map exs st
      else
        match_import_sources whoami target ml import_map exs
          (match_imports whoami target ml ex maxex (import_map ex) st))"

lemma try_match_advances:
  assumes "try_match whoami st ex maxex im maxim = (h, st', maxex', maxim')"
    and "1 / 1000 \<le> maxex" "1 / 1000 \<le> maxim"
  shows "maxex' \<le> 1 / 1000 \<or> maxim' \<le> 1 / 1000"
proof -
  have "min maxex maxim > 0" using assms(2,3) by simp
  then show ?thesis
    using assms(1) by (auto simp: try_match_def Let_def min_def split: if_splits)
qed

text \<open>
  The two-pointer loop. Each round exhausts an exporter or an importer, which is why it ends.
\<close>

function match_pairs ::
  "mds_rank_t \<Rightarrow> real \<Rightarrow> (mds_rank_t \<times> real) list \<Rightarrow> (real \<times> mds_rank_t) list
    \<Rightarrow> (real \<times> mds_rank_t) list \<Rightarrow> balance_state_t \<Rightarrow> balance_state_t" where
  "match_pairs whoami target ml exs ims st =
     (case (exs, ims) of
        ((_, ex) # exs', (_, im) # ims') \<Rightarrow>
          (let maxex = get_maxex target ml st ex; maxim = get_maxim target ml st im in
           if maxex < 1 / 1000 \<or> maxim < 1 / 1000 then st
           else
             (case try_match whoami st ex maxex im maxim of
                (_, st', maxex', maxim') \<Rightarrow>
                  match_pairs whoami target ml
                    (if maxex' \<le> 1 / 1000 then exs' else exs)
                    (if maxim' \<le> 1 / 1000 then ims' else ims) st'))
      | _ \<Rightarrow> st)"
  by pat_completeness auto
termination
  by (relation "measure (\<lambda>(_, _, _, exs, ims, _). length exs + length ims)")
    (auto simp: not_less dest!: try_match_advances [OF sym])

declare match_pairs.simps [simp del]

section \<open>Effects\<close>

record migration_decision_t =
  target_import_mds :: mds_rank_t
  target_export_load :: real
  target_export_percent :: real

text \<open>
  The calls by which the balancer acts on its surroundings: the migrator's export queue and
  exports, the two messages it sends, and the callbacks it leaves with the cache. A directory
  fragment is named by a number.
\<close>

datatype bal_action =
    Clear_export_queue
  | Export_dir_nicely nat mds_rank_t
  | Export_dir nat mds_rank_t
  | Export_empty_import nat
  | Send_ifbeat mds_rank_t mds_load_t int real "migration_decision_t list"
  | Send_heartbeat mds_rank_t mds_load_t int "(mds_rank_t \<times> real) list"
  | Wait_open_ifbeat mds_rank_t real "migration_decision_t list"
  | Wait_open_heartbeat
  | Retry_message
  | Switch_tracer_epoch
  | Try_subtree_merge nat
  | Adjust_subtree_auth nat mds_rank_t

section \<open>prep\_rebalance\<close>

record bal_conf =
  mds_thrash_exports :: bool
  mds_bal_min_rebalance :: real

record balancer =
  b_beat_epoch :: int
  b_last_epoch_under :: int
  b_mds_load :: "(mds_rank_t \<times> mds_load_t) list"
  b_mds_meta_load :: "(mds_rank_t \<times> real) list"
  b_mds_import_map :: "(mds_rank_t \<times> (mds_rank_t \<times> real) list) list"
  b_my_load :: real
  b_target_load :: real
  b_rebalance_time :: utime_t
  b_old_req :: "(mds_rank_t \<times> real) list"
  b_last_heartbeat :: utime_t
  b_last_sample :: utime_t
  b_split_pending :: "nat set"
  b_merge_pending :: "nat set"
  b_bal_code :: string
  b_bal_version :: string

text \<open>
  What \<^verbatim>\<open>prep_rebalance\<close> reads of the rank: its number, the size of the cluster, the ranks that are
  up, the clock, and the view of its own subtrees that \<^verbatim>\<open>calc_mds_load\<close> sums.
\<close>

record rank_view =
  rv_whoami :: mds_rank_t
  rv_num_in_mds :: nat
  rv_up :: "mds_rank_t list"
  rv_now :: utime_t
  rv_has_root :: bool
  rv_fullauth :: "subtree_view list"

abbreviation calc_load :: "rank_view \<Rightarrow> mds_load_t \<Rightarrow> bool \<Rightarrow> real" where
  "calc_load rv \<equiv> calc_mds_load (rv_has_root rv) (rv_fullauth rv)"

definition load_factor :: "rank_view \<Rightarrow> balancer \<Rightarrow> real" where
  "load_factor rv b =
     (case map_of (b_mds_load b) (rv_whoami rv) of
        None \<Rightarrow> 1
      | Some l \<Rightarrow>
          (if calc_load rv l False > 0
           then calc_load rv l True / calc_load rv l False else 1))"

text \<open>The loop that computes the load of every rank; the multimap is ordered by load.\<close>

fun cluster_loads ::
  "rank_view \<Rightarrow> real \<Rightarrow> mds_rank_t list \<Rightarrow> balancer \<times> real \<times> (real \<times> mds_rank_t) list
    \<Rightarrow> balancer \<times> real \<times> (real \<times> mds_rank_t) list" where
  "cluster_loads rv load_fac [] s = s"
| "cluster_loads rv load_fac (i # is) (b, total_load, load_map) =
     (let b1 = b\<lparr>b_mds_load := omap_insert i (mds_load_new (rv_now rv)) (b_mds_load b)\<rparr>;
          l = calc_load rv (the (map_of (b_mds_load b1) i)) False * load_fac;
          b2 = b1\<lparr>b_mds_meta_load := omap_set i l (b_mds_meta_load b1),
                  b_my_load := (if rv_whoami rv = i then l else b_my_load b1)\<rparr>
      in cluster_loads rv load_fac is (b2, total_load + l, mmap_insert l i load_map))"

text \<open>\<open>None\<close> in the last component: the function returned before \<^verbatim>\<open>try_rebalance\<close>.\<close>

definition prep_rebalance ::
  "bal_conf \<Rightarrow> rank_view \<Rightarrow> int \<Rightarrow> balancer \<Rightarrow> balancer \<times> bal_action list \<times> balance_state_t option" where
  "prep_rebalance cf rv beat b =
     (if mds_thrash_exports cf then
        (b, [], Some (balance_state_empty\<lparr>bs_targets := fold (\<lambda>r. omap_set r 0) (rv_up rv) []\<rparr>))
      else
        (let b0 = b\<lparr>b_rebalance_time := rv_now rv\<rparr>;
             load_fac = load_factor rv b0;
             (b1, total_load, load_map) =
               cluster_loads rv load_fac (map int [0..<rv_num_in_mds rv]) (b0, 0, []);
             b2 = b1\<lparr>b_target_load := total_load / real (rv_num_in_mds rv)\<rparr>;
             target = b_target_load b2
         in if b_my_load b2 < target * (1 + mds_bal_min_rebalance cf)
            then (b2\<lparr>b_last_epoch_under := b_beat_epoch b2\<rparr>, [Clear_export_queue], None)
            else if b_last_epoch_under b2 \<noteq> 0 \<and> b_beat_epoch b2 - b_last_epoch_under b2 < 2
            then (b2, [Clear_export_queue], None)
            else
              (let importers = filter (\<lambda>(l, _). l < target) load_map;
                   exporters = filter (\<lambda>(l, _). \<not> l < target) load_map;
                   ml = b_mds_meta_load b2;
                   imap = (\<lambda>ex. case map_of (b_mds_import_map b2) ex of None \<Rightarrow> [] | Some m \<Rightarrow> m);
                   st1 = match_import_sources (rv_whoami rv) target ml imap (rev exporters)
                           balance_state_empty;
                   st2 = (if beat > 0 \<and> beat mod 2 = 1
                          then match_pairs (rv_whoami rv) target ml (rev exporters) importers st1
                          else match_pairs (rv_whoami rv) target ml exporters importers st1)
               in (b2, [Clear_export_queue], Some st2))))"

section \<open>The matching invariant\<close>

abbreviation total_of :: "(mds_rank_t \<times> real) list \<Rightarrow> real" where
  "total_of m \<equiv> sum_list (map snd m)"

definition bal_inv :: "mds_rank_t \<Rightarrow> real \<Rightarrow> (mds_rank_t \<times> real) list \<Rightarrow> balance_state_t \<Rightarrow> bool" where
  "bal_inv whoami target ml st \<longleftrightarrow>
     omap_ok (bs_targets st) \<and> omap_ok (bs_exported st) \<and> omap_ok (bs_imported st) \<and>
     (\<forall>r. 0 \<le> get0 (bs_exported st) r \<and> get0 (bs_exported st) r \<le> max 0 (get0 ml r - target)) \<and>
     (\<forall>r. 0 \<le> get0 (bs_imported st) r \<and> get0 (bs_imported st) r \<le> max 0 (target - get0 ml r)) \<and>
     total_of (bs_targets st) = get0 (bs_exported st) whoami \<and>
     total_of (bs_exported st) = total_of (bs_imported st)"

lemma total_of_omap_set:
  "omap_ok m \<Longrightarrow> total_of (omap_set k v m) = total_of m + v - get0 m k"
proof (induction k v m rule: omap_set.induct)
  case (2 k v a b m)
  have "k < a \<Longrightarrow> map_of m k = None"
    using "2.prems" by (force simp: omap_ok_Cons map_of_eq_None_iff)
  then show ?case
    using 2 by (auto simp: get0_def omap_ok_Cons split: option.splits)
qed simp

lemma bal_inv_empty: "bal_inv whoami target ml balance_state_empty"
  by (simp add: bal_inv_def balance_state_empty_def)

lemma try_match_inv:
  assumes inv: "bal_inv whoami target ml st"
    and maxes: "maxex = get_maxex target ml st ex" "maxim = get_maxim target ml st im"
    and res: "try_match whoami st ex maxex im maxim = (h, st', maxex', maxim')"
  shows "bal_inv whoami target ml st'" "maxex' = get_maxex target ml st' ex"
proof -
  have "bal_inv whoami target ml st' \<and> maxex' = get_maxex target ml st' ex"
  proof (cases "maxex \<le> 0 \<or> maxim \<le> 0")
    case True
    then show ?thesis using inv res maxes by (auto simp: try_match_def)
  next
    case False
    define q where "q = min maxex maxim"
    have q: "0 < q" "q \<le> maxex" "q \<le> maxim" using False by (auto simp: q_def)
    have st': "st' = st\<lparr>bs_targets := (if ex = whoami
          then omap_set im (get0 (bs_targets st) im + q) (bs_targets st) else bs_targets st),
        bs_exported := omap_set ex (get0 (bs_exported st) ex + q) (bs_exported st),
        bs_imported := omap_set im (get0 (bs_imported st) im + q) (bs_imported st)\<rparr>"
      and m': "maxex' = maxex - q"
      using res False q by (auto simp: try_match_def Let_def q_def split: if_splits)
    show ?thesis
      using inv q unfolding st' m'
      by (auto simp: bal_inv_def maxes get_maxex_def get_maxim_def total_of_omap_set max_def
          split: if_splits)
  qed
  then show "bal_inv whoami target ml st'" "maxex' = get_maxex target ml st' ex" by simp_all
qed

lemma match_imports_inv:
  "bal_inv whoami target ml st \<Longrightarrow> maxex = get_maxex target ml st ex \<Longrightarrow>
     bal_inv whoami target ml (match_imports whoami target ml ex maxex ims st)"
proof (induction whoami target ml ex maxex ims st rule: match_imports.induct)
  case (2 whoami target ml ex maxex im x ims st)
  obtain h st' maxex' maxim' where
    m: "try_match whoami st ex maxex im (get_maxim target ml st im) = (h, st', maxex', maxim')"
    by (metis prod_cases4)
  note inv' = try_match_inv [OF 2(3) 2(4) refl m]
  show ?case using 2 m inv' by (simp add: Let_def)
qed simp

lemma match_import_sources_inv:
  "bal_inv whoami target ml st \<Longrightarrow>
     bal_inv whoami target ml (match_import_sources whoami target ml imap exs st)"
  by (induction whoami target ml imap exs st rule: match_import_sources.induct)
    (auto simp: Let_def intro: match_imports_inv)

lemma match_pairs_inv:
  "bal_inv whoami target ml st \<Longrightarrow> bal_inv whoami target ml (match_pairs whoami target ml exs ims st)"
proof (induction whoami target ml exs ims st rule: match_pairs.induct)
  case (1 whoami target ml exs ims st)
  show ?case
  proof (cases "exs = [] \<or> ims = []")
    case True
    then show ?thesis using 1 by (subst match_pairs.simps) (auto split: list.splits)
  next
    case False
    then obtain a ex exs' b im ims' where e: "exs = (a, ex) # exs'" "ims = (b, im) # ims'"
      by (metis list.exhaust surj_pair)
    let ?mx = "get_maxex target ml st ex" and ?mi = "get_maxim target ml st im"
    obtain h st' mx' mi' where m: "try_match whoami st ex ?mx im ?mi = (h, st', mx', mi')"
      by (metis prod_cases4)
    note inv' = try_match_inv [OF 1(2) refl refl m]
    show ?thesis
    proof (cases "?mx < 1 / 1000 \<or> ?mi < 1 / 1000")
      case True
      then show ?thesis using 1 by (subst match_pairs.simps) (auto simp: e Let_def)
    next
      case go: False
      have "bal_inv whoami target ml (match_pairs whoami target ml
          (if mx' \<le> 1 / 1000 then exs' else exs) (if mi' \<le> 1 / 1000 then ims' else ims) st')"
        using 1(1) [OF refl e(1) refl e(2) refl refl refl go m [symmetric] refl refl inv'(1)] .
      then show ?thesis using go m by (subst match_pairs.simps) (simp add: e Let_def)
    qed
  qed
qed

section \<open>The loads prep\_rebalance works with\<close>

definition own_load :: "rank_view \<Rightarrow> real" where
  "own_load rv = calc_load rv (mds_load_new (rv_now rv)) False"

lemma calc_load_const: "calc_load rv l a = own_load rv"
  by (simp add: calc_mds_load_def own_load_def)

lemma load_factor_one: "load_factor rv b = 1"
  by (simp add: load_factor_def calc_mds_load_def split: option.split)

lemma cluster_loads_parts:
  assumes "cluster_loads rv 1 is (b, t, m) = (b', t', m')"
  shows "t' = t + real (length is) * own_load rv"
    and "set m' = set m \<union> (\<lambda>i. (own_load rv, i)) ` set is"
    and "rv_whoami rv \<in> set is \<or> b_my_load b = own_load rv \<Longrightarrow> b_my_load b' = own_load rv"
    and "i \<in> set is \<or> get0 (b_mds_meta_load b) i = own_load rv \<Longrightarrow> get0 (b_mds_meta_load b') i = own_load rv"
proof -
  have "t' = t + real (length is) * own_load rv \<and>
    set m' = set m \<union> (\<lambda>i. (own_load rv, i)) ` set is \<and>
    (rv_whoami rv \<in> set is \<or> b_my_load b = own_load rv \<longrightarrow> b_my_load b' = own_load rv) \<and>
    (\<forall>i. i \<in> set is \<or> get0 (b_mds_meta_load b) i = own_load rv
      \<longrightarrow> get0 (b_mds_meta_load b') i = own_load rv)"
    using assms
  proof (induction "is" arbitrary: b t m)
    case (Cons i "is")
    let ?b1 = "b\<lparr>b_mds_load := omap_insert i (mds_load_new (rv_now rv)) (b_mds_load b)\<rparr>"
    let ?b2 = "?b1\<lparr>b_mds_meta_load := omap_set i (own_load rv) (b_mds_meta_load ?b1),
      b_my_load := (if rv_whoami rv = i then own_load rv else b_my_load ?b1)\<rparr>"
    have "cluster_loads rv 1 is (?b2, t + own_load rv, mmap_insert (own_load rv) i m) = (b', t', m')"
      using Cons.prems by (simp add: Let_def calc_load_const)
    from Cons.IH [OF this] show ?case by (auto simp: algebra_simps)
  qed simp
  then show "t' = t + real (length is) * own_load rv"
    and "set m' = set m \<union> (\<lambda>i. (own_load rv, i)) ` set is"
    and "rv_whoami rv \<in> set is \<or> b_my_load b = own_load rv \<Longrightarrow> b_my_load b' = own_load rv"
    and "i \<in> set is \<or> get0 (b_mds_meta_load b) i = own_load rv \<Longrightarrow> get0 (b_mds_meta_load b') i = own_load rv"
    by blast+
qed

lemma match_import_sources_idle:
  "\<forall>(l, ex)\<in>set exs. get_maxex target ml st ex \<le> 1 / 1000 \<Longrightarrow>
     match_import_sources whoami target ml imap exs st = st"
  by (induction whoami target ml imap exs st rule: match_import_sources.induct) (auto simp: Let_def)

lemma match_pairs_no_importer: "match_pairs whoami target ml exs [] st = st"
  by (subst match_pairs.simps) (simp split: list.split)

section \<open>Properties\<close>

text \<open>
  C2: the matching of exporters and importers is safe, for all loads and all orders of the
  lists. No rank is asked to export below the target load or to import above it, amounts are
  never negative, what is exported in total equals what is imported in total, and the amounts
  this rank assigns to its targets add up to what it exports.
\<close>

theorem matching_safe:
  fixes imap exs exs' ims whoami target ml
  defines "st \<equiv> match_pairs whoami target ml exs' ims
    (match_import_sources whoami target ml imap exs balance_state_empty)"
  shows "0 \<le> get0 (bs_exported st) r \<and> get0 (bs_exported st) r \<le> max 0 (get0 ml r - target)
    \<and> 0 \<le> get0 (bs_imported st) r \<and> get0 (bs_imported st) r \<le> max 0 (target - get0 ml r)
    \<and> total_of (bs_exported st) = total_of (bs_imported st)
    \<and> total_of (bs_targets st) = get0 (bs_exported st) whoami"
proof -
  have "bal_inv whoami target ml st"
    unfolding st_def by (intro match_pairs_inv match_import_sources_inv bal_inv_empty)
  then show ?thesis by (simp add: bal_inv_def)
qed

text \<open>
  C32: the classic rebalancing path never moves load. \<^verbatim>\<open>calc_mds_load\<close> ignores the load it is given
  and sums the local subtrees, so every rank gets the same load; with \<^verbatim>\<open>mds_thrash_exports\<close> off, non-negative loads and a
  positive \<^verbatim>\<open>mds_bal_min_rebalance\<close>, \<^verbatim>\<open>prep_rebalance\<close> either returns early or passes on a state
  without any target.
\<close>

theorem prep_rebalance_inert:
  assumes "\<not> mds_thrash_exports cf" "0 < mds_bal_min_rebalance cf"
    and "\<forall>d\<in>set (rv_fullauth rv). 0 \<le> sv_load d"
    and "0 \<le> rv_whoami rv" "rv_whoami rv < int (rv_num_in_mds rv)"
    and "prep_rebalance cf rv beat b = (b', acts, r)"
  shows "r = None \<or> r = Some balance_state_empty"
proof -
  let ?is = "map int [0..<rv_num_in_mds rv]" and ?L = "own_load rv" and ?n = "rv_num_in_mds rv"
  obtain b1 t m where c: "cluster_loads rv 1 ?is (b\<lparr>b_rebalance_time := rv_now rv\<rparr>, 0, []) = (b1, t, m)"
    by (metis prod_cases3)
  have whoami: "rv_whoami rv \<in> set ?is"
    using assms(4,5) by (auto simp: image_iff intro: bexI [of _ "nat (rv_whoami rv)"])
  have n: "0 < real ?n" using assms(4,5) by simp
  have L0: "0 \<le> ?L"
    using assms(3) by (auto simp: calc_mds_load_def own_load_def intro!: sum_list_nonneg)
  note parts = cluster_loads_parts [OF c]
  have t: "t / real ?n = ?L" using parts(1) n by simp
  have my: "b_my_load b1 = ?L" using parts(3) whoami by simp
  have ml: "get0 (b_mds_meta_load b1) ex = ?L" if "(l, ex) \<in> set m" for l ex
    using parts(2,4) that by auto
  have lm: "l = ?L" if "(l, ex) \<in> set m" for l ex
    using parts(2) that by auto
  show ?thesis
  proof (cases "?L = 0")
    case False
    then have "?L < ?L * (1 + mds_bal_min_rebalance cf)"
      using L0 assms(2) by simp
    then show ?thesis
      using assms(1,6) by (auto simp: prep_rebalance_def load_factor_one c t my Let_def simp del: times_divide_eq_left)
  next
    case L: True
    have noimp: "filter (\<lambda>(l, _). l < 0) m = []"
      using lm L by (auto simp: filter_empty_conv)
    have idle: "match_import_sources whoami 0 (b_mds_meta_load b1) imap exs balance_state_empty
        = balance_state_empty" if "set exs \<subseteq> set m" for whoami imap exs
      using that ml L
      by (intro match_import_sources_idle) (auto simp: get_maxex_def balance_state_empty_def)
    show ?thesis
      using assms(1,6) L t
      by (auto simp: prep_rebalance_def load_factor_one c my noimp match_pairs_no_importer idle Let_def
          split: if_splits simp del: times_divide_eq_left)
  qed
qed

definition sample_subtree :: subtree_view where
  "sample_subtree = \<lparr>sv_freezing = False, sv_frozen = False, sv_stray = False, sv_load = 0\<rparr>"

definition sample_rank_view :: rank_view where
  "sample_rank_view = \<lparr>rv_whoami = 0, rv_num_in_mds = 2, rv_up = [0, 1], rv_now = utime_zero,
     rv_has_root = True, rv_fullauth = [sample_subtree]\<rparr>"

definition sample_balancer :: balancer where
  "sample_balancer = \<lparr>b_beat_epoch = 1, b_last_epoch_under = 0, b_mds_load = [], b_mds_meta_load = [],
     b_mds_import_map = [], b_my_load = 0, b_target_load = 0, b_rebalance_time = utime_zero,
     b_old_req = [], b_last_heartbeat = utime_zero, b_last_sample = utime_zero,
     b_split_pending = {}, b_merge_pending = {}, b_bal_code = [], b_bal_version = []\<rparr>"

theorem prep_rebalance_inert_witness:
  "snd (snd (prep_rebalance \<lparr>mds_thrash_exports = False, mds_bal_min_rebalance = 1 / 10\<rparr>
     sample_rank_view 1 sample_balancer)) = Some balance_state_empty"
proof -
  let ?cf = "\<lparr>mds_thrash_exports = False, mds_bal_min_rebalance = 1 / 10\<rparr>"
  obtain b' acts r where p: "prep_rebalance ?cf sample_rank_view 1 sample_balancer = (b', acts, r)"
    by (metis prod_cases3)
  have "r = None \<or> r = Some balance_state_empty"
    by (rule prep_rebalance_inert [OF _ _ _ _ _ p])
      (simp_all add: sample_rank_view_def sample_subtree_def)
  moreover have "r \<noteq> None"
    using p by (auto simp: prep_rebalance_def load_factor_one sample_rank_view_def sample_balancer_def
        sample_subtree_def calc_mds_load_def upt_rec Let_def)
  ultimately show ?thesis using p by simp
qed

end
