(* ===== verification/Req_Trace.thy ===== *)
theory Req_Trace
  imports Ceph_Prelude "HOL-Library.Char_ord" "HOL-Library.List_Lexorder" "HOL-Library.Sublist"
begin

text \<open>
  Paths and request traces of Lunule: the workload matcher (\<^verbatim>\<open>src/mds/adsl/PathUtil.cc\<close>) and the
  request tracer (\<^verbatim>\<open>src/mds/adsl/ReqTracer.cc\<close>). A \<^verbatim>\<open>std::string\<close> is a list of characters, a
  \<^verbatim>\<open>map<string, ...>\<close> an ordered map with the lexicographic key order that its iterators follow.
\<close>

section \<open>Strings\<close>

text \<open>\<^verbatim>\<open>s.find(pat)\<close>: the position of the first occurrence, \<open>None\<close> for \<^verbatim>\<open>npos\<close>.\<close>

fun str_find :: "string \<Rightarrow> string \<Rightarrow> nat option" where
  "str_find pat [] = (if pat = [] then Some 0 else None)"
| "str_find pat (c # cs) =
     (if take (length pat) (c # cs) = pat then Some 0 else map_option Suc (str_find pat cs))"

text \<open>\<^verbatim>\<open>s.find(ch, pos)\<close> for one character.\<close>

definition str_find_char_from :: "char \<Rightarrow> nat \<Rightarrow> string \<Rightarrow> nat option" where
  "str_find_char_from ch pos s = map_option (\<lambda>k. k + pos) (str_find [ch] (drop pos s))"

section \<open>The workload matcher\<close>

datatype workload_type = WLT_SCAN | WLT_ZIPF | WLT_MIXED | WLT_ROOT

type_synonym wl_matcher = "(string \<times> string) list"

definition wl_insert :: "string \<Rightarrow> string \<Rightarrow> wl_matcher \<Rightarrow> wl_matcher" where
  "wl_insert key val m = omap_insert key val m"

definition WL_Matcher :: wl_matcher where
  "WL_Matcher =
     wl_insert ''test'' ''/test'' (wl_insert ''fb-zipfian'' ''/filebench/fb_zipfian/''
     (wl_insert ''fb-stat'' ''/filebench/fb_stat'' (wl_insert ''fb-lsdir'' ''/filebench/fb_lsdir''
     (wl_insert ''fb-create'' ''/filebench/fb_create'' (wl_insert ''web'' ''/web''
     (wl_insert ''ycsb-zipfian'' ''/ycsbzipf'' (wl_insert ''tar_4'' ''/tar_4/''
     (wl_insert ''tar_3'' ''/tar_3/'' (wl_insert ''tar_2'' ''/tar_2/'' (wl_insert ''tar_1'' ''/tar_1/''
     (wl_insert ''tar_0'' ''/tar_0/'' (wl_insert ''tar'' ''/tar/'' (wl_insert ''ai'' ''/ai'' [])))))))))))))"

fun wl_scan :: "wl_matcher \<Rightarrow> string \<Rightarrow> string" where
  "wl_scan [] path = ''other''"
| "wl_scan ((k, pat) # ps) path = (if str_find pat path \<noteq> None then k else wl_scan ps path)"

definition wl_match :: "wl_matcher \<Rightarrow> string \<Rightarrow> string" where
  "wl_match patterns path = (if path = [] then ''root'' else wl_scan patterns path)"

fun req2workload_loop :: "(string \<times> int) list \<Rightarrow> (string \<times> int) list \<Rightarrow> (string \<times> int) list" where
  "req2workload_loop [] cnt_map = cnt_map"
| "req2workload_loop ((path, n) # reqs) cnt_map =
     (let workload = wl_match WL_Matcher path in
      req2workload_loop reqs
        (case map_of cnt_map workload of
           Some c \<Rightarrow> omap_set workload (c + n) cnt_map
         | None \<Rightarrow> omap_insert workload n cnt_map))"

definition req2workload :: "(string \<times> int) list \<Rightarrow> (string \<times> int) list" where
  "req2workload reqs = req2workload_loop reqs []"

definition workload2type :: "string \<Rightarrow> workload_type" where
  "workload2type t =
     (if t \<in> {''ai'', ''tar'', ''tar_0'', ''tar_1'', ''tar_2'', ''tar_3'', ''tar_4'', ''fb-lsdir'', ''fb-stat''}
      then WLT_SCAN
      else if t \<in> {''web'', ''test'', ''ycsb-zipfian'', ''fb-zipfian'', ''fb-create''} then WLT_ZIPF
      else if t = ''root'' then WLT_ROOT
      else WLT_MIXED)"

section \<open>The request tracer\<close>

text \<open>
  \<^verbatim>\<open>polish\<close> strips trailing slashes. It calls \<^verbatim>\<open>path.back()\<close> before it tests for emptiness, which is
  undefined for an empty string: the model returns \<open>None\<close> there.
\<close>

function polish :: "string \<Rightarrow> string option" where
  "polish path =
     (if path = [] then None
      else if last path = CHR ''/'' then polish (butlast path)
      else Some path)"
  by pat_completeness auto
termination
  by (relation "measure length") auto

declare polish.simps [simp del]

definition check_path_under :: "string \<Rightarrow> string \<Rightarrow> bool \<Rightarrow> bool" where
  "check_path_under parent child direct =
     (if parent = child then True
      else
        (case str_find (if parent \<noteq> ''/'' then parent @ ''/'' else parent) child of
           Some 0 \<Rightarrow>
             (if direct then str_find_char_from CHR ''/'' (length parent + 1) child = None else True)
         | _ \<Rightarrow> False))"

type_synonym req_collector = "(string \<times> int) list"

definition coll_hit :: "string \<Rightarrow> req_collector \<Rightarrow> req_collector option" where
  "coll_hit path coll = do {
     p \<leftarrow> polish path;
     Some (case map_of coll p of
             Some n \<Rightarrow> omap_set p (n + 1) coll
           | None \<Rightarrow> omap_insert p 1 coll)
   }"

definition coll_has :: "string \<Rightarrow> bool \<Rightarrow> req_collector \<Rightarrow> bool option" where
  "coll_has path nested coll = do {
     p \<leftarrow> polish path;
     Some (if \<not> nested then map_of coll p \<noteq> None
           else list_ex (\<lambda>e. check_path_under p (fst e) False) coll)
   }"

definition coll_get :: "string \<Rightarrow> bool \<Rightarrow> req_collector \<Rightarrow> int option" where
  "coll_get path nested coll = do {
     p \<leftarrow> polish path;
     Some (if \<not> nested then (case map_of coll p of Some n \<Rightarrow> n | None \<Rightarrow> 0)
           else sum_list (map snd (filter (\<lambda>e. check_path_under p (fst e) False) coll)))
   }"

definition coll_size :: "req_collector \<Rightarrow> int" where
  "coll_size coll = int (length coll)"

definition coll_total :: "req_collector \<Rightarrow> int" where
  "coll_total coll = sum_list (map snd coll)"

record req_tracer =
  rt_data :: "req_collector list"
  rt_last :: req_collector

definition ReqTracer :: "nat \<Rightarrow> req_tracer" where
  "ReqTracer queue_len = \<lparr>rt_data = replicate queue_len [], rt_last = []\<rparr>"

fun visited_loop :: "string \<Rightarrow> bool \<Rightarrow> req_collector list \<Rightarrow> bool option" where
  "visited_loop path nested [] = Some False"
| "visited_loop path nested (c # cs) =
     do { b \<leftarrow> coll_has path nested c; if b then Some True else visited_loop path nested cs }"

text \<open>All collectors but the last; decrementing the end of an empty list is undefined.\<close>

definition rt_visited :: "string \<Rightarrow> bool \<Rightarrow> req_tracer \<Rightarrow> bool option" where
  "rt_visited path nested t =
     (if rt_data t = [] then None else visited_loop path nested (butlast (rt_data t)))"

fun visited_count_loop :: "string \<Rightarrow> bool \<Rightarrow> req_collector list \<Rightarrow> int option" where
  "visited_count_loop path nested [] = Some 0"
| "visited_count_loop path nested (c # cs) =
     do { n \<leftarrow> coll_get path nested c; m \<leftarrow> visited_count_loop path nested cs; Some (n + m) }"

definition rt_visited_count :: "string \<Rightarrow> bool \<Rightarrow> req_tracer \<Rightarrow> int option" where
  "rt_visited_count path nested t = visited_count_loop path nested (rt_data t)"

definition rt_switch_epoch :: "req_tracer \<Rightarrow> req_tracer option" where
  "rt_switch_epoch t = do {
     assert_that (length (rt_data t) > 0);
     Some (t\<lparr>rt_data := tl (rt_data t) @ [rt_last t], rt_last := []\<rparr>)
   }"

definition rt_hit :: "string \<Rightarrow> req_tracer \<Rightarrow> req_tracer option" where
  "rt_hit path t = do { c \<leftarrow> coll_hit path (rt_last t); Some (t\<lparr>rt_last := c\<rparr>) }"

text \<open>The loop of \<^verbatim>\<open>alpha_beta\<close>: old hits, new hits, number of old paths and those paths.\<close>

fun alpha_beta_loop ::
  "string \<Rightarrow> req_tracer \<Rightarrow> req_collector \<Rightarrow> (int \<times> int \<times> int \<times> string list) option" where
  "alpha_beta_loop path t [] = Some (0, 0, 0, [])"
| "alpha_beta_loop path t ((fullpath, n) # es) =
     (if \<not> check_path_under path fullpath False then alpha_beta_loop path t es
      else do {
        v \<leftarrow> rt_visited fullpath True t;
        (oldcnt, newcnt, betacnt, strs) \<leftarrow> alpha_beta_loop path t es;
        Some (if v then (n + oldcnt, newcnt, betacnt + 1, fullpath # strs)
              else (oldcnt, n + newcnt, betacnt, strs))
      })"

definition rt_alpha_beta ::
  "string \<Rightarrow> int \<Rightarrow> req_tracer \<Rightarrow> ((real \<times> real) \<times> string list) option" where
  "rt_alpha_beta path subtree_size t =
     (if rt_data t = [] then None
      else do {
        (oldcnt, newcnt, betacnt, strs) \<leftarrow> alpha_beta_loop path t (last (rt_data t));
        let total = oldcnt + newcnt;
        let alpha = (if total \<noteq> 0 then real_of_int oldcnt / real_of_int (oldcnt + newcnt) else 0);
        let beta = (if subtree_size \<noteq> 0
                    then real_of_int (subtree_size - betacnt) / real_of_int subtree_size else 0);
        Some ((alpha, beta), strs)
      })"

section \<open>String search\<close>

lemma take_eq_prefix: "take (length p) s = p \<longleftrightarrow> prefix p s"
  by (metis append_eq_conv_conj append_take_drop_id prefix_def)

lemma str_find_0_iff [simp]: "str_find pat s = Some 0 \<longleftrightarrow> prefix pat s"
  by (cases s) (auto simp: take_eq_prefix)

lemma str_find_None_iff: "str_find pat s = None \<longleftrightarrow> \<not> sublist pat s"
  by (induction s) (auto simp: take_eq_prefix sublist_Cons_right)

lemma str_find_char_from_None:
  "str_find_char_from ch pos s = None \<longleftrightarrow> ch \<notin> set (drop pos s)"
proof -
  have "sublist [ch] xs \<longleftrightarrow> ch \<in> set xs" for xs :: string
    by (metis append_Cons append_Nil in_set_conv_decomp sublist_def)
  then show ?thesis by (simp add: str_find_char_from_def str_find_None_iff)
qed

lemma check_path_under_eq:
  "check_path_under parent child direct \<longleftrightarrow>
     parent = child \<or>
     (prefix (if parent = ''/'' then parent else parent @ ''/'') child \<and>
      (direct \<longrightarrow> CHR ''/'' \<notin> set (drop (length parent + 1) child)))"
proof -
  have "(case str_find pat child of Some 0 \<Rightarrow> b | _ \<Rightarrow> False) \<longleftrightarrow> prefix pat child \<and> b" for pat b
    by (cases "str_find pat child") (auto split: nat.splits simp flip: str_find_0_iff)
  then show ?thesis
    by (auto simp: check_path_under_def str_find_char_from_None)
qed

lemma polish_idem: "polish p = Some q \<Longrightarrow> polish q = Some q"
proof (induction p rule: polish.induct)
  case (1 path)
  then show ?case
    by (cases "path = []"; cases "last path = CHR ''/''")
      (simp_all add: polish.simps [of path] polish.simps [of "[]"])
qed

section \<open>Paths as lists of components\<close>

abbreviation slashed :: "string list \<Rightarrow> string" where
  "slashed cs \<equiv> concat (map (\<lambda>c. CHR ''/'' # c) cs)"

definition path_of :: "string list \<Rightarrow> string" where
  "path_of cs = (if cs = [] then ''/'' else slashed cs)"

definition good_components :: "string list \<Rightarrow> bool" where
  "good_components cs \<longleftrightarrow> (\<forall>c\<in>set cs. c \<noteq> [] \<and> CHR ''/'' \<notin> set c)"

lemma good_components_Cons [simp]:
  "good_components (c # cs) \<longleftrightarrow> c \<noteq> [] \<and> CHR ''/'' \<notin> set c \<and> good_components cs"
  by (auto simp: good_components_def)

lemma slashed_cases: "slashed cs = [] \<or> hd (slashed cs) = CHR ''/''"
  by (cases cs) auto

lemma prefix_component:
  assumes "CHR ''/'' \<notin> set a" "CHR ''/'' \<notin> set b" "y = [] \<or> hd y = CHR ''/''"
  shows "prefix (a @ CHR ''/'' # x) (b @ y) \<longleftrightarrow> a = b \<and> prefix (CHR ''/'' # x) y"
  using assms
proof (induction a arbitrary: b)
  case Nil
  then show ?case by (cases b) auto
next
  case (Cons c a)
  then show ?case by (cases b; cases y) auto
qed

lemma append_component:
  assumes "CHR ''/'' \<notin> set a" "CHR ''/'' \<notin> set b" "x = [] \<or> hd x = CHR ''/''" "y = [] \<or> hd y = CHR ''/''"
  shows "a @ x = b @ y \<longleftrightarrow> a = b \<and> x = y"
  using assms
proof (induction a arbitrary: b)
  case Nil
  then show ?case by (cases b; cases x) auto
next
  case (Cons c a)
  then show ?case by (cases b; cases y) auto
qed

lemma slashed_eq_iff:
  "good_components as \<Longrightarrow> good_components bs \<Longrightarrow> slashed as = slashed bs \<longleftrightarrow> as = bs"
proof (induction as arbitrary: bs)
  case Nil
  then show ?case by (cases bs) auto
next
  case (Cons a as)
  then show ?case
    using slashed_cases by (cases bs) (auto simp: append_component)
qed

lemma path_of_eq_iff:
  assumes "good_components as" "good_components bs"
  shows "path_of as = path_of bs \<longleftrightarrow> as = bs"
proof -
  have "slashed cs \<noteq> ''/''" if "good_components cs" for cs
    using that by (cases cs) auto
  then show ?thesis
    using slashed_eq_iff [OF assms] assms unfolding path_of_def by metis
qed

lemma prefix_slashed_iff:
  "good_components as \<Longrightarrow> good_components bs \<Longrightarrow>
     prefix (slashed as @ ''/'') (slashed bs) \<longleftrightarrow> strict_prefix as bs"
proof (induction as arbitrary: bs)
  case Nil
  then show ?case by (cases bs) auto
next
  case (Cons a as)
  show ?case
  proof (cases bs)
    case Nil
    then show ?thesis by simp
  next
    case (Cons b bs')
    obtain x where x: "slashed as @ ''/'' = CHR ''/'' # x"
      by (cases as) auto
    have "prefix (slashed (a # as) @ ''/'') (slashed bs) \<longleftrightarrow> prefix (a @ CHR ''/'' # x) (b @ slashed bs')"
      using Cons x by simp
    also have "\<dots> \<longleftrightarrow> a = b \<and> prefix (slashed as @ ''/'') (slashed bs')"
      unfolding x using Cons Cons.prems slashed_cases by (intro prefix_component) auto
    also have "\<dots> \<longleftrightarrow> strict_prefix (a # as) bs"
      using Cons Cons.prems Cons.IH by auto
    finally show ?thesis .
  qed
qed

lemma slash_in_rest:
  assumes "good_components (as @ c # cs)"
  shows "CHR ''/'' \<in> set (drop (length (path_of as) + 1) (slashed (as @ c # cs))) \<longleftrightarrow> cs \<noteq> []"
proof -
  have c: "c \<noteq> []" "CHR ''/'' \<notin> set c" using assms by (simp_all add: good_components_def)
  then have "CHR ''/'' \<notin> set (tl c)" by (cases c) auto
  then show ?thesis
    using c by (cases cs; cases "as = []"; cases c) (auto simp: path_of_def)
qed

section \<open>Properties\<close>

text \<open>
  \<^verbatim>\<open>ReqTracer::check_path_under\<close> decides the directory relation. For absolute paths made of
  non-empty components without slashes it holds iff the components of \<open>parent\<close> are a prefix
  of those of \<open>child\<close>; with \<^verbatim>\<open>direct\<close> set, iff \<open>child\<close> has at most one component more.
\<close>

lemma check_path_under_components:
  assumes "good_components as" "good_components bs"
  shows "check_path_under (path_of as) (path_of bs) direct \<longleftrightarrow>
    prefix as bs \<and> (direct \<longrightarrow> length bs \<le> length as + 1)"
proof -
  have pat: "(if path_of as = ''/'' then path_of as else path_of as @ ''/'') = slashed as @ ''/''"
    using assms(1) by (cases as) (auto simp: path_of_def)
  have bs0: "prefix (slashed as @ ''/'') ''/'' \<longleftrightarrow> as = []"
    using assms(1) by (cases as) auto
  show ?thesis
  proof (cases "as = bs")
    case True
    then show ?thesis by (simp add: check_path_under_eq)
  next
    case ne: False
    have neq: "path_of as \<noteq> path_of bs" using ne path_of_eq_iff [OF assms] by simp
    show ?thesis
    proof (cases "strict_prefix as bs")
      case True
      then obtain c cs where bs: "bs = as @ c # cs"
        by (rule strict_prefixE')
      then show ?thesis
        using neq pat True prefix_slashed_iff [OF assms] slash_in_rest [of as c cs] assms(2)
        by (auto simp: check_path_under_eq path_of_def)
    next
      case False
      then have "\<not> prefix (slashed as @ ''/'') (path_of bs)"
        using bs0 ne prefix_slashed_iff [OF assms] by (auto simp: path_of_def)
      then show ?thesis
        using False ne neq pat by (simp add: check_path_under_eq strict_prefix_def)
    qed
  qed
qed

lemma wl_scan_range: "wl_scan ps path \<in> insert ''other'' (fst ` set ps)"
  by (induction ps path rule: wl_scan.induct) auto

lemma fst_set_wl_insert [simp]: "fst ` set (wl_insert k v m) = insert k (fst ` set m)"
  by (force simp: wl_insert_def omap_insert_def split: option.split dest: map_of_SomeD)

text \<open>
  The matcher classifies a path as the root workload exactly when the path is empty, so the
  root branch of \<^verbatim>\<open>find_exports_wrapper\<close> is taken for the root directory only.
\<close>

lemma root_workload_iff:
  "workload2type (wl_match WL_Matcher path) = WLT_ROOT \<longleftrightarrow> path = []"
proof -
  have "wl_match WL_Matcher path \<noteq> ''root''" if "path \<noteq> []"
    using wl_scan_range [of WL_Matcher path] that
    by (auto simp: wl_match_def WL_Matcher_def)
  then show ?thesis
    by (auto simp: workload2type_def wl_match_def)
qed

end
