(* ===== verification/Balancer_Export.thy ===== *)
theory Balancer_Export
  imports Balancer_Match Req_Trace "HOL-Library.Multiset"
begin

text \<open>
  The choice of directory fragments to export, \<^verbatim>\<open>find_exports\<close>, \<^verbatim>\<open>find_exports_wrapper\<close>,
  \<^verbatim>\<open>simple_determine_rebalance\<close> and \<^verbatim>\<open>try_rebalance\<close> of \<^verbatim>\<open>src/mds/MDBalancer.cc\<close>. The cache is seen as trees of
  directory fragments: a fragment has a number that stands for its address, the values the
  balancer reads of it, and the fragments of the directories linked from it, in the order in which
  the code visits them.
\<close>

section \<open>The view of the cache\<close>

record dir_info =
  di_load :: real
  di_auth :: bool
  di_frozen :: bool
  di_freezing :: bool
  di_stray :: bool
  di_rep :: bool
  di_ino :: nat
  di_frag_value :: nat
  di_frag_bits :: nat

datatype dview = DView (dv_id: nat) (dv_info: dir_info) (dv_subdirs: "dview list")

abbreviation dv_load :: "dview \<Rightarrow> real" where
  "dv_load d \<equiv> di_load (dv_info d)"

fun dcount :: "dview \<Rightarrow> nat" where
  "dcount (DView i info ds) = Suc (sum_list (map dcount ds))"

text \<open>All fragments strictly below one.\<close>

fun below :: "dview \<Rightarrow> dview list" where
  "below (DView i info ds) = concat (map (\<lambda>d. d # below d) ds)"

section \<open>find\_exports\<close>

record export_conf =
  mds_bal_min_start :: real
  mds_bal_need_min :: real
  mds_bal_need_max :: real
  mds_bal_midchunk :: real
  mds_bal_frag :: int
  mds_bal_idle_threshold :: real

text \<open>The reference parameters of the search: the exports so far, their load, and the fragments in use.\<close>

record fe_state =
  fe_exports :: "dview list"
  fe_have :: real
  fe_already :: "nat set"

definition fe_take :: "dview \<Rightarrow> real \<Rightarrow> fe_state \<Rightarrow> fe_state" where
  "fe_take d pop s =
     s\<lparr>fe_exports := fe_exports s @ [d], fe_already := insert (dv_id d) (fe_already s), fe_have := fe_have s + pop\<rparr>"

text \<open>
  What the scan does with one subdirectory: skip it, return with it (the lucky find), or put it into
  \<^verbatim>\<open>bigger_rep\<close>, \<^verbatim>\<open>bigger_unrep\<close> or \<^verbatim>\<open>smaller\<close>. \<open>hash\<close> stands for \<^verbatim>\<open>std::hash<unsigned>\<close>, \<open>n\<close> for the size of the
  cluster; the second component is the new \<^verbatim>\<open>skip_pos\<close>.
\<close>

datatype fe_class = FE_skip | FE_lucky | FE_bigger_rep | FE_bigger_unrep | FE_smaller

definition fe_frag_dest :: "(nat \<Rightarrow> nat) \<Rightarrow> nat \<Rightarrow> dir_info \<Rightarrow> nat" where
  "fe_frag_dest hash n info =
     (let frag_num = di_frag_value info div 2 ^ (24 - di_frag_bits info)
      in hash ((di_ino info + frag_num) mod 2 ^ 32) mod n)"

definition fe_classify ::
  "(nat \<Rightarrow> nat) \<Rightarrow> nat \<Rightarrow> export_conf \<Rightarrow> mds_rank_t \<Rightarrow> real \<Rightarrow> nat set \<Rightarrow> nat \<Rightarrow> dview \<Rightarrow> fe_class \<times> nat" where
  "fe_classify hash n cf target need already skip_pos d =
     (let info = dv_info d; pop = di_load info in
      if \<not> di_auth info then (FE_skip, skip_pos)
      else if dv_id d \<in> already then (FE_skip, skip_pos)
      else if di_frozen info \<or> di_freezing info \<or> di_stray info then (FE_skip, skip_pos)
      else if pop < 1 / 2 then (FE_skip, skip_pos)
      else if pop > need * mds_bal_need_min cf \<and> pop < need * mds_bal_need_max cf then (FE_lucky, skip_pos)
      else if pop > need then (if di_rep info then FE_bigger_rep else FE_bigger_unrep, skip_pos)
      else if mds_bal_frag cf = 0 then
        (if int (fe_frag_dest hash n info) = target then (FE_smaller, 0)
         else if skip_pos + 1 \<ge> n + 1 then (FE_smaller, 0)
         else (FE_skip, skip_pos + 1))
      else (FE_smaller, skip_pos))"

text \<open>The scan: \<open>Inl\<close> is the lucky find, \<open>Inr\<close> the lists \<^verbatim>\<open>bigger_rep\<close>, \<^verbatim>\<open>bigger_unrep\<close> and the multimap \<^verbatim>\<open>smaller\<close>.\<close>

fun fe_scan ::
  "(nat \<Rightarrow> nat) \<Rightarrow> nat \<Rightarrow> export_conf \<Rightarrow> mds_rank_t \<Rightarrow> real \<Rightarrow> nat set \<Rightarrow> nat \<Rightarrow> dview list
    \<Rightarrow> dview list \<Rightarrow> dview list \<Rightarrow> (real \<times> dview) list
    \<Rightarrow> dview + (dview list \<times> dview list \<times> (real \<times> dview) list)" where
  "fe_scan hash n cf target need already skip_pos [] rep unrep smaller = Inr (rep, unrep, smaller)"
| "fe_scan hash n cf target need already skip_pos (d # ds) rep unrep smaller =
     (case fe_classify hash n cf target need already skip_pos d of
        (FE_skip, sk) \<Rightarrow> fe_scan hash n cf target need already sk ds rep unrep smaller
      | (FE_lucky, sk) \<Rightarrow> Inl d
      | (FE_bigger_rep, sk) \<Rightarrow> fe_scan hash n cf target need already sk ds (rep @ [d]) unrep smaller
      | (FE_bigger_unrep, sk) \<Rightarrow> fe_scan hash n cf target need already sk ds rep (unrep @ [d]) smaller
      | (FE_smaller, sk) \<Rightarrow>
          fe_scan hash n cf target need already sk ds rep unrep (mmap_insert (dv_load d) d smaller))"

text \<open>Taking the remaining small items, the biggest first, until there is enough.\<close>

fun fe_take_smaller :: "real \<Rightarrow> (real \<times> dview) list \<Rightarrow> fe_state \<Rightarrow> fe_state \<times> bool" where
  "fe_take_smaller need [] s = (s, False)"
| "fe_take_smaller need ((pop, d) # ps) s =
     (let s' = fe_take d pop s in
      if fe_have s' > need then (s', True) else fe_take_smaller need ps s')"

lemma mset_mmap_insert [simp]: "mset (mmap_insert k v m) = add_mset (k, v) (mset m)"
  by (induction k v m rule: mmap_insert.induct) auto

lemma mset_sub_add_mset: "A \<subseteq># B \<Longrightarrow> A \<subseteq># add_mset x B"
  by (auto simp: subseteq_mset_def intro: le_SucI)

lemma mset_sub_parts: "A + B + C \<subseteq># D \<Longrightarrow> A \<subseteq># D \<and> B \<subseteq># D \<and> C \<subseteq># D"
  by (simp add: subseteq_mset_def) (meson add_leD1 add_leD2)

lemma distinct_mset_sub: "distinct (map f ys) \<Longrightarrow> mset xs \<subseteq># mset ys \<Longrightarrow> distinct (map f xs)"
proof -
  assume d: "distinct (map f ys)" and sub: "mset xs \<subseteq># mset ys"
  have "count (mset (map f xs)) a \<le> count (mset (map f ys)) a" for a
    using image_mset_subseteq_mono [OF sub, of f] by (simp add: subseteq_mset_def)
  moreover have "count (mset (map f ys)) a \<le> 1" for a
    using d unfolding distinct_count_atmost_1 by simp
  ultimately have "count (mset (map f xs)) a \<le> 1" for a using le_trans by blast
  moreover have "a \<in> set (map f xs) \<Longrightarrow> 0 < count (mset (map f xs)) a" for a
    by (simp only: set_mset_mset [symmetric] count_greater_zero_iff)
  ultimately show ?thesis unfolding distinct_count_atmost_1
    by (metis (no_types) One_nat_def Suc_leI antisym not_gr_zero count_greater_zero_iff set_mset_mset)
qed

lemma mset_sub_sum_list:
  fixes f :: "'a \<Rightarrow> nat"
  assumes "mset xs \<subseteq># mset ys"
  shows "sum_list (map f xs) \<le> sum_list (map f ys)"
proof -
  obtain C where "mset ys = mset xs + C" using assms by (auto simp: subset_mset.le_iff_add)
  then have "sum_mset (image_mset f (mset ys)) = sum_mset (image_mset f (mset xs)) + sum_mset (image_mset f C)"
    by simp
  then show ?thesis by (simp flip: mset_map add: sum_mset_sum_list)
qed

text \<open>What a fragment must satisfy to be exported.\<close>

definition exportable :: "nat set \<Rightarrow> dview \<Rightarrow> bool" where
  "exportable already d \<longleftrightarrow>
     di_auth (dv_info d) \<and> \<not> di_frozen (dv_info d) \<and> \<not> di_freezing (dv_info d) \<and> \<not> di_stray (dv_info d)
     \<and> 1 / 2 \<le> dv_load d \<and> dv_id d \<notin> already"

lemma fe_classify_exportable:
  "fe_classify hash n cf target need already skip d = (c, sk) \<Longrightarrow> c \<noteq> FE_skip \<Longrightarrow> exportable already d"
  by (auto simp: fe_classify_def exportable_def Let_def split: if_splits)

lemma fe_scan_Inl:
  "fe_scan hash n cf target need already skip ds rep unrep smaller = Inl e \<Longrightarrow>
     e \<in> set ds \<and> exportable already e"
  by (induction ds arbitrary: skip rep unrep smaller)
    (auto split: fe_class.splits prod.splits dest: fe_classify_exportable)

lemma fe_scan_Inr:
  "fe_scan hash n cf target need already skip ds rep unrep smaller = Inr (rep', unrep', smaller') \<Longrightarrow>
     mset rep' + mset unrep' + mset (map snd smaller')
       \<subseteq># mset rep + mset unrep + mset (map snd smaller) + mset ds
     \<and> (\<forall>(p, d)\<in>set smaller' - set smaller. p = dv_load d \<and> exportable already d)"
proof (induction ds arbitrary: skip rep unrep smaller)
  case (Cons d ds)
  obtain c sk where c: "fe_classify hash n cf target need already skip d = (c, sk)" by fastforce
  show ?case
  proof (cases c)
    case FE_skip
    then show ?thesis
      using Cons.IH [of sk rep unrep smaller] Cons.prems c by (auto simp: mset_sub_add_mset)
  next
    case FE_smaller
    then show ?thesis
      using Cons.IH [of sk rep unrep "mmap_insert (dv_load d) d smaller"] Cons.prems c
        fe_classify_exportable [OF c] by auto
  next
    case FE_lucky
    then show ?thesis using Cons.prems c by simp
  next
    case FE_bigger_rep
    then show ?thesis using Cons.IH [of sk "rep @ [d]" unrep smaller] Cons.prems c by simp
  next
    case FE_bigger_unrep
    then show ?thesis using Cons.IH [of sk rep "unrep @ [d]" smaller] Cons.prems c by simp
  qed
qed simp

lemma dcount_subdirs: "dcount d = Suc (sum_list (map dcount (dv_subdirs d)))"
  by (cases d) simp

lemma fe_scan_count:
  assumes "fe_scan hash n cf target need already skip (dv_subdirs d) [] [] [] = Inr (rep, unrep, smaller)"
  shows "sum_list (map dcount rep) < dcount d \<and> sum_list (map dcount unrep) < dcount d"
proof -
  have "mset rep + mset unrep + mset (map snd smaller) \<subseteq># mset (dv_subdirs d)"
    using fe_scan_Inr [OF assms] by simp
  then show ?thesis
    unfolding dcount_subdirs [of d] less_Suc_eq_le using mset_sub_parts mset_sub_sum_list by blast
qed

text \<open>
  \<^verbatim>\<open>find_exports\<close> and the two loops in which it calls itself. The recursive calls leave the parameter
  \<^verbatim>\<open>target\<close> at its default 0. The loop that takes a sufficiently big small item returns after the first
  one, because the \<^verbatim>\<open>if\<close> in front of its \<^verbatim>\<open>return\<close> is commented out.
\<close>

function (sequential) find_exports ::
    "(nat \<Rightarrow> nat) \<Rightarrow> nat \<Rightarrow> export_conf \<Rightarrow> mds_rank_t \<Rightarrow> real \<Rightarrow> dview \<Rightarrow> fe_state \<Rightarrow> fe_state"
  and fe_descend ::
    "(nat \<Rightarrow> nat) \<Rightarrow> nat \<Rightarrow> export_conf \<Rightarrow> real \<Rightarrow> real \<Rightarrow> dview list \<Rightarrow> fe_state \<Rightarrow> fe_state \<times> bool" where
  "find_exports hash n cf target amount d s =
     (let need = amount - fe_have s in
      if need < amount * mds_bal_min_start cf then s
      else
        (case fe_scan hash n cf target need (fe_already s) n (dv_subdirs d) [] [] [] of
           Inl e \<Rightarrow> fe_take e (dv_load e) s
         | Inr (rep, unrep, smaller) \<Rightarrow>
             (if smaller \<noteq> [] \<and> \<not> fst (last smaller) < need * mds_bal_midchunk cf
              then fe_take (snd (last smaller)) (fst (last smaller)) s
              else
                (case fe_descend hash n cf amount need unrep s of
                   (s1, True) \<Rightarrow> s1
                 | (s1, False) \<Rightarrow>
                     (case fe_take_smaller need (rev smaller) s1 of
                        (s2, True) \<Rightarrow> s2
                      | (s2, False) \<Rightarrow> fst (fe_descend hash n cf amount need rep s2))))))"
| "fe_descend hash n cf amount need [] s = (s, False)"
| "fe_descend hash n cf amount need (d # ds) s =
     (let s' = find_exports hash n cf 0 amount d s in
      if fe_have s' > need then (s', True) else fe_descend hash n cf amount need ds s')"
  by pat_completeness auto
termination
  by (relation "measure (\<lambda>x. case x of
    Inl (_, _, _, _, _, d, _) \<Rightarrow> 2 * dcount d
  | Inr (_, _, _, _, _, ds, _) \<Rightarrow> Suc (2 * sum_list (map dcount ds)))")
    (auto dest!: fe_scan_count simp: dcount_subdirs)

declare find_exports.simps [simp del] fe_descend.simps [simp del]

section \<open>What find\_exports may add\<close>

text \<open>
  \<open>fe_ext U s s'\<close>: the search went from \<open>s\<close> to \<open>s'\<close> by taking distinct exportable fragments of \<open>U\<close>, all of
  them new, and accounted for each one.
\<close>

definition fe_ext :: "dview set \<Rightarrow> fe_state \<Rightarrow> fe_state \<Rightarrow> bool" where
  "fe_ext U s s' \<longleftrightarrow>
     (\<exists>new. fe_exports s' = fe_exports s @ new \<and> set new \<subseteq> U \<and> (\<forall>d\<in>set new. exportable (fe_already s) d)
        \<and> distinct (map dv_id new) \<and> fe_already s' = fe_already s \<union> dv_id ` set new
        \<and> fe_have s' = fe_have s + sum_list (map dv_load new))"

lemma fe_ext_refl [simp]: "fe_ext U s s"
  by (auto simp: fe_ext_def)

lemma fe_ext_mono: "fe_ext U s s' \<Longrightarrow> U \<subseteq> V \<Longrightarrow> fe_ext V s s'"
  unfolding fe_ext_def by (elim exE conjE, rule exI, intro conjI) (assumption | erule (1) subset_trans)+

lemma fe_ext_trans:
  assumes "fe_ext U s s1" "fe_ext U s1 s2"
  shows "fe_ext U s s2"
proof -
  obtain n1 where n1: "fe_exports s1 = fe_exports s @ n1" "set n1 \<subseteq> U" "\<forall>d\<in>set n1. exportable (fe_already s) d"
    "distinct (map dv_id n1)" "fe_already s1 = fe_already s \<union> dv_id ` set n1"
    "fe_have s1 = fe_have s + sum_list (map dv_load n1)"
    using assms(1) unfolding fe_ext_def by (elim exE conjE)
  obtain n2 where n2: "fe_exports s2 = fe_exports s1 @ n2" "set n2 \<subseteq> U" "\<forall>d\<in>set n2. exportable (fe_already s1) d"
    "distinct (map dv_id n2)" "fe_already s2 = fe_already s1 \<union> dv_id ` set n2"
    "fe_have s2 = fe_have s1 + sum_list (map dv_load n2)"
    using assms(2) unfolding fe_ext_def by (elim exE conjE)
  have dis: "dv_id ` set n1 \<inter> dv_id ` set n2 = {}"
  proof -
    have "\<forall>d\<in>set n2. dv_id d \<notin> dv_id ` set n1" using n2(3) n1(5) by (simp add: exportable_def)
    then show ?thesis unfolding disjoint_iff by (metis imageE)
  qed
  have ex: "\<forall>d\<in>set n2. exportable (fe_already s) d"
    using n2(3) n1(5) by (simp add: exportable_def)
  show ?thesis
    unfolding fe_ext_def
  proof (intro exI [of _ "n1 @ n2"] conjI)
    show "distinct (map dv_id (n1 @ n2))" using n1(4) n2(4) dis by simp
    show "fe_already s2 = fe_already s \<union> dv_id ` set (n1 @ n2)" unfolding n2(5) n1(5) by (simp add: image_Un Un_assoc)
    show "fe_have s2 = fe_have s + sum_list (map dv_load (n1 @ n2))" unfolding n2(6) n1(6) by simp
    show "\<forall>d\<in>set (n1 @ n2). exportable (fe_already s) d" using n1(3) ex by (simp add: ball_Un)
  qed (use n1(1,2) n2(1,2) in simp_all)
qed

lemma fe_ext_take: "d \<in> U \<Longrightarrow> exportable (fe_already s) d \<Longrightarrow> fe_ext U s (fe_take d (dv_load d) s)"
  unfolding fe_ext_def by (intro exI [of _ "[d]"]) (simp add: fe_take_def)

lemma fe_take_smaller_ext:
  "\<forall>(p, d)\<in>set ps. p = dv_load d \<and> exportable (fe_already s) d \<Longrightarrow> distinct (map (dv_id \<circ> snd) ps) \<Longrightarrow>
     fe_ext (snd ` set ps) s (fst (fe_take_smaller need ps s))"
proof (induction need ps s rule: fe_take_smaller.induct)
  case (2 need pop d ps s)
  let ?s = "fe_take d pop s"
  have take: "fe_ext (snd ` set ((pop, d) # ps)) s ?s"
    using fe_ext_take [of d "snd ` set ((pop, d) # ps)" s] "2.prems"(1) by auto
  have "\<forall>(p, e)\<in>set ps. p = dv_load e \<and> exportable (fe_already ?s) e"
    using "2.prems" by (force simp: fe_take_def exportable_def)
  then have "fe_ext (snd ` set ps) ?s (fst (fe_take_smaller need ps ?s))" if "\<not> fe_have ?s > need"
    using "2.IH" [OF refl that] "2.prems"(2) by simp
  then have "fe_ext (snd ` set ((pop, d) # ps)) ?s (fst (fe_take_smaller need ps ?s))" if "\<not> fe_have ?s > need"
    using that by (blast intro: fe_ext_mono [OF _ image_mono [OF set_subset_Cons]])
  then show ?case
    using take fe_ext_trans [OF take] by (simp add: Let_def)
qed simp

lemma below_subdirs: "below d = concat (map (\<lambda>e. e # below e) (dv_subdirs d))"
  by (cases d) simp

lemma below_distinct:
  assumes "distinct (map dv_id (below D))" "e \<in> set (dv_subdirs D)"
  shows "distinct (map dv_id (below e))"
    and "u \<in> set (dv_subdirs D) \<Longrightarrow> x \<in> set (below u) \<Longrightarrow> dv_id e \<noteq> dv_id x"
proof -
  let ?cat = "\<lambda>ds. concat (map (\<lambda>e. e # below e) ds)"
  obtain a b where ds: "dv_subdirs D = a @ e # b" using assms(2) by (meson split_list)
  have "distinct (map dv_id (?cat a @ e # below e @ ?cat b))"
    using assms(1) unfolding below_subdirs [of D] ds by simp
  then have dist: "distinct (map dv_id (below e))" "dv_id e \<notin> dv_id ` set (?cat a @ below e @ ?cat b)"
    by (simp_all add: image_Un)
  then show "distinct (map dv_id (below e))" by blast
  show "dv_id e \<noteq> dv_id x" if "u \<in> set (dv_subdirs D)" "x \<in> set (below u)"
  proof -
    have "x \<in> set (?cat a @ below e @ ?cat b)" using that unfolding ds by auto
    then show ?thesis using dist(2) by (metis imageI)
  qed
qed

lemma below_of_subdirs: "d \<in> set (dv_subdirs D) \<Longrightarrow> insert d (set (below d)) \<subseteq> set (below D)"
  unfolding below_subdirs [of D] by (simp add: UN_upper) blast

lemma subdirs_distinct: "distinct (map dv_id (below D)) \<Longrightarrow> distinct (map dv_id (dv_subdirs D))"
proof -
  have "distinct (map dv_id ds)" if "distinct (map dv_id (concat (map (\<lambda>e. e # below e) ds)))" for ds
    using that by (induction ds) (auto simp: image_Un)
  then show "distinct (map dv_id (below D)) \<Longrightarrow> ?thesis" unfolding below_subdirs [of D] by blast
qed

lemma fe_ext_keeps:
  assumes "fe_ext U s s'" "exportable (fe_already s) e" "\<forall>x\<in>U. dv_id e \<noteq> dv_id x"
  shows "exportable (fe_already s') e"
proof -
  obtain new where "set new \<subseteq> U" "fe_already s' = fe_already s \<union> dv_id ` set new"
    using assms(1) by (auto simp: fe_ext_def)
  then show ?thesis using assms(2,3) by (auto simp: exportable_def)
qed

lemma smaller_left:
  assumes "distinct (map dv_id (below d))"
    and "\<forall>(p, e)\<in>set smaller. p = dv_load e \<and> exportable (fe_already s) e"
    and "set unrep \<subseteq> set (dv_subdirs d)" "set (map snd smaller) \<subseteq> set (dv_subdirs d)"
    and ext: "fe_ext (\<Union>e\<in>set unrep. set (below e)) s s1"
  shows "\<forall>(p, e)\<in>set smaller. p = dv_load e \<and> exportable (fe_already s1) e"
proof (clarify, rule conjI)
  fix p e assume pe: "(p, e) \<in> set smaller"
  then have e: "e \<in> set (dv_subdirs d)" using assms(4) by force
  show "p = dv_load e" using assms(2) pe by blast
  have "\<forall>x\<in>(\<Union>e\<in>set unrep. set (below e)). dv_id e \<noteq> dv_id x"
    using below_distinct(2) [OF assms(1) e] assms(3) by blast
  then show "exportable (fe_already s1) e" using fe_ext_keeps [OF ext] assms(2) pe by blast
qed

text \<open>The search never leaves the subtree and never takes a fragment twice.\<close>

lemma find_exports_ext:
  "distinct (map dv_id (below d)) \<Longrightarrow> fe_ext (set (below d)) s (find_exports hash n cf target amount d s)"
  "\<forall>d\<in>set ds. distinct (map dv_id (below d)) \<Longrightarrow>
     fe_ext (\<Union>d\<in>set ds. set (below d)) s (fst (fe_descend hash n cf amount need ds s))"
proof (induction hash n cf target amount d s and hash n cf amount need ds s
    rule: find_exports_fe_descend.induct)
  case (1 hash n cf target amount d s)
  let ?need = "amount - fe_have s"
  let ?scan = "fe_scan hash n cf target ?need (fe_already s) n (dv_subdirs d) [] [] []"
  show ?case
  proof (cases "?need < amount * mds_bal_min_start cf")
    case True
    then show ?thesis by (simp add: find_exports.simps Let_def)
  next
    case go: False
    show ?thesis
    proof (cases ?scan)
      case (Inl e)
      then show ?thesis
        using fe_scan_Inl [OF Inl] below_of_subdirs [of e d] go
        by (auto simp: find_exports.simps Let_def intro!: fe_ext_take)
    next
      case (Inr r)
      then obtain rep unrep smaller where r: "?scan = Inr (rep, unrep, smaller)" by (cases r) auto
      have sub: "mset rep + mset unrep + mset (map snd smaller) \<subseteq># mset (dv_subdirs d)"
        and sm: "\<forall>(p, e)\<in>set smaller. p = dv_load e \<and> exportable (fe_already s) e"
        using fe_scan_Inr [OF r] by simp_all
      have subs: "set rep \<subseteq> set (dv_subdirs d)" "set unrep \<subseteq> set (dv_subdirs d)"
        "set (map snd smaller) \<subseteq> set (dv_subdirs d)" "mset (map snd smaller) \<subseteq># mset (dv_subdirs d)"
        using mset_sub_parts [OF sub] by (metis mset_subset_eqD set_mset_mset subsetI)+
      have dist: "\<forall>e\<in>set (dv_subdirs d). distinct (map dv_id (below e))"
        using below_distinct(1) [OF "1.prems"] by blast
      have up: "(\<Union>e\<in>set es. set (below e)) \<subseteq> set (below d)" if "set es \<subseteq> set (dv_subdirs d)" for es
        using that below_of_subdirs by blast
      show ?thesis
      proof (cases "smaller \<noteq> [] \<and> \<not> fst (last smaller) < ?need * mds_bal_midchunk cf")
        case True
        obtain p e where l: "last smaller = (p, e)" by fastforce
        have "(p, e) \<in> set smaller" using True l by (metis last_in_set)
        then have "p = dv_load e" "exportable (fe_already s) e" "e \<in> set (below d)"
          using sm subs(3) below_of_subdirs [of e d] by fastforce+
        then show ?thesis using go r True l by (simp add: find_exports.simps Let_def fe_ext_take)
      next
        case no: False
        obtain s1 b1 where d1: "fe_descend hash n cf amount ?need unrep s = (s1, b1)" by fastforce
        have e1: "fe_ext (\<Union>e\<in>set unrep. set (below e)) s s1"
          using "1.IH"(1) [OF refl go r refl refl no] dist subs(2) d1 by auto
        have e1d: "fe_ext (set (below d)) s s1" by (rule fe_ext_mono [OF e1 up [OF subs(2)]])
        have no': "(smaller \<noteq> [] \<and> \<not> fst (last smaller) < ?need * mds_bal_midchunk cf) = False"
          using no by blast
        note unfold = find_exports.simps [of hash n cf target amount d s] Let_def if_not_P [OF go] r no' d1
        show ?thesis
        proof (cases b1)
          case True
          then show ?thesis using e1d by (simp add: unfold)
        next
          case False
          obtain s2 b2 where d2: "fe_take_smaller ?need (rev smaller) s1 = (s2, b2)" by fastforce
          have "distinct (map dv_id (map snd smaller))"
            using subdirs_distinct [OF "1.prems"] subs(4) by (rule distinct_mset_sub)
          then have "distinct (map (dv_id \<circ> snd) (rev smaller))" by (simp flip: rev_map)
          moreover have "\<forall>(p, e)\<in>set (rev smaller). p = dv_load e \<and> exportable (fe_already s1) e"
            using smaller_left [OF "1.prems" sm subs(2,3) e1] by simp
          ultimately have "fe_ext (snd ` set (rev smaller)) s1 s2"
            using fe_take_smaller_ext [of "rev smaller" s1 ?need] d2 by simp
          then have e2: "fe_ext (set (below d)) s1 s2"
            by (rule fe_ext_mono) (use subs(3) below_of_subdirs in fastforce)
          note e2d = fe_ext_trans [OF e1d e2]
          have "fe_ext (set (below d)) s2 (fst (fe_descend hash n cf amount ?need rep s2))" if "\<not> b2"
            by (rule fe_ext_mono [OF "1.IH"(2) [OF refl go r refl refl no] up [OF subs(1)]])
              (use False that d1 d2 dist subs(1) in auto)
          then show ?thesis
            using False e2d fe_ext_trans [OF e2d] by (cases b2) (simp_all add: unfold d2)
        qed
      qed
    qed
  qed
next
  case (2 hash n cf amount need s)
  then show ?case by (simp add: fe_descend.simps)
next
  case (3 hash n cf amount need d ds s)
  let ?s = "find_exports hash n cf 0 amount d s"
  have e: "fe_ext (\<Union>d\<in>set (d # ds). set (below d)) s ?s"
    by (rule fe_ext_mono [OF "3.IH"(1)]) (use "3.prems" in auto)
  have "fe_ext (\<Union>d\<in>set (d # ds). set (below d)) ?s (fst (fe_descend hash n cf amount need ds ?s))"
    if "\<not> fe_have ?s > need"
    by (rule fe_ext_mono [OF "3.IH"(2) [OF refl that]]) (use "3.prems" in auto)
  then show ?case using e fe_ext_trans [OF e] by (simp add: fe_descend.simps Let_def)
qed

section \<open>Candidates and the wrapper\<close>

text \<open>
  A full-auth subtree of the cache, a candidate for the search: its root fragment, the path of its
  inode, all fragments of this inode, the fragment that holds the inode's dentry, and what
  \<^verbatim>\<open>try_rebalance\<close> asks about the inode.
\<close>

record export_cand =
  ec_dir :: dview
  ec_path :: string
  ec_frags :: "dview list"
  ec_parent :: "dview option"
  ec_auth :: mds_rank_t
  ec_root :: bool
  ec_base :: bool

definition cand_view :: "export_cand \<Rightarrow> subtree_view" where
  "cand_view c = (let i = dv_info (ec_dir c) in
     \<lparr>sv_freezing = di_freezing i, sv_frozen = di_frozen i, sv_stray = di_stray i, sv_load = di_load i\<rparr>)"

record export_env =
  ee_hash :: "nat \<Rightarrow> nat"
  ee_cluster_size :: nat
  ee_conf :: export_conf
  ee_whoami :: mds_rank_t
  ee_has_root :: bool
  ee_now :: utime_t
  ee_cands :: "export_cand list"

abbreviation ee_find_exports :: "export_env \<Rightarrow> mds_rank_t \<Rightarrow> real \<Rightarrow> dview \<Rightarrow> fe_state \<Rightarrow> fe_state" where
  "ee_find_exports ee \<equiv> find_exports (ee_hash ee) (ee_cluster_size ee) (ee_conf ee)"

text \<open>
  The branch for the root directory. The outer loop runs over the fragments of the inode, the inner one
  over a list that grows by all these fragments in every round.
\<close>

fun wrapper_inner :: "export_env \<Rightarrow> mds_rank_t \<Rightarrow> real \<Rightarrow> dview list \<Rightarrow> fe_state \<Rightarrow> fe_state" where
  "wrapper_inner ee target amount [] s = s"
| "wrapper_inner ee target amount (d # ds) s =
     wrapper_inner ee target amount ds
       (if dv_load d > 1 / 10 * amount then ee_find_exports ee target amount d s else s)"

fun wrapper_root ::
  "export_env \<Rightarrow> mds_rank_t \<Rightarrow> real \<Rightarrow> dview list \<Rightarrow> dview list \<Rightarrow> dview list \<Rightarrow> fe_state \<Rightarrow> fe_state" where
  "wrapper_root ee target amount frags [] little s = s"
| "wrapper_root ee target amount frags (d # ds) little s =
     (let little' = little @ frags
      in wrapper_root ee target amount frags ds little' (wrapper_inner ee target amount little' s))"

definition find_exports_wrapper ::
  "export_env \<Rightarrow> mds_rank_t \<Rightarrow> real \<Rightarrow> export_cand \<Rightarrow> fe_state \<Rightarrow> fe_state" where
  "find_exports_wrapper ee target amount c s =
     (if di_stray (dv_info (ec_dir c)) then s
      else
        (case workload2type (wl_match WL_Matcher (ec_path c)) of
           WLT_ROOT \<Rightarrow> wrapper_root ee target amount (ec_frags c) (ec_frags c) [] s
         | _ \<Rightarrow>
             (if ee_whoami ee = 0 then ee_find_exports ee target amount (ec_dir c) s
              else
                (case ec_parent c of
                   Some p \<Rightarrow> ee_find_exports ee target amount p s
                 | None \<Rightarrow> ee_find_exports ee target amount (ec_dir c) s))))"

section \<open>simple\_determine\_rebalance\<close>

text \<open>Conversion of a \<^verbatim>\<open>double\<close> to \<^verbatim>\<open>int\<close>: towards zero.\<close>

definition c_trunc :: "real \<Rightarrow> int" where
  "c_trunc x = (if x \<ge> 0 then \<lfloor>x\<rfloor> else \<lceil>x\<rceil>)"

fun sdr_search :: "export_env \<Rightarrow> mds_rank_t \<Rightarrow> real \<Rightarrow> export_cand list \<Rightarrow> fe_state \<Rightarrow> fe_state" where
  "sdr_search ee target ex_load [] s = s"
| "sdr_search ee target ex_load (c # cs) s =
     (let i = dv_info (ec_dir c) in
      if di_freezing i \<or> di_frozen i \<or> di_stray i then sdr_search ee target ex_load cs s
      else
        (let s' = find_exports_wrapper ee target ex_load c s in
         if fe_have s' \<ge> 8 / 10 * ex_load then s' else sdr_search ee target ex_load cs s'))"

fun sdr_decisions ::
  "export_env \<Rightarrow> int \<Rightarrow> migration_decision_t list \<Rightarrow> nat set \<Rightarrow> bal_action list" where
  "sdr_decisions ee my_mds_load [] already = []"
| "sdr_decisions ee my_mds_load (m # ms) already =
     (let target = target_import_mds m;
          ex_load = target_export_percent m * real_of_int my_mds_load;
          s = sdr_search ee target ex_load (ee_cands ee) \<lparr>fe_exports = [], fe_have = 0, fe_already = already\<rparr>
      in map (\<lambda>d. Export_dir_nicely (dv_id d) target) (fe_exports s)
           @ sdr_decisions ee my_mds_load ms (fe_already s))"

definition simple_determine_rebalance ::
  "export_env \<Rightarrow> migration_decision_t list \<Rightarrow> balancer \<Rightarrow> balancer \<times> bal_action list" where
  "simple_determine_rebalance ee decisions b =
     (let b' = b\<lparr>b_rebalance_time := ee_now ee\<rparr>;
          my_mds_load = c_trunc (calc_mds_load (ee_has_root ee) (map cand_view (ee_cands ee))
                                   (mds_load_new (ee_now ee)) True)
      in (b', Clear_export_queue # sdr_decisions ee my_mds_load decisions {}))"

section \<open>try\_rebalance\<close>

text \<open>
  The first loop sends idle imports back and collects the others by the rank they came from. The map
  \<^verbatim>\<open>import_pop_map\<close> is only read in a branch that is switched off, so it is left out.
\<close>

fun tr_imports ::
  "export_env \<Rightarrow> export_cand list \<Rightarrow> bal_action list \<times> (mds_rank_t \<times> export_cand) list
    \<Rightarrow> bal_action list \<times> (mds_rank_t \<times> export_cand) list" where
  "tr_imports ee [] r = r"
| "tr_imports ee (c # cs) (acts, from_map) =
     (let i = dv_info (ec_dir c); thr = mds_bal_idle_threshold (ee_conf ee) in
      if di_stray i then tr_imports ee cs (acts, from_map)
      else if thr > 0 \<and> di_load i < thr \<and> \<not> ec_root c \<and> ec_auth c \<noteq> ee_whoami ee
      then tr_imports ee cs (acts @ [Export_dir_nicely (dv_id (ec_dir c)) (ec_auth c)], from_map)
      else tr_imports ee cs (acts, mmap_insert (ec_auth c) c from_map))"

definition MIN_OFFLOAD :: real where
  "MIN_OFFLOAD = 1 / 10"

text \<open>Imports from the target go back to it as long as they fit.\<close>

fun tr_reexport ::
  "mds_rank_t \<Rightarrow> real \<Rightarrow> export_cand list \<Rightarrow> real \<Rightarrow> (mds_rank_t \<times> export_cand) list
    \<Rightarrow> (bal_action list \<times> real \<times> (mds_rank_t \<times> export_cand) list) option" where
  "tr_reexport target amount [] have from_map = Some ([], have, from_map)"
| "tr_reexport target amount (c # cs) have from_map =
     (let i = dv_info (ec_dir c); pop = di_load i in
      if ec_base c \<or> di_stray i then tr_reexport target amount cs have from_map
      else if di_freezing i \<or> di_frozen i then tr_reexport target amount cs have from_map
      else if \<not> ec_auth c = target then None
      else if pop \<le> amount - have then
        (if amount - (have + pop) < MIN_OFFLOAD
         then Some ([Export_dir_nicely (dv_id (ec_dir c)) target], have + pop, remove1 (target, c) from_map)
         else
           (case tr_reexport target amount cs (have + pop) (remove1 (target, c) from_map) of
              None \<Rightarrow> None
            | Some (acts, r) \<Rightarrow> Some (Export_dir_nicely (dv_id (ec_dir c)) target # acts, r)))
      else if amount - have < MIN_OFFLOAD then Some ([], have, from_map)
      else tr_reexport target amount cs have from_map)"

fun tr_search :: "export_env \<Rightarrow> real \<Rightarrow> export_cand list \<Rightarrow> fe_state \<Rightarrow> fe_state" where
  "tr_search ee amount [] s = s"
| "tr_search ee amount (c # cs) s =
     (if di_stray (dv_info (ec_dir c)) then tr_search ee amount cs s
      else tr_search ee amount cs (ee_find_exports ee 0 amount (ec_dir c) s))"

text \<open>
  The loop over the targets. The quotient \<^verbatim>\<open>amount / target_load\<close> is infinite for a zero target load, so
  the second test does not skip such a target.
\<close>

fun tr_targets ::
  "export_env \<Rightarrow> real \<Rightarrow> (mds_rank_t \<times> real) list \<Rightarrow> (mds_rank_t \<times> export_cand) list \<Rightarrow> nat set
    \<Rightarrow> bal_action list option" where
  "tr_targets ee target_load [] from_map already = Some []"
| "tr_targets ee target_load ((target, amount) # ts) from_map already =
     (if amount < MIN_OFFLOAD then tr_targets ee target_load ts from_map already
      else if target_load \<noteq> 0 \<and> amount / target_load < 2 / 10 then tr_targets ee target_load ts from_map already
      else do {
        (acts, have, from_map') \<leftarrow>
          tr_reexport target amount (map snd (filter (\<lambda>p. fst p = target) from_map)) 0 from_map;
        if amount - have < MIN_OFFLOAD then do {
          rest \<leftarrow> tr_targets ee target_load ts from_map' already;
          Some (acts @ rest)
        } else do {
          let s = tr_search ee amount (ee_cands ee) \<lparr>fe_exports = [], fe_have = have, fe_already = already\<rparr>;
          rest \<leftarrow> tr_targets ee target_load ts from_map' (fe_already s);
          Some (acts @ map (\<lambda>d. Export_dir_nicely (dv_id d) target) (fe_exports s) @ rest)
        }
      })"

definition try_rebalance ::
  "bal_conf \<Rightarrow> export_env \<Rightarrow> balance_state_t \<Rightarrow> balancer \<Rightarrow> bal_action list option" where
  "try_rebalance cf ee st b =
     (if mds_thrash_exports cf then Some []
      else do {
        let (acts, from_map) = tr_imports ee (ee_cands ee) ([], []);
        rest \<leftarrow> tr_targets ee (b_target_load b) (bs_targets st) from_map {};
        Some (acts @ rest)
      })"

section \<open>The chosen exports\<close>

text \<open>The fragments at which a search for a candidate may start.\<close>

definition cand_trees :: "export_cand \<Rightarrow> dview list" where
  "cand_trees c = ec_dir c # ec_frags c @ (case ec_parent c of Some p \<Rightarrow> [p] | None \<Rightarrow> [])"

definition trees_below :: "dview list \<Rightarrow> dview set" where
  "trees_below ts = (\<Union>t\<in>set ts. set (below t))"

definition cand_below :: "export_cand \<Rightarrow> dview set" where
  "cand_below c = trees_below (cand_trees c)"

text \<open>
  Where \<^verbatim>\<open>find_exports_wrapper\<close> really starts: for a workload at the root all fragments of the directory, otherwise the
  fragment itself on rank 0, and on the other ranks the fragment that holds its directory, if there is one.
\<close>

definition wrapper_starts :: "export_env \<Rightarrow> export_cand \<Rightarrow> dview list" where
  "wrapper_starts ee c =
     (case workload2type (wl_match WL_Matcher (ec_path c)) of
        WLT_ROOT \<Rightarrow> ec_frags c
      | _ \<Rightarrow> if ee_whoami ee = 0 then [ec_dir c] else (case ec_parent c of Some p \<Rightarrow> [p] | None \<Rightarrow> [ec_dir c]))"

definition search_below :: "export_env \<Rightarrow> export_cand \<Rightarrow> dview set" where
  "search_below ee c = trees_below (wrapper_starts ee c)"

lemma wrapper_starts_trees: "set (wrapper_starts ee c) \<subseteq> set (cand_trees c)"
  by (auto simp: wrapper_starts_def cand_trees_def split: workload_type.splits option.splits if_splits)

lemma search_below_cand: "search_below ee c \<subseteq> cand_below c"
  using wrapper_starts_trees by (fastforce simp: search_below_def cand_below_def trees_below_def)

text \<open>No fragment occurs twice below one of them.\<close>

definition cand_wf :: "export_cand \<Rightarrow> bool" where
  "cand_wf c \<longleftrightarrow> (\<forall>t\<in>set (cand_trees c). distinct (map dv_id (below t)))"

definition exports_of :: "bal_action list \<Rightarrow> (nat \<times> mds_rank_t) list" where
  "exports_of acts = concat (map (\<lambda>a. case a of Export_dir_nicely i t \<Rightarrow> [(i, t)] | _ \<Rightarrow> []) acts)"

lemma exports_of_simps [simp]:
  "exports_of [] = []"
  "exports_of (Export_dir_nicely i t # as) = (i, t) # exports_of as"
  "exports_of (Clear_export_queue # as) = exports_of as"
  "exports_of (as @ bs) = exports_of as @ exports_of bs"
  "exports_of (map (\<lambda>d. Export_dir_nicely (dv_id d) t) ds) = map (\<lambda>d. (dv_id d, t)) ds"
  by (simp_all add: exports_of_def comp_def)

lemma find_exports_within:
  assumes "distinct (map dv_id (below t))" "t \<in> set ts"
  shows "fe_ext (trees_below ts) s (find_exports hash n cf target amount t s)"
  using find_exports_ext(1) [of t s hash n cf target amount] assms
  by (auto simp: trees_below_def intro: fe_ext_mono)

lemma wrapper_inner_ext:
  "\<forall>t\<in>set ts. distinct (map dv_id (below t)) \<Longrightarrow> set ds \<subseteq> set ts \<Longrightarrow> fe_ext (trees_below ts) s (wrapper_inner ee target amount ds s)"
proof (induction ds arbitrary: s)
  case (Cons d ds)
  let ?s = "if dv_load d > 1 / 10 * amount then ee_find_exports ee target amount d s else s"
  have "fe_ext (trees_below ts) s ?s" using find_exports_within [of d ts] Cons.prems by simp
  moreover have "fe_ext (trees_below ts) ?s (wrapper_inner ee target amount ds ?s)"
    using Cons.IH [of ?s] Cons.prems by simp
  ultimately show ?case by (simp only: wrapper_inner.simps) (rule fe_ext_trans)
qed simp

lemma wrapper_root_ext:
  "\<forall>t\<in>set ts. distinct (map dv_id (below t)) \<Longrightarrow> set frags \<subseteq> set ts \<Longrightarrow> set little \<subseteq> set ts \<Longrightarrow>
     fe_ext (trees_below ts) s (wrapper_root ee target amount frags ds little s)"
proof (induction ds arbitrary: little s)
  case (Cons d ds)
  have "fe_ext (trees_below ts) s (wrapper_inner ee target amount (little @ frags) s)"
    using wrapper_inner_ext [of ts "little @ frags"] Cons.prems by simp
  moreover have "fe_ext (trees_below ts) s' (wrapper_root ee target amount frags ds (little @ frags) s')" for s'
    using Cons.IH [of "little @ frags"] Cons.prems by simp
  ultimately show ?case by (simp add: Let_def) (blast intro: fe_ext_trans)
qed simp

lemma find_exports_wrapper_ext:
  assumes "cand_wf c"
  shows "fe_ext (search_below ee c) s (find_exports_wrapper ee target amount c s)"
proof -
  have d: "\<forall>t\<in>set (wrapper_starts ee c). distinct (map dv_id (below t))"
    using assms wrapper_starts_trees by (fastforce simp: cand_wf_def)
  show ?thesis
  proof (cases "workload2type (wl_match WL_Matcher (ec_path c)) = WLT_ROOT")
    case True
    then have "wrapper_starts ee c = ec_frags c" by (simp add: wrapper_starts_def)
    then show ?thesis
      using wrapper_root_ext [OF d, of "ec_frags c" "[]"] True by (simp add: find_exports_wrapper_def search_below_def)
  next
    case False
    define t where "t = (if ee_whoami ee = 0 then ec_dir c else case ec_parent c of Some p \<Rightarrow> p | None \<Rightarrow> ec_dir c)"
    have "wrapper_starts ee c = [t]"
      "find_exports_wrapper ee target amount c s = (if di_stray (dv_info (ec_dir c)) then s else ee_find_exports ee target amount t s)"
      using False by (cases "workload2type (wl_match WL_Matcher (ec_path c))"; cases "ec_parent c";
          simp add: t_def wrapper_starts_def find_exports_wrapper_def)+
    then show ?thesis using d find_exports_within [of t "[t]"] by (simp add: search_below_def)
  qed
qed

lemma sdr_search_ext:
  "\<forall>c\<in>set cs. cand_wf c \<Longrightarrow> fe_ext (\<Union>c\<in>set cs. search_below ee c) s (sdr_search ee target ex_load cs s)"
proof (induction cs arbitrary: s)
  case (Cons c cs)
  let ?U = "\<Union>c\<in>set (c # cs). search_below ee c"
  let ?s = "find_exports_wrapper ee target ex_load c s"
  have one: "fe_ext ?U s ?s" by (rule fe_ext_mono [OF find_exports_wrapper_ext]) (use Cons.prems in auto)
  have rest: "fe_ext ?U s' (sdr_search ee target ex_load cs s')" for s'
    by (rule fe_ext_mono [OF Cons.IH]) (use Cons.prems in auto)
  show ?case
    using one rest [of s] rest [of ?s] fe_ext_trans [OF one rest] by (simp add: Let_def)
qed simp

lemma sdr_decisions_exports:
  assumes "\<forall>c\<in>set (ee_cands ee). cand_wf c"
  shows "distinct (map fst (exports_of (sdr_decisions ee load ms already)))
    \<and> (\<forall>(i, t)\<in>set (exports_of (sdr_decisions ee load ms already)).
         t \<in> target_import_mds ` set ms
         \<and> (\<exists>d\<in>(\<Union>c\<in>set (ee_cands ee). search_below ee c). dv_id d = i \<and> exportable already d))"
proof -
  define U where "U = (\<Union>c\<in>set (ee_cands ee). search_below ee c)"
  have "distinct (map fst (exports_of (sdr_decisions ee load ms already)))
    \<and> (\<forall>(i, t)\<in>set (exports_of (sdr_decisions ee load ms already)).
         t \<in> target_import_mds ` set ms \<and> (\<exists>d\<in>U. dv_id d = i \<and> exportable already d))"
  proof (induction ms arbitrary: already)
    case (Cons m ms)
    let ?s = "sdr_search ee (target_import_mds m) (target_export_percent m * real_of_int load) (ee_cands ee)
      \<lparr>fe_exports = [], fe_have = 0, fe_already = already\<rparr>"
    define rst where "rst = exports_of (sdr_decisions ee load ms (fe_already ?s))"
    obtain new where new: "fe_exports ?s = new" "set new \<subseteq> U" "\<forall>d\<in>set new. exportable already d"
      "distinct (map dv_id new)" "fe_already ?s = already \<union> dv_id ` set new"
      using sdr_search_ext [OF assms, where ee = ee and s = "\<lparr>fe_exports = [], fe_have = 0, fe_already = already\<rparr>"]
      unfolding fe_ext_def U_def [symmetric] by fastforce
    have eq: "exports_of (sdr_decisions ee load (m # ms) already) = map (\<lambda>d. (dv_id d, target_import_mds m)) new @ rst"
      using new(1) by (simp add: Let_def rst_def)
    have rest: "distinct (map fst rst)"
      "\<forall>(i, t)\<in>set rst. t \<in> target_import_mds ` set ms
         \<and> (\<exists>d\<in>U. dv_id d = i \<and> exportable (already \<union> dv_id ` set new) d)"
      using Cons.IH [of "fe_already ?s"] new(5) by (simp_all add: rst_def)
    have fresh: "dv_id ` set new \<inter> fst ` set rst = {}"
    proof -
      have "i \<notin> dv_id ` set new" if "(i, t) \<in> set rst" for i t
        using rest(2) that by (auto simp: exportable_def)
      then show ?thesis by fastforce
    qed
    show ?case
      unfolding eq
    proof (intro conjI ballI)
      show "distinct (map fst (map (\<lambda>d. (dv_id d, target_import_mds m)) new @ rst))"
        using new(4) rest(1) fresh by (simp add: comp_def image_image)
    next
      fix p assume "p \<in> set (map (\<lambda>d. (dv_id d, target_import_mds m)) new @ rst)"
      then consider d where "d \<in> set new" "p = (dv_id d, target_import_mds m)" | "p \<in> set rst" by auto
      then show "case p of (i, t) \<Rightarrow> t \<in> target_import_mds ` set (m # ms)
           \<and> (\<exists>d\<in>U. dv_id d = i \<and> exportable already d)"
      proof cases
        case 1
        then show ?thesis using new(2,3) by auto
      next
        case 2
        obtain i t where p: "p = (i, t)" by fastforce
        then obtain d where "t \<in> target_import_mds ` set ms" "d \<in> U" "dv_id d = i"
          "exportable (already \<union> dv_id ` set new) d"
          using rest(2) 2 by blast
        then show ?thesis unfolding p by (auto simp: exportable_def)
      qed
    qed
  qed simp
  then show ?thesis unfolding U_def .
qed

text \<open>A search for the amount 0 takes nothing: every exportable fragment is bigger than that.\<close>

lemma fe_classify_zero:
  "fe_classify hash n cf target 0 already skip d = (c, sk) \<Longrightarrow>
     c = FE_skip \<or> c = FE_bigger_rep \<or> c = FE_bigger_unrep"
  by (auto simp: fe_classify_def Let_def split: if_splits)

lemma fe_scan_zero:
  "\<exists>rep' unrep'. fe_scan hash n cf target 0 already skip ds rep unrep smaller = Inr (rep', unrep', smaller)"
proof (induction ds arbitrary: skip rep unrep)
  case (Cons d ds)
  obtain c sk where c: "fe_classify hash n cf target 0 already skip d = (c, sk)" by fastforce
  show ?case
    using fe_classify_zero [OF c] Cons.IH [of sk rep unrep] Cons.IH [of sk "rep @ [d]" unrep]
      Cons.IH [of sk rep "unrep @ [d]"] by (elim disjE) (simp_all add: c)
qed simp

lemma find_exports_zero:
  "amount = 0 \<Longrightarrow> 0 \<le> fe_have s \<Longrightarrow> find_exports hash n cf target amount d s = s"
  "amount = 0 \<Longrightarrow> need = 0 \<Longrightarrow> fe_have s = 0 \<Longrightarrow> fe_descend hash n cf amount need ds s = (s, False)"
proof (induction hash n cf target amount d s and hash n cf amount need ds s
    rule: find_exports_fe_descend.induct)
  case (1 hash n cf target amount d s)
  show ?case
  proof (cases "fe_have s = 0")
    case True
    obtain rep unrep where scan:
      "fe_scan hash n cf target 0 (fe_already s) n (dv_subdirs d) [] [] [] = Inr (rep, unrep, [])"
      using fe_scan_zero by blast
    have unrep: "fe_descend hash n cf amount 0 unrep s = (s, False)"
      using "1.IH"(1) "1.prems" True scan by simp
    have "fe_descend hash n cf amount 0 rep s = (s, False)"
      by (rule "1.IH"(2) [of 0 "(rep, unrep, [])" rep "(unrep, [])" unrep "[]" s False s False])
        (use "1.prems" True scan unrep in simp_all)
    then show ?thesis
      using "1.prems" True scan unrep by (simp add: find_exports.simps(1) [of hash n cf target 0 d s] Let_def)
  next
    case False
    then show ?thesis using "1.prems" by (simp add: find_exports.simps(1) [of hash n cf target 0 d s] Let_def)
  qed
next
  case (3 hash n cf amount need d ds s)
  have "find_exports hash n cf 0 amount d s = s" using "3.IH"(1) "3.prems" by simp
  then show ?case using "3.IH"(2) [of s] "3.prems" by (simp add: fe_descend.simps Let_def)
qed (simp add: fe_descend.simps)

lemma wrapper_inner_zero: "0 \<le> fe_have s \<Longrightarrow> wrapper_inner ee target 0 ds s = s"
  by (induction ds arbitrary: s) (simp_all add: find_exports_zero(1))

lemma wrapper_root_zero: "0 \<le> fe_have s \<Longrightarrow> wrapper_root ee target 0 frags ds little s = s"
  by (induction ds arbitrary: little) (simp_all add: wrapper_inner_zero Let_def)

lemma find_exports_wrapper_zero: "0 \<le> fe_have s \<Longrightarrow> find_exports_wrapper ee target 0 c s = s"
  by (simp add: find_exports_wrapper_def wrapper_root_zero find_exports_zero(1)
      split: workload_type.splits option.splits)

lemma sdr_search_zero: "0 \<le> fe_have s \<Longrightarrow> sdr_search ee target 0 cs s = s"
  by (induction cs) (simp_all add: find_exports_wrapper_zero Let_def)

lemma sdr_decisions_zero: "sdr_decisions ee 0 ms already = []"
  by (induction ms arbitrary: already) (simp_all add: sdr_search_zero Let_def)

subsection \<open>Re-exports\<close>

definition imports_wf :: "(mds_rank_t \<times> export_cand) list \<Rightarrow> bool" where
  "imports_wf m \<longleftrightarrow> (\<forall>(k, c)\<in>set m. ec_auth c = k)"

lemma imports_wf_insert [simp]: "imports_wf (mmap_insert k c m) \<longleftrightarrow> ec_auth c = k \<and> imports_wf m"
proof -
  have "set (mmap_insert k c m) = insert (k, c) (set m)"
    by (metis mset_mmap_insert set_mset_add_mset_insert set_mset_mset)
  then show ?thesis by (simp add: imports_wf_def)
qed

lemma imports_wf_remove1 [intro]: "imports_wf m \<Longrightarrow> imports_wf (remove1 x m)"
  using set_remove1_subset [of x m] by (auto simp: imports_wf_def)

lemma tr_imports_wf: "imports_wf m \<Longrightarrow> tr_imports ee cs (acts, m) = (acts', m') \<Longrightarrow> imports_wf m'"
proof (induction cs arbitrary: acts m)
  case (Cons c cs)
  have wf: "imports_wf (mmap_insert (ec_auth c) c m)" using Cons.prems(1) by simp
  show ?case
    using Cons.prems(2) Cons.IH [OF Cons.prems(1)] Cons.IH [OF wf]
    by (simp only: tr_imports.simps Let_def split: if_splits)
qed simp

lemma tr_reexport_Some:
  "\<forall>c\<in>set cs. ec_auth c = target \<Longrightarrow> imports_wf m \<Longrightarrow>
     \<exists>acts have' m'. tr_reexport target amount cs have m = Some (acts, have', m') \<and> imports_wf m'"
proof (induction cs arbitrary: "have" m)
  case (Cons c cs)
  have skip: "\<exists>acts have' m'. tr_reexport target amount cs have m = Some (acts, have', m') \<and> imports_wf m'"
    using Cons by simp
  obtain acts have' m' where take: "tr_reexport target amount cs (have + dv_load (ec_dir c)) (remove1 (target, c) m)
      = Some (acts, have', m')" "imports_wf m'"
    using Cons.IH [of "remove1 (target, c) m" "have + dv_load (ec_dir c)"] Cons.prems by auto
  show ?case using skip take Cons.prems by (auto simp: Let_def)
qed simp

lemma tr_targets_Some: "imports_wf m \<Longrightarrow> tr_targets ee target_load ts m already \<noteq> None"
proof (induction ts arbitrary: m already)
  case (Cons p ts)
  obtain target amount where p: "p = (target, amount)" by fastforce
  have "\<forall>c\<in>set (map snd (filter (\<lambda>p. fst p = target) m)). ec_auth c = target"
    using Cons.prems by (auto simp: imports_wf_def)
  then obtain acts h m' where r:
    "tr_reexport target amount (map snd (filter (\<lambda>p. fst p = target) m)) 0 m = Some (acts, h, m')" "imports_wf m'"
    using tr_reexport_Some Cons.prems by blast
  show ?case using Cons.IH Cons.prems r by (auto simp: p Let_def bind_eq_None_conv simp del: not_None_eq)
qed simp

section \<open>Properties\<close>

text \<open>
  C4: A search of \<^verbatim>\<open>find_exports\<close> in a directory whose fragments are distinct appends to the list of
  exports only fragments strictly below the directory that are auth, not frozen or freezing, not
  stray, of load at least one half and not exported before; none is appended twice, every one is
  recorded as in use, and \<^verbatim>\<open>have\<close> grows exactly by the sum of their loads.
\<close>

theorem find_exports_sound:
  assumes "distinct (map dv_id (below d))"
  shows "\<exists>new. fe_exports (find_exports hash n cf target amount d s) = fe_exports s @ new
    \<and> set new \<subseteq> set (below d) \<and> distinct (map dv_id new) \<and> (\<forall>e\<in>set new. exportable (fe_already s) e)
    \<and> fe_already (find_exports hash n cf target amount d s) = fe_already s \<union> dv_id ` set new
    \<and> fe_have (find_exports hash n cf target amount d s) = fe_have s + sum_list (map dv_load new)"
  using find_exports_ext(1) [OF assms, of s hash n cf target amount] unfolding fe_ext_def
  by (elim exE conjE) (intro exI conjI, assumption+)

definition ex_info :: "real \<Rightarrow> dir_info" where
  "ex_info l = \<lparr>di_load = l, di_auth = True, di_frozen = False, di_freezing = False, di_stray = False,
     di_rep = False, di_ino = 1, di_frag_value = 0, di_frag_bits = 0\<rparr>"

definition ex_conf :: export_conf where
  "ex_conf = \<lparr>mds_bal_min_start = 1 / 5, mds_bal_need_min = 4 / 5, mds_bal_need_max = 6 / 5,
     mds_bal_midchunk = 3 / 10, mds_bal_frag = 1, mds_bal_idle_threshold = 0\<rparr>"

definition ex_tree :: dview where
  "ex_tree = DView 0 (ex_info 12) [DView 1 (ex_info 10) [], DView 2 (ex_info 2) []]"

theorem find_exports_sound_witness:
  "fe_exports (find_exports (\<lambda>x. x) 2 ex_conf 1 2 ex_tree \<lparr>fe_exports = [], fe_have = 0, fe_already = {}\<rparr>)
     = [DView 2 (ex_info 2) []]
   \<and> (\<exists>new. fe_exports (find_exports (\<lambda>x. x) 2 ex_conf 1 2 ex_tree \<lparr>fe_exports = [], fe_have = 0, fe_already = {}\<rparr>) = new
        \<and> set new \<subseteq> set (below ex_tree))"
proof
  show "fe_exports (find_exports (\<lambda>x. x) 2 ex_conf 1 2 ex_tree \<lparr>fe_exports = [], fe_have = 0, fe_already = {}\<rparr>)
     = [DView 2 (ex_info 2) []]"
    by (simp add: find_exports.simps ex_tree_def ex_conf_def ex_info_def fe_classify_def Let_def fe_take_def)
  have "distinct (map dv_id (below ex_tree))" by (simp add: ex_tree_def)
  then show "\<exists>new. fe_exports (find_exports (\<lambda>x. x) 2 ex_conf 1 2 ex_tree \<lparr>fe_exports = [], fe_have = 0, fe_already = {}\<rparr>) = new
        \<and> set new \<subseteq> set (below ex_tree)"
    using find_exports_sound [of ex_tree "\<lambda>x. x" 2 ex_conf 1 2 "\<lparr>fe_exports = [], fe_have = 0, fe_already = {}\<rparr>"]
    by auto
qed

text \<open>
  C3: \<^verbatim>\<open>simple_determine_rebalance\<close> first clears the export queue. Over all decisions together it exports no
  fragment twice (so never to two ranks), every export goes to the target of one of the decisions,
  and every exported fragment was exportable and lies below a place where the search for a candidate starts: on rank 0 the
  candidate, on the other ranks the fragment that holds the candidate's directory (the candidate itself if it has none), and
  for a workload at the root, on every rank, the fragments of the candidate's directory.
\<close>

theorem simple_determine_rebalance_safe:
  assumes "\<forall>c\<in>set (ee_cands ee). cand_wf c"
    and "simple_determine_rebalance ee decisions b = (b', acts)"
  shows "hd acts = Clear_export_queue \<and> distinct (map fst (exports_of acts))
    \<and> (\<forall>(i, t)\<in>set (exports_of acts). t \<in> target_import_mds ` set decisions
         \<and> (\<exists>d\<in>(\<Union>c\<in>set (ee_cands ee). search_below ee c). dv_id d = i \<and> exportable {} d))"
proof -
  let ?load = "c_trunc (calc_mds_load (ee_has_root ee) (map cand_view (ee_cands ee)) (mds_load_new (ee_now ee)) True)"
  have "acts = Clear_export_queue # sdr_decisions ee ?load decisions {}"
    using assms(2) by (simp add: simple_determine_rebalance_def Let_def)
  then show ?thesis using sdr_decisions_exports [OF assms(1), of ?load decisions "{}"] by simp
qed

definition ex_env :: "real \<Rightarrow> export_env" where
  "ex_env l = \<lparr>ee_hash = (\<lambda>x. x), ee_cluster_size = 2, ee_conf = ex_conf, ee_whoami = 0, ee_has_root = True,
     ee_now = utime_zero, ee_cands = [\<lparr>ec_dir = DView 0 (ex_info l) (dv_subdirs ex_tree), ec_path = [], ec_frags = [ex_tree],
       ec_parent = None, ec_auth = 0, ec_root = True, ec_base = True\<rparr>]\<rparr>"

definition ex_decision :: migration_decision_t where
  "ex_decision = \<lparr>target_import_mds = 1, target_export_load = 3, target_export_percent = 1 / 4\<rparr>"

lemmas ex_simps = ex_env_def ex_decision_def ex_tree_def ex_conf_def ex_info_def

lemma ex_env_wf: "\<forall>c\<in>set (ee_cands (ex_env l)). cand_wf c"
  by (simp add: ex_simps cand_wf_def cand_trees_def)

lemma ex_env_exports:
  "snd (simple_determine_rebalance (ex_env 12) [ex_decision] b)
     = [Clear_export_queue, Export_dir_nicely 2 1]"
  by (simp add: simple_determine_rebalance_def ex_simps cand_view_def calc_mds_load_def c_trunc_def
      find_exports_wrapper_def wl_match_def workload2type_def find_exports.simps fe_classify_def fe_take_def Let_def)

theorem simple_determine_rebalance_safe_witness:
  "\<exists>b' acts. simple_determine_rebalance (ex_env 12) [ex_decision] sample_balancer = (b', acts)
     \<and> exports_of acts = [(2, 1)] \<and> hd acts = Clear_export_queue \<and> distinct (map fst (exports_of acts))"
proof -
  obtain b' acts where r: "simple_determine_rebalance (ex_env 12) [ex_decision] sample_balancer = (b', acts)"
    by fastforce
  then have "acts = [Clear_export_queue, Export_dir_nicely 2 1]"
    using ex_env_exports [of sample_balancer] by simp
  then show ?thesis using r simple_determine_rebalance_safe [OF ex_env_wf r] by simp
qed

text \<open>
  C6: \<^verbatim>\<open>simple_determine_rebalance\<close> keeps its own load in an \<^verbatim>\<open>int\<close>: a rank whose load lies strictly between -1
  and 1 exports nothing, whatever the decisions ask for.
\<close>

theorem simple_determine_rebalance_truncates:
  assumes "\<bar>calc_mds_load (ee_has_root ee) (map cand_view (ee_cands ee)) (mds_load_new (ee_now ee)) True\<bar> < 1"
  shows "snd (simple_determine_rebalance ee decisions b) = [Clear_export_queue]"
proof -
  have "c_trunc (calc_mds_load (ee_has_root ee) (map cand_view (ee_cands ee)) (mds_load_new (ee_now ee)) True) = 0"
    using assms by (auto simp: c_trunc_def floor_eq_iff ceiling_eq_iff)
  then show ?thesis by (simp add: simple_determine_rebalance_def sdr_decisions_zero Let_def)
qed

theorem simple_determine_rebalance_truncates_witness:
  "calc_mds_load (ee_has_root (ex_env (9 / 10))) (map cand_view (ee_cands (ex_env (9 / 10))))
     (mds_load_new (ee_now (ex_env (9 / 10)))) True = 9 / 10
   \<and> snd (simple_determine_rebalance (ex_env (9 / 10)) [ex_decision] sample_balancer) = [Clear_export_queue]"
proof
  show load: "calc_mds_load (ee_has_root (ex_env (9 / 10))) (map cand_view (ee_cands (ex_env (9 / 10))))
     (mds_load_new (ee_now (ex_env (9 / 10)))) True = 9 / 10"
    by (simp add: ex_simps cand_view_def calc_mds_load_def)
  show "snd (simple_determine_rebalance (ex_env (9 / 10)) [ex_decision] sample_balancer) = [Clear_export_queue]"
    by (rule simple_determine_rebalance_truncates) (simp add: load)
qed

text \<open>
  C5: The assertion of \<^verbatim>\<open>try_rebalance\<close> that an import found under a rank comes from this rank never
  fires: the function always completes.
\<close>

theorem try_rebalance_completes: "\<exists>acts. try_rebalance cf ee st b = Some acts"
proof -
  obtain acts m where i: "tr_imports ee (ee_cands ee) ([], []) = (acts, m)" by fastforce
  then have "imports_wf m" using tr_imports_wf [of "[]"] by (auto simp: imports_wf_def)
  then obtain rest where "tr_targets ee (b_target_load b) (bs_targets st) m {} = Some rest"
    using tr_targets_Some by blast
  then show ?thesis by (simp add: try_rebalance_def i)
qed

end
