(* ===== verification/Balancer_If.thy ===== *)
theory Balancer_If
  imports Balancer_Export
begin

text \<open>
  Lunule's imbalance factor: \<^verbatim>\<open>send_ifbeat\<close> and \<^verbatim>\<open>handle_ifbeat\<close> of \<^verbatim>\<open>src/mds/MDBalancer.cc\<close> and the message
  \<^verbatim>\<open>MIFBeat\<close>. Rank 0 collects the loads, computes the imbalance factor from the request rates, and sends every
  overloaded rank a list of migration decisions; the others follow the decisions they receive. The
  doubles are reals: a quotient by zero, infinite or not a number in the code, is 0 here, and the places
  where this matters are written out or excluded by a hypothesis.
\<close>

section \<open>The message\<close>

record mifbeat =
  ib_source :: mds_rank_t
  ib_load :: mds_load_t
  ib_beat :: int
  ib_IFvaule :: real
  ib_decision :: "migration_decision_t list"

text \<open>The payload carries the decisions as a map from targets to percentages.\<close>

definition ifbeat_decision_map :: "migration_decision_t list \<Rightarrow> (mds_rank_t \<times> real) list" where
  "ifbeat_decision_map ds = fold (\<lambda>d. omap_set (target_import_mds d) (target_export_percent d)) ds []"

definition ifbeat_decode :: "(mds_rank_t \<times> real) list \<Rightarrow> migration_decision_t list" where
  "ifbeat_decode m =
     map (\<lambda>(t, p). \<lparr>target_import_mds = t, target_export_load = p, target_export_percent = p\<rparr>) m"

section \<open>The rank\<close>

record if_conf =
  mds_bal_ifthreshold :: real
  mds_bal_interval :: int
  mds_bal_presetmax :: int
  mds_bal_ifenable :: int

text \<open>An auth subtree of the cache: the rank its inode comes from, and what the balancer reads of it.\<close>

record auth_subtree =
  as_id :: nat
  as_from :: mds_rank_t
  as_stray :: bool
  as_load :: real
  as_export_pin :: mds_rank_t

record mds_env =
  me_active :: bool
  me_open :: bool
  me_degraded :: bool
  me_up :: "mds_rank_t list"
  me_load :: mds_load_t
  me_authsubs :: "auth_subtree list"
  me_balancer :: string
  me_ee :: export_env

abbreviation me_whoami :: "mds_env \<Rightarrow> mds_rank_t" where
  "me_whoami me \<equiv> ee_whoami (me_ee me)"

abbreviation me_num_in_mds :: "mds_env \<Rightarrow> nat" where
  "me_num_in_mds me \<equiv> ee_cluster_size (me_ee me)"

definition me_calc_load :: "mds_env \<Rightarrow> mds_load_t \<Rightarrow> bool \<Rightarrow> real" where
  "me_calc_load me = calc_mds_load (ee_has_root (me_ee me)) (map cand_view (ee_cands (me_ee me)))"

definition send_ifbeat ::
  "mds_env \<Rightarrow> balancer \<Rightarrow> mds_rank_t \<Rightarrow> real \<Rightarrow> migration_decision_t list \<Rightarrow> bal_action list" where
  "send_ifbeat me b target if_beate_value ds =
     (if me_degraded me then []
      else if \<not> me_open me then [Wait_open_ifbeat target if_beate_value ds]
      else if target \<notin> set (me_up me) then []
      else [Send_ifbeat target (me_load me) (b_beat_epoch b) if_beate_value ds])"

section \<open>The imbalance factor\<close>

record imbalance_summary_t =
  is_my_if :: real
  is_my_urgency :: real
  is_whoami :: mds_rank_t
  is_my_iops :: int
  is_is_bigger :: bool

definition sortImporter :: "imbalance_summary_t \<Rightarrow> imbalance_summary_t \<Rightarrow> bool" where
  "sortImporter i j \<longleftrightarrow> is_my_if i > is_my_if j"

text \<open>The request rates and loads of all ranks; a missing rank is a failed assertion.\<close>

fun ifbeat_rates ::
  "if_conf \<Rightarrow> (mds_load_t \<Rightarrow> real) \<Rightarrow> (mds_rank_t \<times> mds_load_t) list \<Rightarrow> mds_rank_t list
    \<Rightarrow> (mds_rank_t \<times> real) list \<Rightarrow> (real list \<times> real list \<times> (mds_rank_t \<times> real) list) option" where
  "ifbeat_rates cf calc loads [] old_req = Some ([], [], old_req)"
| "ifbeat_rates cf calc loads (i # is) old_req =
     do {
       l \<leftarrow> map_of loads i;
       let iops = (case map_of old_req i of
                     Some r \<Rightarrow> (ml_req_rate l - r) / real_of_int (mds_bal_interval cf)
                   | None \<Rightarrow> 0);
       (IOPSvector, load_vector, old') \<leftarrow> ifbeat_rates cf calc loads is (omap_set i (ml_req_rate l) old_req);
       Some (iops # IOPSvector, calc l # load_vector, old')
     }"

definition avg_of :: "real list \<Rightarrow> real" where
  "avg_of xs = sum_list xs / real (length xs)"

definition urgency_of :: "if_conf \<Rightarrow> real \<Rightarrow> real" where
  "urgency_of cf iops = 1 / (1 + exp 1 powr (5 - 10 * (iops / real_of_int (mds_bal_presetmax cf))))"

definition imbalance_summary :: "if_conf \<Rightarrow> real list \<Rightarrow> nat \<times> real \<Rightarrow> imbalance_summary_t" where
  "imbalance_summary cf IOPSvector = (\<lambda>(pos, my_IOPS).
     let n = real (length IOPSvector); avg = avg_of IOPSvector in
     \<lparr>is_my_if = sqrt ((my_IOPS - avg) * (my_IOPS - avg) / (n - 1)) / (sqrt n * avg),
      is_my_urgency = urgency_of cf my_IOPS,
      is_whoami = int pos,
      is_my_iops = c_trunc (if my_IOPS \<noteq> 0 then my_IOPS else 1),
      is_is_bigger = (my_IOPS > avg)\<rparr>)"

definition imbalance_vector :: "if_conf \<Rightarrow> real list \<Rightarrow> imbalance_summary_t list" where
  "imbalance_vector cf IOPSvector = map (imbalance_summary cf IOPSvector) (enumerate 0 IOPSvector)"

definition stdev_of :: "real list \<Rightarrow> real" where
  "stdev_of xs = sqrt (sum_list (map (\<lambda>x. (x - avg_of xs) * (x - avg_of xs)) xs) / (real (length xs) - 1))"

text \<open>\<^verbatim>\<open>None\<close> is the quotient 0/0 that a cluster of one rank gives; no comparison with it holds.\<close>

definition imbalance_degree :: "real list \<Rightarrow> real option" where
  "imbalance_degree xs =
     (if sqrt (real (length xs)) * avg_of xs = 0 then Some 0
      else if length xs = 1 then None
      else Some (stdev_of xs / (sqrt (real (length xs)) * avg_of xs)))"

definition imbalance_factor :: "if_conf \<Rightarrow> real list \<Rightarrow> real option" where
  "imbalance_factor cf xs = map_option (\<lambda>d. d * urgency_of cf (Max (set xs))) (imbalance_degree xs)"

text \<open>The offsets are computed the wrong way round, as begin minus position, so they are never positive.\<close>

definition max_pos :: "real list \<Rightarrow> mds_rank_t" where
  "max_pos xs = - int (length (takeWhile (\<lambda>x. x \<noteq> Max (set xs)) xs))"

definition min_pos :: "real list \<Rightarrow> mds_rank_t" where
  "min_pos xs = - int (length (takeWhile (\<lambda>x. x \<noteq> Min (set xs)) xs))"

section \<open>Decisions\<close>

definition max_exporter_count :: nat where
  "max_exporter_count = 3"

definition LUNULE_MIG_AMOUNT :: real where
  "LUNULE_MIG_AMOUNT = 1 / 4"

definition my_if_threshold :: "if_conf \<Rightarrow> nat \<Rightarrow> real" where
  "my_if_threshold cf cluster_size = mds_bal_ifthreshold cf / real (min cluster_size max_exporter_count)"

text \<open>
  The loop that fills the decisions of the rank \<open>send_num\<close>; the percentages are computed with the
  request rate at position \<open>p\<close>. \<^verbatim>\<open>None\<close> is the return from the whole handler. The guard is on the rate of
  \<open>send_num\<close>; if the rate at position \<open>p\<close> is zero the percentage is infinite or no number in the code, and 0 here. The theorems on targets do not depend on
  the percentages, and those on percentages have a positive rate there.
\<close>

fun if_decide ::
  "real \<Rightarrow> real list \<Rightarrow> real list \<Rightarrow> nat \<Rightarrow> nat \<Rightarrow> imbalance_summary_t list \<Rightarrow> real \<Rightarrow> nat
    \<Rightarrow> migration_decision_t list option" where
  "if_decide thr IOPSvector load_vector send_num p [] amount cnt = Some []"
| "if_decide thr IOPSvector load_vector send_num p (e # es) amount cnt =
     (if \<not> cnt < max_exporter_count then Some []
      else if is_whoami e \<noteq> int send_num \<and> \<not> is_is_bigger e
              \<and> (is_my_if e \<ge> thr \<or> is_whoami e = min_pos IOPSvector) then
        (if IOPSvector ! send_num \<le> 1 then None
         else
           (let percent = amount * ((IOPSvector ! p - IOPSvector ! nat (is_whoami e)) / IOPSvector ! p);
                d = \<lparr>target_import_mds = is_whoami e, target_export_load = percent * load_vector ! p,
                     target_export_percent = percent\<rparr>
            in if amount / 2 \<le> thr then Some [d]
               else map_option (\<lambda>ds. d # ds)
                      (if_decide thr IOPSvector load_vector send_num p es (amount / 2) (cnt + 1))))
      else if_decide thr IOPSvector load_vector send_num p es amount cnt)"

definition if_exporter :: "real \<Rightarrow> real list \<Rightarrow> imbalance_summary_t \<Rightarrow> bool" where
  "if_exporter thr IOPSvector e \<longleftrightarrow>
     (max_pos IOPSvector = is_whoami e \<or> is_my_if e > thr) \<and> is_is_bigger e"

text \<open>
  The loop over the ranks that are up. The result says whether the handler returned; the outer
  \<^verbatim>\<open>None\<close> is an access out of range.
\<close>

fun if_exporters ::
  "mds_env \<Rightarrow> balancer \<Rightarrow> real \<Rightarrow> real \<Rightarrow> real list \<Rightarrow> real list \<Rightarrow> imbalance_summary_t list \<Rightarrow> mds_rank_t list
    \<Rightarrow> (bal_action list \<times> bool) option" where
  "if_exporters me b thr factor IOPSvector load_vector v [] = Some ([], False)"
| "if_exporters me b thr factor IOPSvector load_vector v (p # ps) =
     (if p = 0 then if_exporters me b thr factor IOPSvector load_vector v ps
      else if \<not> (0 \<le> p \<and> nat p < length v) then None
      else if if_exporter thr IOPSvector (v ! nat p) then
        (let send_num = nat (is_whoami (v ! nat p)) in
         case if_decide thr IOPSvector load_vector send_num (nat p) v LUNULE_MIG_AMOUNT 0 of
           None \<Rightarrow> Some ([], True)
         | Some ds \<Rightarrow> do {
             (acts, returned) \<leftarrow> if_exporters me b thr factor IOPSvector load_vector v ps;
             Some (send_ifbeat me b (int send_num) factor ds @ acts, returned)
           })
      else if_exporters me b thr factor IOPSvector load_vector v ps)"

text \<open>What becomes of the message: released, kept for a retry, or lost by a return that does not release it.\<close>

datatype msg_fate = Msg_put | Msg_kept | Msg_leaked

text \<open>\<open>srt\<close> stands for \<^verbatim>\<open>std::sort\<close> with \<^verbatim>\<open>sortImporter\<close>; it starts at the second element.\<close>

definition if_sorted ::
  "(imbalance_summary_t list \<Rightarrow> imbalance_summary_t list) \<Rightarrow> imbalance_summary_t list \<Rightarrow> imbalance_summary_t list" where
  "if_sorted srt v = take 1 v @ srt (drop 1 v)"

definition if_rebalance ::
  "(imbalance_summary_t list \<Rightarrow> imbalance_summary_t list) \<Rightarrow> if_conf \<Rightarrow> mds_env \<Rightarrow> real \<Rightarrow> real list \<Rightarrow> real list
    \<Rightarrow> balancer \<Rightarrow> (balancer \<times> bal_action list \<times> msg_fate) option" where
  "if_rebalance srt cf me factor IOPSvector load_vector b =
     (let thr = my_if_threshold cf (length IOPSvector);
          v = if_sorted srt (imbalance_vector cf IOPSvector)
      in do {
        (acts, returned) \<leftarrow> if_exporters me b thr factor IOPSvector load_vector v (me_up me);
        if returned then Some (b, acts, Msg_leaked)
        else if if_exporter thr IOPSvector (v ! 0) then
          (case if_decide thr IOPSvector load_vector (nat (me_whoami me)) 0 v LUNULE_MIG_AMOUNT 0 of
             None \<Rightarrow> Some (b, acts, Msg_leaked)
           | Some my_decision \<Rightarrow>
               (let urgency = urgency_of cf (Max (set IOPSvector));
                    clear = (if \<not> urgency \<le> 1 / 10 \<and> b_beat_epoch b mod 2 = 0 then [Clear_export_queue] else []);
                    (b', acts') = simple_determine_rebalance (me_ee me) my_decision b
                in Some (b', acts @ clear @ acts', Msg_put)))
        else Some (b, acts, Msg_put)
      })"

definition handle_ifbeat ::
  "(imbalance_summary_t list \<Rightarrow> imbalance_summary_t list) \<Rightarrow> if_conf \<Rightarrow> mds_env \<Rightarrow> mifbeat \<Rightarrow> balancer
    \<Rightarrow> (balancer \<times> bal_action list \<times> msg_fate) option" where
  "handle_ifbeat srt cf me m b =
     (if \<not> me_active me then Some (b, [], Msg_put)
      else if \<not> me_open me then Some (b, [Retry_message], Msg_kept)
      else if me_degraded me then Some (b, [], Msg_put)
      else if me_whoami me = 0 then
        (if ib_beat m \<noteq> b_beat_epoch b then Some (b, [], Msg_leaked)
         else
           (let b1 = b\<lparr>b_mds_load := omap_insert (ib_source m) (ib_load m) (b_mds_load b)\<rparr> in
            if me_num_in_mds me = length (b_mds_load b1) then do {
              (IOPSvector, load_vector, old_req) \<leftarrow>
                ifbeat_rates cf (\<lambda>l. me_calc_load me l True) (b_mds_load b1)
                  (map int [0..<me_num_in_mds me]) (b_old_req b1);
              let b2 = b1\<lparr>b_old_req := old_req\<rparr>;
              case imbalance_factor cf IOPSvector of
                None \<Rightarrow> Some (b2, [], Msg_put)
              | Some factor \<Rightarrow>
                  (if factor \<ge> mds_bal_ifthreshold cf
                   then if_rebalance srt cf me factor IOPSvector load_vector b2
                   else Some (b2, [], Msg_put))
            } else Some (b1, [], Msg_put)))
      else if ib_IFvaule m \<ge> mds_bal_ifthreshold cf then
        (let (b', acts) = simple_determine_rebalance (me_ee me) (ib_decision m) b in Some (b', acts, Msg_put))
      else Some (b, [], Msg_put))"

section \<open>The vector of summaries\<close>

text \<open>What \<^verbatim>\<open>std::sort\<close> with \<^verbatim>\<open>sortImporter\<close> is documented to do: reorder, so that no later element goes before an earlier one.\<close>

definition std_sort_spec :: "(imbalance_summary_t list \<Rightarrow> imbalance_summary_t list) \<Rightarrow> bool" where
  "std_sort_spec srt \<longleftrightarrow>
     (\<forall>xs. mset (srt xs) = mset xs \<and> sorted_wrt (\<lambda>i j. \<not> sortImporter j i) (srt xs))"

definition sort_importers :: "imbalance_summary_t list \<Rightarrow> imbalance_summary_t list" where
  "sort_importers = sort_key (\<lambda>e. - is_my_if e)"

lemma std_sort_spec_sort_importers: "std_sort_spec sort_importers"
proof -
  have "sorted_wrt (\<lambda>i j. \<not> sortImporter j i) (sort_importers xs)" for xs
    using sorted_sort_key [of "\<lambda>e. - is_my_if e" xs]
    by (simp add: sort_importers_def sortImporter_def sorted_map not_less)
  then show ?thesis by (simp add: std_sort_spec_def sort_importers_def)
qed

lemma length_imbalance_vector [simp]: "length (imbalance_vector cf xs) = length xs"
  by (simp add: imbalance_vector_def)

lemma imbalance_vector_whoami: "map is_whoami (imbalance_vector cf xs) = map int [0..<length xs]"
  by (rule nth_equalityI) (simp_all add: imbalance_vector_def imbalance_summary_def nth_enumerate_eq Let_def)

lemma imbalance_vector_elem:
  assumes "e \<in> set (imbalance_vector cf xs)"
  obtains i where "i < length xs" "is_whoami e = int i" "is_is_bigger e \<longleftrightarrow> avg_of xs < xs ! i"
    "is_my_if e = sqrt ((xs ! i - avg_of xs) * (xs ! i - avg_of xs) / (real (length xs) - 1))
       / (sqrt (real (length xs)) * avg_of xs)"
  using assms by (auto simp: imbalance_vector_def imbalance_summary_def Let_def in_set_enumerate_eq)

lemma mset_if_sorted: "std_sort_spec srt \<Longrightarrow> mset (if_sorted srt v) = mset v"
  by (metis append_take_drop_id if_sorted_def mset_append std_sort_spec_def)

lemma if_sorted_vector:
  assumes "std_sort_spec srt"
  shows "set (if_sorted srt (imbalance_vector cf xs)) = set (imbalance_vector cf xs)"
    and "distinct (map is_whoami (if_sorted srt (imbalance_vector cf xs)))"
    and "length (if_sorted srt (imbalance_vector cf xs)) = length xs"
proof -
  let ?v = "imbalance_vector cf xs"
  note m = mset_if_sorted [OF assms, of ?v]
  show "set (if_sorted srt ?v) = set ?v" using m by (rule mset_eq_setD)
  have "mset (map is_whoami (if_sorted srt ?v)) = mset (map int [0..<length xs])"
    using m by (simp flip: imbalance_vector_whoami [of cf])
  moreover have "distinct (map int [0..<length xs])" by (simp add: distinct_map)
  ultimately show "distinct (map is_whoami (if_sorted srt ?v))"
    using mset_eq_imp_distinct_iff by blast
  show "length (if_sorted srt ?v) = length xs" using mset_eq_length [OF m] by simp
qed

text \<open>The first element stays in place.\<close>

lemma if_sorted_hd: "xs \<noteq> [] \<Longrightarrow> if_sorted srt (imbalance_vector cf xs) ! 0 = imbalance_summary cf xs (0, xs ! 0)"
  by (cases xs) (simp_all add: if_sorted_def imbalance_vector_def)

section \<open>The decisions\<close>

lemma if_decide_targets:
  assumes "if_decide thr iops loads send_num p es amount cnt = Some ds" "distinct (map is_whoami es)"
  shows "length ds \<le> max_exporter_count - cnt" "distinct (map target_import_mds ds)"
    "\<forall>d\<in>set ds. \<exists>e\<in>set es. target_import_mds d = is_whoami e \<and> is_whoami e \<noteq> int send_num \<and> \<not> is_is_bigger e"
  using assms
proof (induction es arbitrary: amount cnt ds)
  case (Cons e es)
  {
    case 1 then show ?case using Cons.IH(1) by (fastforce simp: Let_def split: if_splits)
  next
    case 2 then show ?case using Cons.IH(2,3) by (fastforce simp: Let_def split: if_splits)
  next
    case 3 then show ?case using Cons.IH(3) by (fastforce simp: Let_def split: if_splits)
  }
qed simp_all

lemma if_decide_percent:
  assumes "if_decide thr iops loads send_num send_num es amount cnt = Some ds" "0 \<le> amount"
    "\<forall>e\<in>set es. \<not> is_is_bigger e \<longrightarrow>
       0 \<le> iops ! nat (is_whoami e) \<and> iops ! nat (is_whoami e) \<le> iops ! send_num"
  shows "(\<forall>d\<in>set ds. 0 \<le> target_export_percent d \<and> target_export_percent d \<le> amount)
    \<and> sum_list (map target_export_percent ds) \<le> (2 - 2 / 2 ^ (max_exporter_count - cnt)) * amount"
  using assms
proof (induction es arbitrary: amount cnt ds)
  case Nil
  have "2 / 2 ^ (max_exporter_count - cnt) \<le> (2 :: real)" by (simp add: divide_le_eq)
  then show ?case using Nil by simp
next
  case (Cons e es)
  let ?c = "is_whoami e \<noteq> int send_num \<and> \<not> is_is_bigger e \<and> (is_my_if e \<ge> thr \<or> is_whoami e = min_pos iops)"
  let ?I = "iops ! send_num" and ?x = "iops ! nat (is_whoami e)"
  let ?pct = "amount * ((?I - ?x) / ?I)"
  show ?case
  proof (cases "cnt < max_exporter_count \<and> ?c")
    case False
    then show ?thesis
      using Cons by (cases "cnt < max_exporter_count") (auto split: if_splits)
  next
    case True
    then obtain k where k: "max_exporter_count - cnt = Suc k" "max_exporter_count - Suc cnt = k"
      by (metis Suc_diff_Suc)
    have I: "1 < ?I" "0 \<le> ?x" "?x \<le> ?I" using Cons.prems True by (auto split: if_splits)
    then have pct: "0 \<le> ?pct" "?pct \<le> amount"
      using Cons.prems(2) mult_left_le [of "(?I - ?x) / ?I" amount] by simp_all
    let ?r = "if_decide thr iops loads send_num send_num es (amount / 2) (Suc cnt)"
    obtain rest where ds: "map target_export_percent ds = ?pct # map target_export_percent rest"
      and rest: "rest = [] \<or> ?r = Some rest"
      using Cons.prems(1) True I by (auto simp: Let_def split: if_splits)
    have half: "0 \<le> amount / 2" using Cons.prems(2) by simp
    have le: "(2 - 2 / 2 ^ k) * (amount / 2) + amount = (2 - 2 / 2 ^ Suc k) * amount" "2 / 2 ^ k \<le> (2 :: real)"
      by (simp_all add: field_simps)
    have r: "\<forall>d\<in>set rest. 0 \<le> target_export_percent d \<and> target_export_percent d \<le> amount / 2"
        "sum_list (map target_export_percent rest) \<le> (2 - 2 / 2 ^ k) * (amount / 2)"
      using rest Cons.IH [OF _ half, of "Suc cnt" rest] Cons.prems(3) k(2) le(2) half by auto
    have "\<forall>y\<in>set (map target_export_percent ds). 0 \<le> y \<and> y \<le> amount"
      unfolding ds using pct r(1) Cons.prems(2) by auto
    moreover have "sum_list (map target_export_percent ds) \<le> (2 - 2 / 2 ^ Suc k) * amount"
      using add_mono [OF r(2) pct(2)] by (simp only: ds le(1) sum_list.Cons add.commute [of ?pct])
    ultimately show ?thesis unfolding k(1) by simp
  qed
qed

lemma if_decide_vector:
  assumes "std_sort_spec srt"
    and "if_decide thr iops loads send_num p (if_sorted srt (imbalance_vector cf iops)) amount 0 = Some ds"
  shows "length ds \<le> 3 \<and> distinct (map target_import_mds ds)
    \<and> (\<forall>d\<in>set ds. \<exists>i. target_import_mds d = int i \<and> i < length iops \<and> i \<noteq> send_num \<and> iops ! i \<le> avg_of iops)"
proof -
  let ?v = "if_sorted srt (imbalance_vector cf iops)"
  note t = if_decide_targets [OF assms(2) if_sorted_vector(2) [OF assms(1)]]
  have "\<exists>i. target_import_mds d = int i \<and> i < length iops \<and> i \<noteq> send_num \<and> iops ! i \<le> avg_of iops"
    if d: "d \<in> set ds" for d
  proof -
    obtain e where e: "e \<in> set ?v" "target_import_mds d = is_whoami e" "is_whoami e \<noteq> int send_num" "\<not> is_is_bigger e"
      using t(3) d by blast
    then show ?thesis
      using imbalance_vector_elem [of e cf iops] if_sorted_vector(1) [OF assms(1)] by (metis not_le)
  qed
  then show ?thesis using t(1,2) by (simp add: max_exporter_count_def)
qed

text \<open>Every message rank 0 sends.\<close>

lemma if_exporters_sends:
  assumes "std_sort_spec srt" "v = if_sorted srt (imbalance_vector cf iops)"
  shows "if_exporters me b thr factor iops loads v ps = Some (acts, returned) \<Longrightarrow> a \<in> set acts \<Longrightarrow>
    \<exists>i p ds. i < length iops \<and> avg_of iops < iops ! i
      \<and> if_decide thr iops loads i p v LUNULE_MIG_AMOUNT 0 = Some ds \<and> a \<in> set (send_ifbeat me b (int i) factor ds)"
proof (induction ps arbitrary: acts returned)
  case (Cons p ps)
  let ?e = "v ! nat p"
  let ?d = "if_decide thr iops loads (nat (is_whoami ?e)) (nat p) v LUNULE_MIG_AMOUNT 0"
  show ?case
  proof (cases "p \<noteq> 0 \<and> 0 \<le> p \<and> nat p < length v \<and> if_exporter thr iops ?e")
    case False
    then show ?thesis using Cons by (auto split: if_splits)
  next
    case True
    then have "?e \<in> set (imbalance_vector cf iops)" "is_is_bigger ?e"
      using if_sorted_vector(1) [OF assms(1)] assms(2) nth_mem [of "nat p" v] by (auto simp: if_exporter_def)
    then obtain i where i: "i < length iops" "is_whoami ?e = int i" "avg_of iops < iops ! i"
      using imbalance_vector_elem by metis
    show ?thesis
    proof (cases ?d)
      case None
      then show ?thesis using Cons.prems True by (auto simp: Let_def)
    next
      case (Some ds)
      then obtain acts' where "if_exporters me b thr factor iops loads v ps = Some (acts', returned)"
        "acts = send_ifbeat me b (int i) factor ds @ acts'"
        using Cons.prems(1) True i(2) by (auto simp: Let_def bind_eq_Some_conv)
      then show ?thesis using Cons.IH [of acts'] Cons.prems(2) i Some by auto
    qed
  qed
qed simp

lemma send_ifbeat_elem:
  "a \<in> set (send_ifbeat me b target f ds) \<Longrightarrow>
     a = Wait_open_ifbeat target f ds \<or> a = Send_ifbeat target (me_load me) (b_beat_epoch b) f ds \<and> target \<in> set (me_up me)"
  by (auto simp: send_ifbeat_def split: if_splits)

lemma sdr_decisions_acts:
  "a \<in> set (sdr_decisions ee load ds already) \<Longrightarrow>
     \<exists>i t. a = Export_dir_nicely i t \<and> t \<in> target_import_mds ` set ds"
  by (induction ds arbitrary: already) (simp, fastforce simp: Let_def)

lemma simple_determine_rebalance_acts:
  "simple_determine_rebalance ee ds b = (b', acts) \<Longrightarrow> a \<in> set acts \<Longrightarrow>
     a = Clear_export_queue \<or> (\<exists>i t. a = Export_dir_nicely i t \<and> t \<in> target_import_mds ` set ds)"
  using sdr_decisions_acts by (fastforce simp: simple_determine_rebalance_def Let_def)

lemma if_rebalance_sends:
  assumes "std_sort_spec srt" "if_rebalance srt cf me factor iops loads b = Some (b', acts, fate)"
    "Send_ifbeat t l e f ds \<in> set acts"
  shows "f = factor \<and> t \<in> set (me_up me) \<and> length ds \<le> 3 \<and> distinct (map target_import_mds ds)
    \<and> (\<exists>i. t = int i \<and> i < length iops \<and> avg_of iops < iops ! i)
    \<and> (\<forall>d\<in>set ds. target_import_mds d \<noteq> t
          \<and> (\<exists>i. target_import_mds d = int i \<and> i < length iops \<and> iops ! i \<le> avg_of iops))"
proof -
  let ?thr = "my_if_threshold cf (length iops)" and ?v = "if_sorted srt (imbalance_vector cf iops)"
  obtain acts1 ret where x: "if_exporters me b ?thr factor iops loads ?v (me_up me) = Some (acts1, ret)"
    using assms(2) by (auto simp: if_rebalance_def Let_def bind_eq_Some_conv)
  have "Send_ifbeat t l e f ds \<in> set acts1"
    using assms(2,3) x
    by (auto simp: if_rebalance_def Let_def split: if_splits option.splits prod.splits
        dest: simple_determine_rebalance_acts)
  then obtain i p ds' where i: "i < length iops" "avg_of iops < iops ! i"
    "if_decide ?thr iops loads i p ?v LUNULE_MIG_AMOUNT 0 = Some ds'"
    "Send_ifbeat t l e f ds \<in> set (send_ifbeat me b (int i) factor ds')"
    using if_exporters_sends [OF assms(1) refl x] by blast
  then have s: "t = int i" "f = factor" "ds' = ds" "t \<in> set (me_up me)"
    using send_ifbeat_elem [OF i(4)] by auto
  then show ?thesis
    using if_decide_vector [OF assms(1) i(3)] i(1,2) by fastforce
qed

lemma handle_ifbeat_sends:
  assumes "std_sort_spec srt" "handle_ifbeat srt cf me m b = Some (b', acts, fate)"
    and "Send_ifbeat t l e f ds \<in> set acts"
  shows "\<exists>iops loads old_req.
    ifbeat_rates cf (\<lambda>l. me_calc_load me l True) (omap_insert (ib_source m) (ib_load m) (b_mds_load b))
      (map int [0..<me_num_in_mds me]) (b_old_req b) = Some (iops, loads, old_req)
    \<and> t \<in> set (me_up me) \<and> (\<exists>i. t = int i \<and> i < length iops \<and> avg_of iops < iops ! i)
    \<and> mds_bal_ifthreshold cf \<le> f \<and> length ds \<le> 3 \<and> distinct (map target_import_mds ds)
    \<and> (\<forall>d\<in>set ds. target_import_mds d \<noteq> t
          \<and> (\<exists>i. target_import_mds d = int i \<and> i < length iops \<and> iops ! i \<le> avg_of iops))"
proof -
  let ?b1 = "b\<lparr>b_mds_load := omap_insert (ib_source m) (ib_load m) (b_mds_load b)\<rparr>"
  obtain iops loads old_req factor b2 where r:
    "ifbeat_rates cf (\<lambda>l. me_calc_load me l True) (b_mds_load ?b1) (map int [0..<me_num_in_mds me]) (b_old_req b)
       = Some (iops, loads, old_req)" "mds_bal_ifthreshold cf \<le> factor"
    "if_rebalance srt cf me factor iops loads b2 = Some (b', acts, fate)"
    using assms(2,3)
    by (auto simp: handle_ifbeat_def Let_def bind_eq_Some_conv split: if_splits option.splits prod.splits
        dest: simple_determine_rebalance_acts)
  then show ?thesis using if_rebalance_sends [OF assms(1) r(3) assms(3)] by (intro exI [of _ iops] exI) auto
qed

section \<open>The decisions on the wire\<close>

lemma omap_ok_set_eq: "omap_ok m \<Longrightarrow> set m = {(k, v). map_of m k = Some v}"
  by (auto simp: omap_ok_def strict_sorted_iff dest: map_of_SomeD)

lemma map_of_decision_fold:
  "distinct (map target_import_mds ds) \<Longrightarrow>
     map_of (fold (\<lambda>d. omap_set (target_import_mds d) (target_export_percent d)) ds m)
       = map_of m ++ map_of (map (\<lambda>d. (target_import_mds d, target_export_percent d)) ds)"
proof (induction ds arbitrary: m)
  case (Cons d ds)
  have "target_import_mds d \<notin> dom (map_of (map (\<lambda>d. (target_import_mds d, target_export_percent d)) ds))"
    using Cons.prems by (auto simp: dom_map_of_conv_image_fst)
  then show ?case using Cons by (auto simp: map_add_def fun_eq_iff domIff split: option.splits)
qed simp

lemma omap_ok_decision_fold:
  "omap_ok m \<Longrightarrow> omap_ok (fold (\<lambda>d. omap_set (target_import_mds d) (target_export_percent d)) ds m)"
  by (induction ds arbitrary: m) simp_all

lemma targets_decision_fold:
  "fst ` set (fold (\<lambda>d. omap_set (target_import_mds d) (target_export_percent d)) ds m)
     = target_import_mds ` set ds \<union> fst ` set m"
  by (induction ds arbitrary: m) auto

lemma ifbeat_wire_targets:
  "target_import_mds ` set (ifbeat_decode (ifbeat_decision_map ds)) = target_import_mds ` set ds"
  using targets_decision_fold [of ds "[]"]
  by (simp add: ifbeat_decode_def ifbeat_decision_map_def image_image case_prod_beta)

section \<open>Properties\<close>

definition sample_if_conf :: if_conf where
  "sample_if_conf = \<lparr>mds_bal_ifthreshold = 1 / 10, mds_bal_interval = 1, mds_bal_presetmax = 100, mds_bal_ifenable = 1\<rparr>"

definition sample_env :: mds_env where
  "sample_env = \<lparr>me_active = True, me_open = True, me_degraded = False, me_up = [0, 1],
     me_load = mds_load_new utime_zero, me_authsubs = [], me_balancer = [], me_ee = ex_env 12\<rparr>"

text \<open>
  C7: Every migration message rank 0 sends in \<^verbatim>\<open>handle_ifbeat\<close> goes to a rank that is up and whose request rate
  is above the average; it carries an imbalance factor of at least the threshold and at most three
  decisions with distinct targets, none of them the rank itself, all with a request rate that is not
  above the average.
\<close>

theorem ifbeat_sends_to_underloaded:
  assumes "std_sort_spec srt" "handle_ifbeat srt cf me m b = Some (b', acts, fate)"
    and "Send_ifbeat t l e f ds \<in> set acts"
  shows "\<exists>iops loads old_req.
    ifbeat_rates cf (\<lambda>l. me_calc_load me l True) (omap_insert (ib_source m) (ib_load m) (b_mds_load b))
      (map int [0..<me_num_in_mds me]) (b_old_req b) = Some (iops, loads, old_req)
    \<and> t \<in> set (me_up me) \<and> (\<exists>i. t = int i \<and> i < length iops \<and> avg_of iops < iops ! i)
    \<and> mds_bal_ifthreshold cf \<le> f \<and> length ds \<le> 3 \<and> distinct (map target_import_mds ds)
    \<and> (\<forall>d\<in>set ds. target_import_mds d \<noteq> t
          \<and> (\<exists>i. target_import_mds d = int i \<and> i < length iops \<and> iops ! i \<le> avg_of iops))"
  using assms by (rule handle_ifbeat_sends)

text \<open>
  C9: The decisions rank 0 makes for itself. When no request rate is negative and its own rate is above the
  average, the percentages lie between 0 and one quarter and add up to at most 7/16; there are at most
  three, with distinct targets other than rank 0 that are not above the average.
\<close>

theorem own_decisions_bounded:
  assumes "std_sort_spec srt" "\<forall>x\<in>set iops. 0 \<le> x" "avg_of iops < iops ! 0"
    and "if_decide thr iops loads 0 0 (if_sorted srt (imbalance_vector cf iops)) LUNULE_MIG_AMOUNT 0 = Some ds"
  shows "length ds \<le> 3 \<and> distinct (map target_import_mds ds)
    \<and> (\<forall>d\<in>set ds. 0 \<le> target_export_percent d \<and> target_export_percent d \<le> 1 / 4)
    \<and> (\<forall>d\<in>set ds. \<exists>i. target_import_mds d = int i \<and> i < length iops \<and> i \<noteq> 0 \<and> iops ! i \<le> avg_of iops)
    \<and> sum_list (map target_export_percent ds) \<le> 7 / 16"
proof -
  have "\<forall>e\<in>set (if_sorted srt (imbalance_vector cf iops)). \<not> is_is_bigger e \<longrightarrow>
      0 \<le> iops ! nat (is_whoami e) \<and> iops ! nat (is_whoami e) \<le> iops ! 0"
  proof (intro ballI impI)
    fix e assume e: "e \<in> set (if_sorted srt (imbalance_vector cf iops))" "\<not> is_is_bigger e"
    then obtain i where "i < length iops" "is_whoami e = int i" "\<not> avg_of iops < iops ! i"
      using imbalance_vector_elem [of e cf iops] if_sorted_vector(1) [OF assms(1)] by metis
    then show "0 \<le> iops ! nat (is_whoami e) \<and> iops ! nat (is_whoami e) \<le> iops ! 0"
      using assms(2,3) by simp
  qed
  then show ?thesis
    using if_decide_percent [OF assms(4)] if_decide_vector [OF assms(1,4)]
    by (simp add: LUNULE_MIG_AMOUNT_def max_exporter_count_def)
qed

text \<open>
  C25: The decisions of a message survive the wire: when the targets are distinct, the receiver finds exactly the
  targets and percentages that were sent, in the order of the ranks.
\<close>

theorem ifbeat_decisions_roundtrip:
  assumes "distinct (map target_import_mds ds)"
  shows "sorted_wrt (<) (map target_import_mds (ifbeat_decode (ifbeat_decision_map ds)))
    \<and> set (map (\<lambda>d. (target_import_mds d, target_export_percent d)) (ifbeat_decode (ifbeat_decision_map ds)))
        = set (map (\<lambda>d. (target_import_mds d, target_export_percent d)) ds)"
proof -
  let ?m = "ifbeat_decision_map ds" and ?w = "map (\<lambda>d. (target_import_mds d, target_export_percent d)) ds"
  have ok: "omap_ok ?m" by (simp add: ifbeat_decision_map_def omap_ok_decision_fold)
  have "map_of ?m = map_of ?w"
    using map_of_decision_fold [OF assms, of "[]"] by (simp add: ifbeat_decision_map_def)
  moreover have "set ?w = {(k, v). map_of ?w k = Some v}"
    using assms by (auto dest: map_of_SomeD simp: comp_def)
  ultimately have "set ?m = set ?w" using omap_ok_set_eq [OF ok] by simp
  moreover have "sorted_wrt (<) (map fst ?m)" using ok by (simp add: omap_ok_def)
  ultimately show ?thesis by (simp add: ifbeat_decode_def comp_def case_prod_beta)
qed






text \<open>Two ranks, the first with a request rate of 100 and the second idle.\<close>

lemma busy_decisions:
  assumes "std_sort_spec srt" "thr \<le> 1 / 30"
  shows "if_decide thr [100, 0] [12, 12] 0 0 (if_sorted srt (imbalance_vector cf [100, 0])) LUNULE_MIG_AMOUNT 0
    = Some [\<lparr>target_import_mds = 1, target_export_load = 3, target_export_percent = 1 / 4\<rparr>]"
proof -
  have "mset (srt [x]) = mset [x]" for x using assms(1) by (simp add: std_sort_spec_def)
  then have srt: "srt [x] = [x]" for x by (metis mset_single_iff_right mset.simps(1) mset.simps(2))
  have "sqrt (50 * 50 / 1) / (sqrt 2 * 50) = 1 / sqrt (2 :: real)" by (simp add: real_sqrt_mult)
  moreover have "1 / 2 \<le> 1 / sqrt (2 :: real)" by (simp add: real_le_lsqrt)
  then have "thr \<le> 1 / sqrt 2" using assms(2) by linarith
  ultimately show ?thesis
    by (simp add: if_sorted_def imbalance_vector_def imbalance_summary_def avg_of_def srt Let_def
        LUNULE_MIG_AMOUNT_def max_exporter_count_def min_pos_def)
qed

theorem own_decisions_bounded_witness:
  "\<exists>ds. if_decide (1 / 30) [100, 0] [12, 12] 0 0
         (if_sorted sort_importers (imbalance_vector sample_if_conf [100, 0])) LUNULE_MIG_AMOUNT 0 = Some ds
     \<and> length ds = 1 \<and> sum_list (map target_export_percent ds) \<le> 7 / 16"
proof -
  note d = busy_decisions [OF std_sort_spec_sort_importers, of "1 / 30" sample_if_conf]
  show ?thesis
    using d own_decisions_bounded [OF std_sort_spec_sort_importers _ _ d] by (simp add: avg_of_def)
qed

theorem ifbeat_decisions_roundtrip_witness:
  "set (map (\<lambda>d. (target_import_mds d, target_export_percent d))
      (ifbeat_decode (ifbeat_decision_map [ex_decision\<lparr>target_import_mds := 2\<rparr>, ex_decision]))) = {(2, 1 / 4), (1, 1 / 4)}"
  using ifbeat_decisions_roundtrip [of "[ex_decision\<lparr>target_import_mds := 2\<rparr>, ex_decision]"]
  by (simp add: ex_decision_def)

definition sample_if_balancer :: balancer where
  "sample_if_balancer = sample_balancer\<lparr>b_mds_load := [(0, mds_load_new utime_zero)], b_old_req := [(0, 0), (1, 0)]\<rparr>"

definition sample_mifbeat :: mifbeat where
  "sample_mifbeat = \<lparr>ib_source = 1, ib_load = (mds_load_new utime_zero)\<lparr>ml_req_rate := 100\<rparr>, ib_beat = 1,
     ib_IFvaule = -1, ib_decision = []\<rparr>"

lemma sample_factor: "imbalance_factor sample_if_conf [0, 100] = Some (urgency_of sample_if_conf 100)"
proof -
  have avg: "avg_of [0, 100] = 50" by (simp add: avg_of_def)
  have "sqrt 5000 = sqrt 2 * (50 :: real)" using real_sqrt_mult [of 2 2500] real_sqrt_abs [of 50] by simp
  then show ?thesis
    by (simp add: imbalance_factor_def imbalance_degree_def stdev_of_def avg)
qed

lemma sample_urgency: "1 / 2 \<le> urgency_of sample_if_conf 100"
proof -
  have "exp 1 powr (-5 :: real) \<le> exp 1 powr (0 :: real)" by (rule powr_mono) simp_all
  then have p: "exp 1 powr (-5 :: real) \<le> 1" by simp
  have "1 / (2 :: real) \<le> 1 / (1 + exp 1 powr (-5 :: real))"
    by (rule divide_left_mono) (use p in \<open>simp_all add: add_pos_nonneg\<close>)
  then show ?thesis by (simp add: urgency_of_def sample_if_conf_def)
qed

lemma sample_rebalance:
  assumes "me_open me" "\<not> me_degraded me" "me_up me = [0, 1]"
  shows "\<exists>ds. if_rebalance sort_importers sample_if_conf me f [0, 100] loads b
    = Some (b, [Send_ifbeat 1 (me_load me) (b_beat_epoch b) f ds], Msg_put)"
proof -
  let ?e = "\<lambda>i x. imbalance_summary sample_if_conf [0, 100] (i, x)"
  have avg: "avg_of [0, 100] = 50" by (simp add: avg_of_def)
  have q: "sqrt (2500 :: real) = 50" using real_sqrt_abs [of 50] by simp
  have t: "1 / 20 < 1 / sqrt (2 :: real)" by (simp add: divide_less_eq real_less_lsqrt)
  have e: "is_whoami (?e i x) = int i" "is_is_bigger (?e i x) \<longleftrightarrow> x > 50"
    "is_my_if (?e 0 0) = 1 / sqrt 2" "is_my_if (?e 1 100) = 1 / sqrt 2" for i x
    by (simp_all add: imbalance_summary_def avg q Let_def)
  have v: "if_sorted sort_importers (imbalance_vector sample_if_conf [0, 100]) = [?e 0 0, ?e 1 100]"
    by (simp add: if_sorted_def imbalance_vector_def sort_importers_def)
  have thr: "my_if_threshold sample_if_conf (length [0, 100 :: real]) = 1 / 20"
    by (simp add: my_if_threshold_def sample_if_conf_def max_exporter_count_def)
  show ?thesis
    unfolding if_rebalance_def thr v
    using t assms by (simp add: e [simplified] if_exporter_def LUNULE_MIG_AMOUNT_def max_exporter_count_def
        max_pos_def min_pos_def send_ifbeat_def Let_def)
qed

lemma sample_ifbeat:
  "\<exists>b' l e f ds. handle_ifbeat sort_importers sample_if_conf sample_env sample_mifbeat sample_if_balancer
     = Some (b', [Send_ifbeat 1 l e f ds], Msg_put)"
proof -
  have thr: "mds_bal_ifthreshold sample_if_conf \<le> urgency_of sample_if_conf 100"
    using sample_urgency by (simp add: sample_if_conf_def)
  have c: "mds_bal_interval sample_if_conf = 1" "ml_req_rate (mds_load_new utime_zero) = 0"
    "me_active sample_env" "me_open sample_env" "\<not> me_degraded sample_env" "me_whoami sample_env = 0"
    "me_num_in_mds sample_env = 2"
    by (simp_all add: sample_if_conf_def mds_load_new_def sample_env_def ex_env_def)
  obtain ds where "if_rebalance sort_importers sample_if_conf sample_env (urgency_of sample_if_conf 100) [0, 100] loads b
      = Some (b, [Send_ifbeat 1 (me_load sample_env) (b_beat_epoch b) (urgency_of sample_if_conf 100) (ds loads b)], Msg_put)"
    for loads b
    using sample_rebalance [of sample_env] by (simp add: sample_env_def) metis
  then show ?thesis
    using thr by (simp add: handle_ifbeat_def sample_mifbeat_def sample_if_balancer_def sample_balancer_def
        omap_insert_def upt_rec c sample_factor Let_def)
qed

theorem ifbeat_sends_to_underloaded_witness:
  "\<exists>b' acts fate l e f ds. handle_ifbeat sort_importers sample_if_conf sample_env sample_mifbeat sample_if_balancer
       = Some (b', acts, fate)
     \<and> Send_ifbeat 1 l e f ds \<in> set acts \<and> length ds \<le> 3 \<and> distinct (map target_import_mds ds)"
proof -
  obtain b' l e f ds where h: "handle_ifbeat sort_importers sample_if_conf sample_env sample_mifbeat sample_if_balancer
      = Some (b', [Send_ifbeat 1 l e f ds], Msg_put)"
    using sample_ifbeat by blast
  have "Send_ifbeat 1 l e f ds \<in> set [Send_ifbeat 1 l e f ds]" by simp
  from ifbeat_sends_to_underloaded [OF std_sort_spec_sort_importers h this] show ?thesis
    using h by auto
qed

end
