(* ===== verification/Balancer_Loop.thy ===== *)
theory Balancer_Loop
  imports Balancer_If
begin

text \<open>
  The balancer's main loop in \<^verbatim>\<open>src/mds/MDBalancer.cc\<close>: the heartbeats (\<^verbatim>\<open>send_heartbeat\<close>, \<^verbatim>\<open>handle_heartbeat\<close>), \<^verbatim>\<open>tick\<close>,
  the export pins, \<^verbatim>\<open>export_empties\<close>, \<^verbatim>\<open>mantle_prep_rebalance\<close>, \<^verbatim>\<open>handle_mds_failure\<close> and the dispatch of
  messages, and a system of ranks that exchange heartbeats.
\<close>

section \<open>Heartbeats\<close>

record mheartbeat =
  hb_source :: mds_rank_t
  hb_load :: mds_load_t
  hb_beat :: int
  hb_import_map :: "(mds_rank_t \<times> real) list"

text \<open>How much load comes from which rank.\<close>

fun heartbeat_imports :: "mds_rank_t \<Rightarrow> auth_subtree list \<Rightarrow> (mds_rank_t \<times> real) list \<Rightarrow> (mds_rank_t \<times> real) list" where
  "heartbeat_imports whoami [] m = m"
| "heartbeat_imports whoami (im # ims) m =
     (if as_from im = whoami then heartbeat_imports whoami ims m
      else if as_stray im then heartbeat_imports whoami ims m
      else heartbeat_imports whoami ims (omap_set (as_from im) (get0 m (as_from im) + as_load im) m))"

definition send_heartbeat :: "mds_env \<Rightarrow> balancer \<Rightarrow> balancer \<times> bal_action list" where
  "send_heartbeat me b =
     (if me_degraded me then (b, [])
      else if \<not> me_open me then (b, [Wait_open_heartbeat])
      else
        (let whoami = me_whoami me;
             (b1, acts) = (if whoami = 0
                           then (b\<lparr>b_beat_epoch := b_beat_epoch b + 1, b_mds_load := []\<rparr>, [Switch_tracer_epoch])
                           else (b, []));
             b2 = b1\<lparr>b_mds_load := omap_insert whoami (me_load me) (b_mds_load b1)\<rparr>;
             import_map = heartbeat_imports whoami (me_authsubs me) [];
             b3 = b2\<lparr>b_mds_import_map := omap_set whoami import_map (b_mds_import_map b2)\<rparr>
         in (b3, acts @ map (\<lambda>p. Send_heartbeat p (me_load me) (b_beat_epoch b3) import_map)
                          (filter (\<lambda>p. p \<noteq> whoami) (me_up me)))))"

section \<open>Mantle\<close>

text \<open>
  The part of \<^verbatim>\<open>mantle_prep_rebalance\<close> around the Lua script. \<open>localize\<close> stands for \<^verbatim>\<open>localize_balancer\<close>, which
  reads the script from RADOS: a return code, and the script and version it stores on success. \<open>balance\<close>
  stands for \<^verbatim>\<open>Mantle::balance\<close>, which runs the script: a return code and the targets.
\<close>

record mantle_ifc =
  mi_localize :: "int \<times> string \<times> string"
  mi_balance :: "string \<Rightarrow> mds_rank_t \<Rightarrow> (string \<times> real) list list \<Rightarrow> int \<times> (mds_rank_t \<times> real) list"

definition mantle_metrics :: "mds_load_t \<Rightarrow> (string \<times> real) list" where
  "mantle_metrics l =
     [(''all.meta_load'', meta_load_last (ml_all l)), (''auth.meta_load'', meta_load_last (ml_auth l)),
      (''cpu_load_avg'', ml_cpu_load_avg l), (''queue_len'', ml_queue_len l), (''req_rate'', ml_req_rate l)]"

fun mantle_fill ::
  "utime_t \<Rightarrow> mds_rank_t list \<Rightarrow> balancer \<Rightarrow> balancer \<times> (string \<times> real) list list" where
  "mantle_fill now [] b = (b, [])"
| "mantle_fill now (i # is) b =
     (let b1 = b\<lparr>b_mds_load := omap_insert i (mds_load_new now) (b_mds_load b)\<rparr>;
          m = mantle_metrics (the (map_of (b_mds_load b1) i));
          (b2, ms) = mantle_fill now is b1
      in (b2, m # ms))"

definition EINVAL :: int where
  "EINVAL = 22"

definition mantle_refresh :: "mantle_ifc \<Rightarrow> mds_env \<Rightarrow> balancer \<Rightarrow> balancer \<times> int" where
  "mantle_refresh mi me b =
     (if b_bal_version b \<noteq> me_balancer me then
        (let (r, code, version) = mi_localize mi in
         if r \<noteq> 0 then (b\<lparr>b_bal_version := []\<rparr>, r)
         else (b\<lparr>b_bal_code := code, b_bal_version := version\<rparr>, 0))
      else (b, 0))"

definition mantle_prep_rebalance ::
  "bal_conf \<Rightarrow> mantle_ifc \<Rightarrow> mds_env \<Rightarrow> balancer \<Rightarrow> (balancer \<times> bal_action list \<times> int) option" where
  "mantle_prep_rebalance cf mi me b =
     (let (b1, r) = mantle_refresh mi me b in
      if r \<noteq> 0 then Some (b1, [], r)
      else
        (let n = me_num_in_mds me;
             (b2, metrics) = mantle_fill (ee_now (me_ee me)) (map int [0..<n]) (b1\<lparr>b_rebalance_time := ee_now (me_ee me)\<rparr>);
             (ret, targets) = mi_balance mi (b_bal_code b2) (me_whoami me) metrics
         in if length targets \<noteq> n then Some (b2, [Clear_export_queue], - EINVAL)
            else if ret \<noteq> 0 then Some (b2, [Clear_export_queue], ret)
            else do {
              acts \<leftarrow> try_rebalance cf (me_ee me) (balance_state_empty\<lparr>bs_targets := targets\<rparr>) b2;
              Some (b2, Clear_export_queue # acts, 0)
            }))"

section \<open>The handler of heartbeats\<close>

definition me_rank_view :: "mds_env \<Rightarrow> rank_view" where
  "me_rank_view me =
     \<lparr>rv_whoami = me_whoami me, rv_num_in_mds = me_num_in_mds me, rv_up = me_up me, rv_now = ee_now (me_ee me),
      rv_has_root = ee_has_root (me_ee me), rv_fullauth = map cand_view (ee_cands (me_ee me))\<rparr>"

text \<open>\<^verbatim>\<open>prep_rebalance\<close> with the call of \<^verbatim>\<open>try_rebalance\<close> at its end.\<close>

definition run_prep_rebalance ::
  "bal_conf \<Rightarrow> mds_env \<Rightarrow> int \<Rightarrow> balancer \<Rightarrow> (balancer \<times> bal_action list) option" where
  "run_prep_rebalance cf me beat b =
     (case prep_rebalance cf (me_rank_view me) beat b of
        (b', acts, None) \<Rightarrow> Some (b', acts)
      | (b', acts, Some st) \<Rightarrow> do {
          acts' \<leftarrow> try_rebalance cf (me_ee me) st b';
          Some (b', acts @ acts')
        })"

definition heartbeat_rebalance ::
  "bal_conf \<Rightarrow> mantle_ifc \<Rightarrow> mds_env \<Rightarrow> int \<Rightarrow> balancer \<Rightarrow> (balancer \<times> bal_action list) option" where
  "heartbeat_rebalance cf mi me beat b =
     (if me_balancer me \<noteq> [] then do {
        (b1, acts, r) \<leftarrow> mantle_prep_rebalance cf mi me b;
        if r = 0 then Some (b1, acts)
        else do {
          (b2, acts') \<leftarrow> run_prep_rebalance cf me beat b1;
          Some (b2, acts @ acts')
        }
      } else run_prep_rebalance cf me beat b)"

text \<open>The epoch of the message: what the handler does before it stores the load.\<close>

definition heartbeat_epoch :: "mds_env \<Rightarrow> mheartbeat \<Rightarrow> balancer \<Rightarrow> balancer \<times> bal_action list" where
  "heartbeat_epoch me m b =
     (let b1 = (if me_whoami me \<noteq> 0 \<and> hb_beat m > b_beat_epoch b
                then b\<lparr>b_beat_epoch := hb_beat m, b_mds_load := []\<rparr> else b)
      in if hb_source m = 0 then
           (let b2 = (if b_beat_epoch b1 \<noteq> hb_beat m then b1\<lparr>b_mds_load := []\<rparr> else b1);
                b3 = b2\<lparr>b_beat_epoch := hb_beat m\<rparr>;
                (b4, acts) = send_heartbeat me b3
            in (b4, acts @ send_ifbeat me b4 0 (-1) []))
         else (b1, []))"

definition heartbeat_store :: "mheartbeat \<Rightarrow> balancer \<Rightarrow> balancer" where
  "heartbeat_store m b =
     b\<lparr>b_mds_load := omap_set (hb_source m) (hb_load m) (b_mds_load b),
       b_mds_import_map := omap_set (hb_source m) (hb_import_map m) (b_mds_import_map b)\<rparr>"

definition handle_heartbeat ::
  "bal_conf \<Rightarrow> if_conf \<Rightarrow> mantle_ifc \<Rightarrow> mds_env \<Rightarrow> mheartbeat \<Rightarrow> balancer
    \<Rightarrow> (balancer \<times> bal_action list \<times> msg_fate) option" where
  "handle_heartbeat cf icf mi me m b =
     (if \<not> me_active me then Some (b, [], Msg_put)
      else if \<not> me_open me then Some (b, [Retry_message], Msg_kept)
      else if me_degraded me then Some (b, [], Msg_put)
      else
        (let (b1, acts) = heartbeat_epoch me m b;
             b2 = heartbeat_store m b1
         in if mds_bal_ifenable icf = 0 \<and> length (b_mds_load b2) = me_num_in_mds me then do {
              (b3, acts') \<leftarrow> heartbeat_rebalance cf mi me (hb_beat m) b2;
              Some (b3, acts @ acts', Msg_put)
            } else Some (b2, acts, Msg_put)))"

definition handle_mds_failure :: "mds_rank_t \<Rightarrow> balancer \<Rightarrow> balancer" where
  "handle_mds_failure who b = (if who = 0 then b\<lparr>b_last_epoch_under := 0\<rparr> else b)"

text \<open>The dispatch; any other message is a failed assertion.\<close>

datatype bal_message = Heartbeat mheartbeat | Ifbeat mifbeat | Other_message

definition proc_message ::
  "bal_conf \<Rightarrow> if_conf \<Rightarrow> mantle_ifc \<Rightarrow> (imbalance_summary_t list \<Rightarrow> imbalance_summary_t list) \<Rightarrow> mds_env \<Rightarrow> bal_message
    \<Rightarrow> balancer \<Rightarrow> (balancer \<times> bal_action list \<times> msg_fate) option" where
  "proc_message cf icf mi srt me m b =
     (case m of
        Heartbeat hb \<Rightarrow> handle_heartbeat cf icf mi me hb b
      | Ifbeat ib \<Rightarrow> handle_ifbeat srt icf me ib b
      | Other_message \<Rightarrow> None)"

section \<open>Export pins and empty imports\<close>

definition MDS_RANK_NONE :: mds_rank_t where
  "MDS_RANK_NONE = -1"

record pin_dir =
  pd_id :: nat
  pd_auth :: bool
  pd_auxsubtree :: bool
  pd_frozen :: bool
  pd_freezing :: bool
  pd_creating :: bool
  pd_subtree_root :: bool

record pin_inode =
  pi_is_dir :: bool
  pi_export_pin :: mds_rank_t
  pi_queued :: bool
  pi_frags :: "pin_dir list"

text \<open>One fragment: its new state, the calls, and whether the inode may leave the queue.\<close>

definition pin_frag :: "mds_rank_t \<Rightarrow> mds_rank_t \<Rightarrow> pin_dir \<Rightarrow> pin_dir \<times> bal_action list \<times> bool" where
  "pin_frag whoami export_pin d =
     (if \<not> pd_auth d then (d, [], True)
      else if export_pin = MDS_RANK_NONE then
        (if pd_auxsubtree d then
           (if pd_frozen d \<or> pd_freezing d then (d, [], False)
            else (d\<lparr>pd_auxsubtree := False\<rparr>, [Try_subtree_merge (pd_id d)], True))
         else (d, [], True))
      else if export_pin = whoami then
        (if pd_creating d \<or> pd_frozen d \<or> pd_freezing d then (d, [], False)
         else if \<not> pd_subtree_root d
         then (d\<lparr>pd_auxsubtree := True, pd_subtree_root := True\<rparr>, [Adjust_subtree_auth (pd_id d) whoami], True)
         else if \<not> pd_auxsubtree d then (d\<lparr>pd_auxsubtree := True\<rparr>, [], True)
         else (d, [], True))
      else (d, [Export_dir (pd_id d) export_pin], False))"

definition pin_inode_step :: "mds_rank_t \<Rightarrow> pin_inode \<Rightarrow> (pin_inode \<times> bal_action list \<times> bool) option" where
  "pin_inode_step whoami i =
     do {
       assert_that (pi_is_dir i);
       let rs = map (pin_frag whoami (pi_export_pin i)) (pi_frags i);
       let remove = list_all (\<lambda>(_, _, ok). ok) rs;
       Some (i\<lparr>pi_frags := map fst rs, pi_queued := (if remove then False else pi_queued i)\<rparr>,
             concat (map (\<lambda>(_, acts, _). acts) rs), remove)
     }"

text \<open>The pass over the queue: the inodes that stay in it, and those that leave it.\<close>

fun pin_queue :: "mds_rank_t \<Rightarrow> pin_inode list \<Rightarrow> (pin_inode list \<times> pin_inode list \<times> bal_action list) option" where
  "pin_queue whoami [] = Some ([], [], [])"
| "pin_queue whoami (i # q) =
     do {
       (i', acts, remove) \<leftarrow> pin_inode_step whoami i;
       (kept, removed, acts') \<leftarrow> pin_queue whoami q;
       Some (if remove then (kept, i' # removed, acts @ acts') else (i' # kept, removed, acts @ acts'))
     }"

definition handle_export_pins ::
  "mds_env \<Rightarrow> pin_inode list \<Rightarrow> (pin_inode list \<times> pin_inode list \<times> bal_action list) option" where
  "handle_export_pins me q =
     do {
       (kept, removed, acts) \<leftarrow> pin_queue (me_whoami me) q;
       Some (kept, removed, acts @ map (\<lambda>cd. Export_dir (as_id cd) (as_export_pin cd))
               (filter (\<lambda>cd. as_export_pin cd \<ge> 0 \<and> as_export_pin cd \<noteq> me_whoami me) (me_authsubs me)))
     }"

text \<open>\<open>items\<close> gives \<^verbatim>\<open>get_num_head_items\<close> of a fragment.\<close>

definition export_empties :: "(nat \<Rightarrow> nat) \<Rightarrow> mds_env \<Rightarrow> bal_action list" where
  "export_empties items me =
     map (\<lambda>c. Export_empty_import (dv_id (ec_dir c)))
       (filter (\<lambda>c. \<not> (di_freezing (dv_info (ec_dir c)) \<or> di_frozen (dv_info (ec_dir c)))
           \<and> \<not> ec_base c \<and> \<not> di_stray (dv_info (ec_dir c)) \<and> items (dv_id (ec_dir c)) = 0)
         (ee_cands (me_ee me)))"

section \<open>tick\<close>

record tick_conf =
  mds_bal_export_pin :: bool
  mds_bal_sample_interval :: real
  mds_bal_max :: int
  mds_bal_max_until :: int

text \<open>The static variables of \<^verbatim>\<open>tick\<close>.\<close>

record tick_state =
  ts_num_bal_times :: int
  ts_first :: utime_t

abbreviation sec_of :: "utime_t \<Rightarrow> int" where
  "sec_of t \<equiv> uint (tv_sec t)"

definition tick_balances :: "tick_conf \<Rightarrow> if_conf \<Rightarrow> mds_env \<Rightarrow> utime_t \<Rightarrow> tick_state \<Rightarrow> utime_t \<Rightarrow> bool" where
  "tick_balances tc icf me now ts last_heartbeat \<longleftrightarrow>
     me_whoami me = 0 \<and> mds_bal_interval icf > 0
     \<and> (ts_num_bal_times ts \<noteq> 0
        \<or> mds_bal_max_until tc \<ge> 0 \<and> sec_of (utime_sub now (ts_first ts)) > mds_bal_max_until tc)
     \<and> me_active me \<and> sec_of now - sec_of last_heartbeat \<ge> mds_bal_interval icf"

definition tick ::
  "tick_conf \<Rightarrow> if_conf \<Rightarrow> mds_env \<Rightarrow> utime_t \<Rightarrow> pin_inode list \<Rightarrow> tick_state \<Rightarrow> balancer
    \<Rightarrow> (pin_inode list \<times> tick_state \<times> balancer \<times> bal_action list) option" where
  "tick tc icf me now q ts b =
     do {
       (q', acts) \<leftarrow>
         (if mds_bal_export_pin tc
          then map_option (\<lambda>(kept, _, acts). (kept, acts)) (handle_export_pins me q) else Some (q, []));
       let b1 = (if utime_double now - utime_double (b_last_sample b) > mds_bal_sample_interval tc
                 then b\<lparr>b_last_sample := now\<rparr> else b);
       let b2 = (if b_last_heartbeat b1 = utime_zero then b1\<lparr>b_last_heartbeat := now\<rparr> else b1);
       if tick_balances tc icf me now ts (b_last_heartbeat b2)
       then (let (b3, acts') = send_heartbeat me (b2\<lparr>b_last_heartbeat := now\<rparr>)
             in Some (q', ts\<lparr>ts_num_bal_times := ts_num_bal_times ts - 1\<rparr>, b3, acts @ acts'))
       else Some (q', ts, b2, acts)
     }"

section \<open>What the handlers keep\<close>

text \<open>The maps of the balancer are maps: their keys are strictly increasing.\<close>

definition balancer_wf :: "balancer \<Rightarrow> bool" where
  "balancer_wf b \<longleftrightarrow> omap_ok (b_mds_load b) \<and> omap_ok (b_mds_meta_load b) \<and> omap_ok (b_mds_import_map b)
     \<and> omap_ok (b_old_req b)"

text \<open>A step that leaves the epoch alone and keeps the maps.\<close>

definition keeps :: "balancer \<Rightarrow> balancer \<Rightarrow> bool" where
  "keeps b b' \<longleftrightarrow> b_beat_epoch b' = b_beat_epoch b \<and> (balancer_wf b \<longrightarrow> balancer_wf b')"

lemma keeps_refl [simp]: "keeps b b"
  by (simp add: keeps_def)

lemma keeps_trans: "keeps a b \<Longrightarrow> keeps b c \<Longrightarrow> keeps a c"
  by (simp add: keeps_def)

lemma keeps_updates [simp]:
  "keeps b (b'\<lparr>b_rebalance_time := t\<rparr>) = keeps b b'"
  "keeps b (b'\<lparr>b_target_load := x\<rparr>) = keeps b b'"
  "keeps b (b'\<lparr>b_my_load := x\<rparr>) = keeps b b'"
  "keeps b (b'\<lparr>b_last_epoch_under := e\<rparr>) = keeps b b'"
  "keeps b (b'\<lparr>b_bal_version := v\<rparr>) = keeps b b'"
  "keeps b (b'\<lparr>b_bal_code := v\<rparr>) = keeps b b'"
  "keeps b (b'\<lparr>b_last_heartbeat := t\<rparr>) = keeps b b'"
  "keeps b (b'\<lparr>b_last_sample := t\<rparr>) = keeps b b'"
  "keeps (b\<lparr>b_rebalance_time := t\<rparr>) b' = keeps b b'"
  "keeps (b\<lparr>b_last_heartbeat := t\<rparr>) b' = keeps b b'"
  by (simp_all add: keeps_def balancer_wf_def)

lemma keeps_load_insert [simp]: "keeps b (b\<lparr>b_mds_load := omap_insert i l (b_mds_load b)\<rparr>)"
  by (simp add: keeps_def balancer_wf_def)

lemma keeps_meta_set [simp]: "keeps b (b\<lparr>b_mds_meta_load := omap_set i l (b_mds_meta_load b)\<rparr>)"
  by (simp add: keeps_def balancer_wf_def)

lemma keeps_cluster_loads: "cluster_loads rv f is (b, t, m) = (b', t', m') \<Longrightarrow> keeps b b'"
proof (induction "is" arbitrary: b t m)
  case (Cons i "is")
  let ?b1 = "b\<lparr>b_mds_load := omap_insert i (mds_load_new (rv_now rv)) (b_mds_load b)\<rparr>"
  let ?l = "own_load rv * f"
  have r: "cluster_loads rv f is (?b1\<lparr>b_mds_meta_load := omap_set i ?l (b_mds_meta_load ?b1),
      b_my_load := (if rv_whoami rv = i then ?l else b_my_load ?b1)\<rparr>, t + ?l, mmap_insert ?l i m) = (b', t', m')"
    using Cons.prems by (simp add: Let_def calc_load_const)
  have "keeps b (?b1\<lparr>b_mds_meta_load := omap_set i ?l (b_mds_meta_load ?b1)\<rparr>)"
    by (rule keeps_trans [OF keeps_load_insert keeps_meta_set])
  then show ?case using Cons.IH [OF r] by (rule keeps_trans [OF iffD2 [OF keeps_updates(3)]])
qed simp

lemma keeps_prep_rebalance: "prep_rebalance cf rv beat b = (b', r) \<Longrightarrow> keeps b b'"
proof (cases "mds_thrash_exports cf")
  case False
  assume p: "prep_rebalance cf rv beat b = (b', r)"
  let ?b0 = "b\<lparr>b_rebalance_time := rv_now rv\<rparr>"
  obtain b1 t m where c: "cluster_loads rv (load_factor rv ?b0) (map int [0..<rv_num_in_mds rv]) (?b0, 0, []) = (b1, t, m)"
    by (metis prod_cases3)
  have "keeps b b1" using keeps_cluster_loads [OF c] by simp
  then show ?thesis
    using p False by (simp add: prep_rebalance_def c Let_def split: if_split_asm) (auto simp del: keeps_refl)
qed (simp add: prep_rebalance_def)

lemma keeps_mantle_fill: "mantle_fill now is b = (b', ms) \<Longrightarrow> keeps b b'"
proof (induction "is" arbitrary: b ms)
  case (Cons i "is")
  let ?b1 = "b\<lparr>b_mds_load := omap_insert i (mds_load_new now) (b_mds_load b)\<rparr>"
  obtain ms' where "mantle_fill now is ?b1 = (b', ms')"
    using Cons.prems by (auto simp: Let_def split: prod.splits)
  then have "keeps ?b1 b'" by (rule Cons.IH)
  with keeps_load_insert show ?case by (rule keeps_trans)
qed simp

lemma keeps_mantle_refresh: "mantle_refresh mi me b = (b', r) \<Longrightarrow> keeps b b'"
  by (auto simp: mantle_refresh_def Let_def split: if_splits prod.splits)

lemma keeps_mantle_prep_rebalance: "mantle_prep_rebalance cf mi me b = Some (b', acts, r) \<Longrightarrow> keeps b b'"
  by (auto simp: mantle_prep_rebalance_def Let_def bind_eq_Some_conv split: if_splits prod.splits
      dest!: keeps_mantle_refresh keeps_mantle_fill intro: keeps_trans)

lemma keeps_heartbeat_rebalance:
  "heartbeat_rebalance cf mi me beat b = Some (b', acts) \<Longrightarrow> keeps b b'"
proof -
  have run: "run_prep_rebalance cf me beat b1 = Some (b2, acts') \<Longrightarrow> keeps b1 b2" for b1 b2 acts'
    by (auto simp: run_prep_rebalance_def bind_eq_Some_conv split: prod.splits option.splits dest: keeps_prep_rebalance)
  assume "heartbeat_rebalance cf mi me beat b = Some (b', acts)"
  then show ?thesis
    using run by (auto simp: heartbeat_rebalance_def bind_eq_Some_conv split: if_splits
        dest!: keeps_mantle_prep_rebalance intro: keeps_trans)
qed

lemma keeps_simple_determine_rebalance: "simple_determine_rebalance ee ds b = (b', acts) \<Longrightarrow> keeps b b'"
  by (auto simp: simple_determine_rebalance_def Let_def)

lemma omap_ok_ifbeat_rates:
  "ifbeat_rates cf calc loads is old = Some (iops, lv, old') \<Longrightarrow> omap_ok old \<Longrightarrow> omap_ok old'"
  by (induction "is" arbitrary: old iops lv) (auto simp: Let_def bind_eq_Some_conv)

lemma keeps_if_rebalance: "if_rebalance srt cf me f iops loads b = Some (b', acts, fate) \<Longrightarrow> keeps b b'"
  by (auto simp: if_rebalance_def Let_def bind_eq_Some_conv split: if_splits option.splits prod.splits
      dest: keeps_simple_determine_rebalance)

lemma handle_ifbeat_cases:
  assumes "handle_ifbeat srt cf me m b = Some (b', acts, fate)"
  obtains "b' = b" "acts = [] \<or> acts = [Retry_message]"
  | "b' = b\<lparr>b_mds_load := omap_insert (ib_source m) (ib_load m) (b_mds_load b)\<rparr>" "acts = []"
  | iops lv old where
      "ifbeat_rates cf (\<lambda>l. me_calc_load me l True) (omap_insert (ib_source m) (ib_load m) (b_mds_load b))
         (map int [0..<me_num_in_mds me]) (b_old_req b) = Some (iops, lv, old)"
      "b' = b\<lparr>b_mds_load := omap_insert (ib_source m) (ib_load m) (b_mds_load b), b_old_req := old\<rparr> \<and> acts = []
       \<or> (\<exists>f. if_rebalance srt cf me f iops lv
             (b\<lparr>b_mds_load := omap_insert (ib_source m) (ib_load m) (b_mds_load b), b_old_req := old\<rparr>)
             = Some (b', acts, fate))"
  | "simple_determine_rebalance (me_ee me) (ib_decision m) b = (b', acts)"
proof (cases "me_active me \<and> me_open me \<and> \<not> me_degraded me \<and> me_whoami me = 0 \<and> ib_beat m = b_beat_epoch b
    \<and> me_num_in_mds me = length (omap_insert (ib_source m) (ib_load m) (b_mds_load b))")
  case True
  let ?rates = "ifbeat_rates cf (\<lambda>l. me_calc_load me l True) (omap_insert (ib_source m) (ib_load m) (b_mds_load b))
     (map int [0..<me_num_in_mds me]) (b_old_req b)"
  obtain iops lv old where r: "?rates = Some (iops, lv, old)"
    using assms True by (cases ?rates) (auto simp: handle_ifbeat_def Let_def)
  show ?thesis
    using assms True r by (cases "imbalance_factor cf iops") (auto simp: handle_ifbeat_def Let_def intro: that(3) split: if_splits)
next
  case False
  then show ?thesis
    using assms that(1,2,4) by (simp add: handle_ifbeat_def Let_def split: if_split_asm prod.split_asm)
qed

lemma keeps_handle_ifbeat:
  assumes "handle_ifbeat srt cf me m b = Some (b', acts, fate)"
  shows "keeps b b'"
  using assms
proof (cases rule: handle_ifbeat_cases)
  case (3 iops lv old)
  let ?b1 = "b\<lparr>b_mds_load := omap_insert (ib_source m) (ib_load m) (b_mds_load b)\<rparr>"
  have "keeps ?b1 (?b1\<lparr>b_old_req := old\<rparr>)"
    using omap_ok_ifbeat_rates [OF 3(1)] by (simp add: keeps_def balancer_wf_def)
  with keeps_load_insert have "keeps b (?b1\<lparr>b_old_req := old\<rparr>)" by (rule keeps_trans)
  then show ?thesis using 3(2) keeps_if_rebalance keeps_trans by fastforce
qed (simp_all add: keeps_simple_determine_rebalance)

subsection \<open>Heartbeats\<close>

lemma send_heartbeat_epoch:
  assumes "send_heartbeat me b = (b', acts)"
  shows "b_beat_epoch b \<le> b_beat_epoch b'" "me_whoami me \<noteq> 0 \<Longrightarrow> b_beat_epoch b' = b_beat_epoch b"
    "balancer_wf b \<Longrightarrow> balancer_wf b'"
    "Send_heartbeat t l e im \<in> set acts \<Longrightarrow> e = b_beat_epoch b' \<and> t \<noteq> me_whoami me"
  using assms by (auto simp: send_heartbeat_def balancer_wf_def Let_def split: if_splits)

lemma tr_reexport_acts:
  "tr_reexport target amount cs h m = Some (acts, r) \<Longrightarrow> a \<in> set acts \<Longrightarrow> \<exists>i t. a = Export_dir_nicely i t"
  by (induction cs arbitrary: h m acts r) (fastforce simp: Let_def split: if_splits option.splits)+

lemma tr_targets_acts:
  "tr_targets ee load ts m al = Some acts \<Longrightarrow> a \<in> set acts \<Longrightarrow> \<exists>i t. a = Export_dir_nicely i t"
proof (induction ts arbitrary: m al acts)
  case (Cons p ts)
  obtain target amount where p: "p = (target, amount)" by fastforce
  show ?case
    using Cons by (fastforce simp: p Let_def bind_eq_Some_conv split: if_splits dest: tr_reexport_acts)
qed simp

lemma tr_imports_acts:
  "\<forall>a\<in>set (fst r). \<exists>i t. a = Export_dir_nicely i t \<Longrightarrow> a \<in> set (fst (tr_imports ee cs r)) \<Longrightarrow>
     \<exists>i t. a = Export_dir_nicely i t"
  by (induction ee cs r rule: tr_imports.induct) (fastforce simp: Let_def split: if_splits)+

lemma try_rebalance_acts:
  "try_rebalance cf ee st b = Some acts \<Longrightarrow> a \<in> set acts \<Longrightarrow> \<exists>i t. a = Export_dir_nicely i t"
  using tr_imports_acts [of "([], [])" a ee "ee_cands ee"]
  by (auto simp: try_rebalance_def Let_def bind_eq_Some_conv split: if_splits prod.splits dest: tr_targets_acts)

definition no_heartbeat :: "bal_action list \<Rightarrow> bool" where
  "no_heartbeat acts \<longleftrightarrow> (\<forall>t l e im. Send_heartbeat t l e im \<notin> set acts)"

lemma no_heartbeat_append [simp]: "no_heartbeat (as @ bs) \<longleftrightarrow> no_heartbeat as \<and> no_heartbeat bs"
  by (auto simp: no_heartbeat_def)

lemma no_heartbeat_Nil [simp]: "no_heartbeat []"
  by (simp add: no_heartbeat_def)

lemma no_heartbeat_Clear [simp]: "no_heartbeat (Clear_export_queue # as) \<longleftrightarrow> no_heartbeat as"
  by (simp add: no_heartbeat_def)

lemma no_heartbeat_try_rebalance: "try_rebalance cf ee st b = Some acts \<Longrightarrow> no_heartbeat acts"
  using try_rebalance_acts unfolding no_heartbeat_def by blast

lemma no_heartbeat_send_ifbeat [simp]: "no_heartbeat (send_ifbeat me b t f ds)"
  by (simp add: no_heartbeat_def send_ifbeat_def)

lemma no_heartbeat_rebalance:
  assumes "heartbeat_rebalance cf mi me beat b = Some (b', acts)"
  shows "no_heartbeat acts"
proof -
  have "prep_rebalance cf rv beat b1 = (b2, acts', r) \<Longrightarrow> no_heartbeat acts'" for rv b1 b2 acts' r
    by (auto simp: prep_rebalance_def Let_def split: if_splits prod.splits)
  then have run: "run_prep_rebalance cf me beat b1 = Some (b2, acts') \<Longrightarrow> no_heartbeat acts'" for b1 b2 acts'
    by (auto simp: run_prep_rebalance_def bind_eq_Some_conv split: prod.splits option.splits
        dest: no_heartbeat_try_rebalance)
  have "mantle_prep_rebalance cf mi me b = Some (b1, acts', r) \<Longrightarrow> no_heartbeat acts'" for b1 acts' r
    by (auto simp: mantle_prep_rebalance_def Let_def bind_eq_Some_conv split: prod.splits if_splits
        dest: no_heartbeat_try_rebalance)
  then show ?thesis
    using assms run by (auto simp: heartbeat_rebalance_def bind_eq_Some_conv split: if_splits)
qed

lemma no_heartbeat_handle_ifbeat:
  assumes "handle_ifbeat srt cf me m b = Some (b', acts, fate)"
  shows "no_heartbeat acts"
  using assms
proof (cases rule: handle_ifbeat_cases)
  case (3 iops lv old)
  have "if_exporters me b1 thr f iops lv v ps = Some (acts', ret) \<Longrightarrow> no_heartbeat acts'" for b1 thr f v ps acts' ret
    by (induction ps arbitrary: acts') (auto simp: Let_def bind_eq_Some_conv split: if_split_asm option.split_asm)
  moreover have "simple_determine_rebalance ee ds b1 = (b2, acts') \<Longrightarrow> no_heartbeat acts'" for ee ds b1 b2 acts'
    using simple_determine_rebalance_acts unfolding no_heartbeat_def by blast
  ultimately show ?thesis
    using 3(2) by (auto simp: if_rebalance_def Let_def bind_eq_Some_conv split: if_split_asm option.split_asm prod.split_asm)
next
  case 4
  then show ?thesis using simple_determine_rebalance_acts unfolding no_heartbeat_def by blast
qed (auto simp: no_heartbeat_def)

lemma heartbeat_epoch_other:
  assumes "heartbeat_epoch me m b = (b', acts)" "me_whoami me \<noteq> 0"
  shows "b_beat_epoch b' = (if hb_source m = 0 then hb_beat m else max (b_beat_epoch b) (hb_beat m))"
    "balancer_wf b \<Longrightarrow> balancer_wf b'"
    "Send_heartbeat t l e im \<in> set acts \<Longrightarrow> e = hb_beat m \<and> t \<noteq> me_whoami me"
proof -
  define b1 where "b1 = (if hb_beat m > b_beat_epoch b then b\<lparr>b_beat_epoch := hb_beat m, b_mds_load := []\<rparr> else b)"
  define b3 where
    "b3 = (if b_beat_epoch b1 \<noteq> hb_beat m then b1\<lparr>b_mds_load := []\<rparr> else b1)\<lparr>b_beat_epoch := hb_beat m\<rparr>"
  obtain b4 acts1 where s: "send_heartbeat me b3 = (b4, acts1)" by fastforce
  note e = send_heartbeat_epoch [OF s]
  have h: "heartbeat_epoch me m b =
      (if hb_source m = 0 then (b4, acts1 @ send_ifbeat me b4 0 (-1) []) else (b1, []))"
    using assms(2) s unfolding b3_def b1_def by (auto simp: heartbeat_epoch_def Let_def)
  have b1: "b_beat_epoch b1 = max (b_beat_epoch b) (hb_beat m)" "balancer_wf b \<Longrightarrow> balancer_wf b1"
    by (simp_all add: b1_def balancer_wf_def)
  have b3: "b_beat_epoch b3 = hb_beat m" "balancer_wf b1 \<Longrightarrow> balancer_wf b3"
    by (simp_all add: b3_def balancer_wf_def)
  show "b_beat_epoch b' = (if hb_source m = 0 then hb_beat m else max (b_beat_epoch b) (hb_beat m))"
    using h assms e(2) b1(1) b3(1) by (auto split: if_splits)
  show "balancer_wf b \<Longrightarrow> balancer_wf b'" using h assms(1) e(3) b1(2) b3(2) by (auto split: if_splits)
  have ni: "Send_heartbeat t l e im \<notin> set (send_ifbeat me b4 0 (-1) [])"
    using no_heartbeat_send_ifbeat unfolding no_heartbeat_def by blast
  show "Send_heartbeat t l e im \<in> set acts \<Longrightarrow> e = hb_beat m \<and> t \<noteq> me_whoami me"
    using h assms e(2,4) b3(1) ni by (auto split: if_splits)
qed

lemma keeps_heartbeat_store: "keeps b (heartbeat_store m b)"
  by (simp add: heartbeat_store_def keeps_def balancer_wf_def)

lemma handle_heartbeat_cases:
  assumes "handle_heartbeat cf icf mi me m b = Some (b', acts, fate)"
  obtains "b' = b" "no_heartbeat acts"
  | b1 acts1 acts2 where "heartbeat_epoch me m b = (b1, acts1)" "keeps b1 b'" "acts = acts1 @ acts2" "no_heartbeat acts2"
proof (cases "me_active me \<and> me_open me \<and> \<not> me_degraded me")
  case False
  then show ?thesis
    using assms that(1) by (auto simp: handle_heartbeat_def no_heartbeat_def split: if_splits)
next
  case True
  obtain b1 acts1 where e: "heartbeat_epoch me m b = (b1, acts1)" by fastforce
  let ?b2 = "heartbeat_store m b1"
  show ?thesis
  proof (cases "mds_bal_ifenable icf = 0 \<and> length (b_mds_load ?b2) = me_num_in_mds me")
    case True
    then obtain acts2 where r: "heartbeat_rebalance cf mi me (hb_beat m) ?b2 = Some (b', acts2)" "acts = acts1 @ acts2"
      using assms e \<open>me_active me \<and> me_open me \<and> \<not> me_degraded me\<close>
      by (auto simp: handle_heartbeat_def bind_eq_Some_conv Let_def)
    have "keeps b1 b'" using keeps_heartbeat_store keeps_heartbeat_rebalance [OF r(1)] by (rule keeps_trans)
    then show ?thesis using that(2) e r(2) no_heartbeat_rebalance [OF r(1)] by blast
  next
    case False
    then have "b' = ?b2" "acts = acts1"
      using assms e \<open>me_active me \<and> me_open me \<and> \<not> me_degraded me\<close>
      by (auto simp: handle_heartbeat_def Let_def split: if_splits)
    then show ?thesis using that(2) [OF e, of "[]"] keeps_heartbeat_store by simp
  qed
qed

section \<open>Ranks that exchange heartbeats\<close>

text \<open>
  The state of the system: the balancer of every rank, and the heartbeats sent so far with their
  receivers. A heartbeat may be lost, delayed, overtaken or delivered again.
\<close>

type_synonym hb_sys = "(mds_rank_t \<Rightarrow> balancer) \<times> (mds_rank_t \<times> mheartbeat) set"

definition posts :: "mds_rank_t \<Rightarrow> bal_action list \<Rightarrow> (mds_rank_t \<times> mheartbeat) set" where
  "posts r acts =
     {(t, \<lparr>hb_source = r, hb_load = l, hb_beat = e, hb_import_map = im\<rparr>) | t l e im. Send_heartbeat t l e im \<in> set acts}"

text \<open>
  The steps: a rank sends a heartbeat (rank 0 from \<^verbatim>\<open>tick\<close>, any rank from the callback that waits for the root),
  handles a heartbeat, or handles an imbalance message.
\<close>

inductive hb_step :: "hb_sys \<Rightarrow> hb_sys \<Rightarrow> bool" where
  hb_send: "me_whoami me = r \<Longrightarrow> send_heartbeat me (bal r) = (b', acts) \<Longrightarrow>
     hb_step (bal, net) (bal(r := b'), net \<union> posts r acts)"
| hb_handle: "me_whoami me = r \<Longrightarrow> (r, m) \<in> net \<Longrightarrow>
     handle_heartbeat cf icf mi me m (bal r) = Some (b', acts, fate) \<Longrightarrow>
     hb_step (bal, net) (bal(r := b'), net \<union> posts r acts)"
| hb_handle_if: "me_whoami me = r \<Longrightarrow> handle_ifbeat srt icf me m (bal r) = Some (b', acts, fate) \<Longrightarrow>
     hb_step (bal, net) (bal(r := b'), net \<union> posts r acts)"

definition hb_init :: "(mds_rank_t \<Rightarrow> balancer) \<Rightarrow> hb_sys" where
  "hb_init bal = (bal, {})"

definition hb_inv :: "hb_sys \<Rightarrow> bool" where
  "hb_inv s \<longleftrightarrow> (\<forall>r. b_beat_epoch (fst s r) \<le> b_beat_epoch (fst s 0) \<and> balancer_wf (fst s r))
     \<and> (\<forall>(t, m)\<in>snd s. hb_source m \<noteq> t \<and> hb_beat m \<le> b_beat_epoch (fst s 0))"

lemma hb_inv_update:
  assumes "hb_inv (bal, net)" "balancer_wf b'"
    and "r = 0 \<Longrightarrow> b_beat_epoch (bal 0) \<le> b_beat_epoch b'" "r \<noteq> 0 \<Longrightarrow> b_beat_epoch b' \<le> b_beat_epoch (bal 0)"
    and sent: "\<And>t l e im. Send_heartbeat t l e im \<in> set acts \<Longrightarrow> t \<noteq> r \<and> e \<le> b_beat_epoch ((bal(r := b')) 0)"
  shows "hb_inv (bal(r := b'), net \<union> posts r acts)"
proof -
  have up: "b_beat_epoch (bal 0) \<le> b_beat_epoch ((bal(r := b')) 0)" using assms(3) by simp
  have le: "b_beat_epoch (bal q) \<le> b_beat_epoch (bal 0)" "balancer_wf (bal q)" for q
    using assms(1) by (auto simp: hb_inv_def)
  have "b_beat_epoch ((bal(r := b')) q) \<le> b_beat_epoch ((bal(r := b')) 0) \<and> balancer_wf ((bal(r := b')) q)" for q
    using le [of q] up assms(2,4) by (cases "r = 0") auto
  moreover have "hb_source m \<noteq> t \<and> hb_beat m \<le> b_beat_epoch ((bal(r := b')) 0)" if "(t, m) \<in> net" for t m
  proof -
    have "hb_source m \<noteq> t" "hb_beat m \<le> b_beat_epoch (bal 0)" using assms(1) that by (auto simp: hb_inv_def)
    then show ?thesis using up by linarith
  qed
  moreover have "hb_source m \<noteq> t \<and> hb_beat m \<le> b_beat_epoch ((bal(r := b')) 0)" if "(t, m) \<in> posts r acts" for t m
    using that sent by (fastforce simp: posts_def)
  ultimately show ?thesis
    unfolding hb_inv_def fst_conv snd_conv Ball_def split_paired_All case_prod_conv Un_iff by blast
qed

lemma hb_inv_handle:
  assumes inv: "hb_inv (bal, net)" and r: "me_whoami me = r" "(r, m) \<in> net"
    and h: "handle_heartbeat cf icf mi me m (bal r) = Some (b', acts, fate)"
  shows "hb_inv (bal(r := b'), net \<union> posts r acts)"
proof -
  have wf: "balancer_wf (bal r)" and m: "hb_source m \<noteq> r" "hb_beat m \<le> b_beat_epoch (bal 0)"
    and le: "b_beat_epoch (bal r) \<le> b_beat_epoch (bal 0)"
    using inv r(2) by (auto simp: hb_inv_def)
  from h show ?thesis
  proof (cases rule: handle_heartbeat_cases)
    case 1
    then show ?thesis using hb_inv_update [OF inv, of b' r acts] wf le by (auto simp: no_heartbeat_def)
  next
    case (2 b1 acts1 acts2)
    have k: "b_beat_epoch b' = b_beat_epoch b1" "balancer_wf b1 \<Longrightarrow> balancer_wf b'" using 2(2) by (auto simp: keeps_def)
    show ?thesis
    proof (cases "r = 0")
      case True
      then have "b1 = bal r" "acts1 = []" using 2(1) r(1) m(1) by (auto simp: heartbeat_epoch_def Let_def)
      then show ?thesis
        using hb_inv_update [OF inv k(2), of r acts] wf True k(1) 2(3,4) by (auto simp: no_heartbeat_def)
    next
      case False
      note e = heartbeat_epoch_other [OF 2(1)]
      have "b_beat_epoch b' \<le> b_beat_epoch (bal 0)" using e(1) False r(1) k(1) m(2) le by auto
      moreover have "t \<noteq> r \<and> e \<le> b_beat_epoch ((bal(r := b')) 0)" if "Send_heartbeat t l e im \<in> set acts" for t l e im
        using e(3) [of t l e im] False r(1) m(2) that 2(3,4) by (auto simp: no_heartbeat_def)
      ultimately show ?thesis using hb_inv_update [OF inv k(2) [OF e(2)], of r acts] wf False r(1) by auto
    qed
  qed
qed

lemma hb_inv_step: "hb_step s s' \<Longrightarrow> hb_inv s \<Longrightarrow> hb_inv s'"
proof (induction rule: hb_step.induct)
  case (hb_send me r bal b' acts net)
  have wf: "balancer_wf (bal r)" and le: "b_beat_epoch (bal r) \<le> b_beat_epoch (bal 0)"
    using hb_send.prems by (auto simp: hb_inv_def)
  note e = send_heartbeat_epoch [OF hb_send.hyps(2)]
  show ?case
    using e hb_send.hyps(1) wf le by (intro hb_inv_update [OF hb_send.prems]) auto
next
  case (hb_handle me r m net cf icf mi bal b' acts fate)
  then show ?case by (intro hb_inv_handle)
next
  case (hb_handle_if me r srt icf m bal b' acts fate net)
  have "keeps (bal r) b'" using keeps_handle_ifbeat [OF hb_handle_if.hyps(2)] .
  moreover have "balancer_wf (bal r)" "b_beat_epoch (bal r) \<le> b_beat_epoch (bal 0)"
    using hb_handle_if.prems by (auto simp: hb_inv_def)
  moreover have "no_heartbeat acts" using no_heartbeat_handle_ifbeat [OF hb_handle_if.hyps(2)] .
  ultimately show ?case by (intro hb_inv_update [OF hb_handle_if.prems]) (auto simp: keeps_def no_heartbeat_def)
qed

definition hb_start :: "hb_sys \<Rightarrow> bool" where
  "hb_start s \<longleftrightarrow> snd s = {} \<and> (\<forall>r. b_beat_epoch (fst s r) \<le> b_beat_epoch (fst s 0) \<and> balancer_wf (fst s r))"

interpretation hb: transition_system hb_start hb_step hb_inv
  by unfold_locales (simp_all add: hb_start_def hb_inv_def hb_inv_step [unfolded hb_inv_def])

section \<open>Properties\<close>

text \<open>
  C8: In every state the ranks reach by exchanging heartbeats and imbalance messages, whatever is lost,
  reordered or delivered twice, no rank is in a later epoch than rank 0, every heartbeat sent carries an epoch of
  at most that of rank 0 and was not sent to its sender, and the maps of every balancer have strictly increasing keys.
\<close>

theorem heartbeat_epochs_bounded:
  assumes "\<forall>r. b_beat_epoch (bal r) \<le> b_beat_epoch (bal 0) \<and> balancer_wf (bal r)" "hb_step\<^sup>*\<^sup>* (hb_init bal) s"
  shows "(\<forall>r. b_beat_epoch (fst s r) \<le> b_beat_epoch (fst s 0) \<and> balancer_wf (fst s r))
    \<and> (\<forall>(t, m)\<in>snd s. hb_source m \<noteq> t \<and> hb_beat m \<le> b_beat_epoch (fst s 0))"
proof -
  have "hb_start (hb_init bal)" using assms(1) by (simp add: hb_start_def hb_init_def)
  then have "hb_inv s" using hb.reach_inv assms(2) by blast
  then show ?thesis by (simp add: hb_inv_def)
qed

lemma sample_env_whoami: "me_whoami sample_env = 0"
  by (simp add: sample_env_def ex_env_def)

lemma sample_send:
  "send_heartbeat sample_env sample_balancer = (b', acts) \<Longrightarrow>
     b_beat_epoch b' = 2 \<and> Send_heartbeat 1 (mds_load_new utime_zero) 2 [] \<in> set acts"
  by (auto simp: send_heartbeat_def sample_env_def ex_env_def sample_balancer_def Let_def)

theorem heartbeat_epochs_bounded_witness:
  "\<exists>s. hb_step\<^sup>*\<^sup>* (hb_init (\<lambda>_. sample_balancer)) s \<and> b_beat_epoch (fst s 0) = 2 \<and> snd s \<noteq> {}
     \<and> (\<forall>r. b_beat_epoch (fst s r) \<le> 2)"
proof -
  obtain b' acts where s: "send_heartbeat sample_env sample_balancer = (b', acts)" by fastforce
  let ?s = "((\<lambda>_. sample_balancer)(0 := b'), posts 0 acts)"
  have "hb_step (hb_init (\<lambda>_. sample_balancer)) ?s"
    using hb_send [of sample_env 0 "\<lambda>_. sample_balancer" b' acts "{}"] s by (simp add: hb_init_def sample_env_whoami)
  then have r: "hb_step\<^sup>*\<^sup>* (hb_init (\<lambda>_. sample_balancer)) ?s" by blast
  have wf: "\<forall>r. b_beat_epoch ((\<lambda>_. sample_balancer) r) \<le> b_beat_epoch ((\<lambda>_. sample_balancer) 0)
      \<and> balancer_wf ((\<lambda>_. sample_balancer) r)"
    by (simp add: balancer_wf_def sample_balancer_def)
  have "posts 0 acts \<noteq> {}" using sample_send [OF s] by (auto simp: posts_def)
  then show ?thesis
    using heartbeat_epochs_bounded [OF wf r] sample_send [OF s] r by (intro exI [of _ ?s]) simp
qed

text \<open>
  C26: A rank other than 0 follows every heartbeat of rank 0, also an old one. When the heartbeat of a later epoch
  reached it first from a third rank, the older heartbeat of rank 0 takes it back to the older epoch
  and discards the loads collected for the later one.
\<close>

theorem heartbeat_epoch_can_go_back:
  assumes "me_active me" "me_open me" "\<not> me_degraded me" "me_whoami me \<noteq> 0" "mds_bal_ifenable icf \<noteq> 0"
    and "hb_source m = 0" "hb_beat m < b_beat_epoch b"
  shows "\<exists>b' acts. handle_heartbeat cf icf mi me m b = Some (b', acts, Msg_put)
    \<and> b_beat_epoch b' = hb_beat m \<and> dom (map_of (b_mds_load b')) = {0, me_whoami me}"
proof -
  obtain b1 acts1 where e: "heartbeat_epoch me m b = (b1, acts1)" by fastforce
  then have "b_mds_load b1 = omap_insert (me_whoami me) (me_load me) []" "b_beat_epoch b1 = hb_beat m"
    using assms by (auto simp: heartbeat_epoch_def send_heartbeat_def Let_def)
  then show ?thesis
    using assms e by (auto simp: handle_heartbeat_def heartbeat_store_def Let_def omap_insert_def)
qed

definition sample_mantle :: mantle_ifc where
  "sample_mantle = \<lparr>mi_localize = (- 2, [], []), mi_balance = (\<lambda>_ _ _. (0, []))\<rparr>"

theorem heartbeat_epoch_can_go_back_witness:
  "\<exists>b' acts. handle_heartbeat \<lparr>mds_thrash_exports = False, mds_bal_min_rebalance = 1 / 10\<rparr> sample_if_conf sample_mantle
      (sample_env\<lparr>me_ee := (ex_env 12)\<lparr>ee_whoami := 1\<rparr>\<rparr>)
      \<lparr>hb_source = 0, hb_load = mds_load_new utime_zero, hb_beat = 4, hb_import_map = []\<rparr>
      (sample_balancer\<lparr>b_beat_epoch := 5, b_mds_load := [(2, mds_load_new utime_zero)]\<rparr>) = Some (b', acts, Msg_put)
    \<and> b_beat_epoch b' = 4 \<and> dom (map_of (b_mds_load b')) = {0, 1}"
  using heartbeat_epoch_can_go_back [of "sample_env\<lparr>me_ee := (ex_env 12)\<lparr>ee_whoami := 1\<rparr>\<rparr>" sample_if_conf
      "\<lparr>hb_source = 0, hb_load = mds_load_new utime_zero, hb_beat = 4, hb_import_map = []\<rparr>"
      "sample_balancer\<lparr>b_beat_epoch := 5, b_mds_load := [(2, mds_load_new utime_zero)]\<rparr>"]
  by (simp add: sample_env_def sample_if_conf_def)

text \<open>Several ticks, each with its own view of the rank, and the actions of each.\<close>

fun tick_run ::
  "tick_conf \<Rightarrow> if_conf \<Rightarrow> (mds_env \<times> utime_t \<times> pin_inode list) list \<Rightarrow> tick_state \<Rightarrow> balancer
    \<Rightarrow> (tick_state \<times> balancer \<times> bal_action list list) option" where
  "tick_run tc icf [] ts b = Some (ts, b, [])"
| "tick_run tc icf ((me, now, q) # rs) ts b =
     do {
       (_, ts', b', acts) \<leftarrow> tick tc icf me now q ts b;
       (ts'', b'', actss) \<leftarrow> tick_run tc icf rs ts' b';
       Some (ts'', b'', acts # actss)
     }"

text \<open>What \<^verbatim>\<open>send_heartbeat\<close> does when it starts a round: it sends heartbeats, switches the epoch, or waits to do so.\<close>

fun is_heartbeat :: "bal_action \<Rightarrow> bool" where
  "is_heartbeat (Send_heartbeat _ _ _ _) = True"
| "is_heartbeat Wait_open_heartbeat = True"
| "is_heartbeat Switch_tracer_epoch = True"
| "is_heartbeat _ = False"

lemma pins_no_heartbeat:
  assumes "handle_export_pins me q = Some (kept, removed, acts)"
  shows "\<not> list_ex is_heartbeat acts"
proof -
  have frag: "\<not> list_ex is_heartbeat (fst (snd (pin_frag w p d)))" for w p d by (simp add: pin_frag_def)
  have "\<not> list_ex is_heartbeat acts" if "pin_inode_step w i = Some (i', acts, rm)" for w i i' acts rm
    using that frag by (auto simp: pin_inode_step_def Let_def list_ex_iff case_prod_beta split: if_splits)
  then have "\<not> list_ex is_heartbeat acts" if "pin_queue w q = Some (kept, removed, acts)" for w kept removed acts
    using that by (induction q arbitrary: kept removed acts) (fastforce simp: bind_eq_Some_conv split: if_splits)+
  then show ?thesis using assms by (auto simp: handle_export_pins_def bind_eq_Some_conv list_ex_iff)
qed

lemma send_heartbeat_switches:
  assumes "send_heartbeat me b = (b', acts)" "me_whoami me = 0"
  shows "b_beat_epoch b' = b_beat_epoch b + of_bool (Switch_tracer_epoch \<in> set acts)"
  using assms by (auto simp: send_heartbeat_def Let_def split: if_splits)

lemma tick_round:
  assumes "tick tc icf me now q ts b = Some (q', ts', b', acts)" "mds_bal_max_until tc < 0"
  shows "ts_num_bal_times ts' = ts_num_bal_times ts - 1 \<and> ts_num_bal_times ts \<noteq> 0
    \<or> ts' = ts \<and> \<not> list_ex is_heartbeat acts"
    and "b_beat_epoch b' = b_beat_epoch b + of_bool (Switch_tracer_epoch \<in> set acts)"
proof -
  define b1 where "b1 = (if utime_double now - utime_double (b_last_sample b) > mds_bal_sample_interval tc
    then b\<lparr>b_last_sample := now\<rparr> else b)"
  define b2 where "b2 = (if b_last_heartbeat b1 = utime_zero then b1\<lparr>b_last_heartbeat := now\<rparr> else b1)"
  have e: "b_beat_epoch (b2\<lparr>b_last_heartbeat := now\<rparr>) = b_beat_epoch b" "b_beat_epoch b2 = b_beat_epoch b"
    by (simp_all add: b2_def b1_def)
  obtain q1 acts1 where pins: "(if mds_bal_export_pin tc
      then map_option (\<lambda>(kept, _, acts). (kept, acts)) (handle_export_pins me q) else Some (q, [])) = Some (q1, acts1)"
    using assms(1) by (auto simp: tick_def bind_eq_Some_conv)
  then have p: "\<not> list_ex is_heartbeat acts1" using pins_no_heartbeat by (auto split: if_splits)
  have t: "tick tc icf me now q ts b = (if tick_balances tc icf me now ts (b_last_heartbeat b2)
       then (let (b3, acts') = send_heartbeat me (b2\<lparr>b_last_heartbeat := now\<rparr>)
             in Some (q1, ts\<lparr>ts_num_bal_times := ts_num_bal_times ts - 1\<rparr>, b3, acts1 @ acts'))
       else Some (q1, ts, b2, acts1))"
    unfolding tick_def pins by (simp add: b2_def b1_def Let_def)
  have c: "ts' = ts \<and> acts = acts1 \<and> b_beat_epoch b' = b_beat_epoch b
      \<or> ts' = ts\<lparr>ts_num_bal_times := ts_num_bal_times ts - 1\<rparr> \<and> ts_num_bal_times ts \<noteq> 0 \<and> me_whoami me = 0
        \<and> (\<exists>b2 acts2. b_beat_epoch b2 = b_beat_epoch b \<and> send_heartbeat me b2 = (b', acts2) \<and> acts = acts1 @ acts2)"
  proof (cases "tick_balances tc icf me now ts (b_last_heartbeat b2)")
    case True
    obtain b3 acts2 where h: "send_heartbeat me (b2\<lparr>b_last_heartbeat := now\<rparr>) = (b3, acts2)" by fastforce
    have "ts_num_bal_times ts \<noteq> 0 \<and> me_whoami me = 0" using True assms(2) by (auto simp: tick_balances_def)
    then show ?thesis using assms(1) True h e(1) by (auto simp: t)
  next
    case False
    then show ?thesis using assms(1) e(2) by (simp add: t)
  qed
  have "Switch_tracer_epoch \<notin> set acts1" using p by (auto simp: list_ex_iff)
  then show "b_beat_epoch b' = b_beat_epoch b + of_bool (Switch_tracer_epoch \<in> set acts)"
    using c send_heartbeat_switches by auto
  show "ts_num_bal_times ts' = ts_num_bal_times ts - 1 \<and> ts_num_bal_times ts \<noteq> 0
    \<or> ts' = ts \<and> \<not> list_ex is_heartbeat acts"
    using c p by auto
qed

text \<open>
  C27: Balancing ends: with \<^verbatim>\<open>mds_bal_max_until\<close> negative and a limit that is not negative, whatever the ticks see of the rank, at most as many
  of them as the limit allows start a round, that is send heartbeats, switch the epoch or wait to do so. What is left of the limit never gets negative, and the
  epoch is raised once in each tick that switches it.
\<close>

theorem tick_rounds_bounded:
  assumes "mds_bal_max_until tc < 0" "0 \<le> ts_num_bal_times ts" "tick_run tc icf rs ts b = Some (ts', b', actss)"
  shows "int (length (filter (list_ex is_heartbeat) actss)) \<le> ts_num_bal_times ts - ts_num_bal_times ts' \<and> 0 \<le> ts_num_bal_times ts'
    \<and> b_beat_epoch b' = b_beat_epoch b + int (length (filter (\<lambda>acts. Switch_tracer_epoch \<in> set acts) actss))"
  using assms(2,3)
proof (induction rs arbitrary: ts b actss)
  case (Cons r rs)
  obtain me now q where r: "r = (me, now, q)" by (metis prod_cases3)
  obtain q1 ts1 b1 acts1 actss1 where t: "tick tc icf me now q ts b = Some (q1, ts1, b1, acts1)"
    "tick_run tc icf rs ts1 b1 = Some (ts', b', actss1)" "actss = acts1 # actss1"
    using Cons.prems(2) by (auto simp: r bind_eq_Some_conv split: prod.splits)
  note k = tick_round [OF t(1) assms(1)]
  have "0 \<le> ts_num_bal_times ts1" using k(1) Cons.prems(1) by auto
  then show ?case using Cons.IH [OF _ t(2)] k by (auto simp: t(3))
qed simp

definition sample_time :: "u32 \<Rightarrow> utime_t" where
  "sample_time t = \<lparr>tv_sec = t, tv_nsec = 0\<rparr>"

theorem tick_rounds_bounded_witness:
  "\<exists>ts' b' actss. tick_run \<lparr>mds_bal_export_pin = True, mds_bal_sample_interval = 3, mds_bal_max = 1, mds_bal_max_until = -1\<rparr>
       sample_if_conf [(sample_env, sample_time 1, []), (sample_env, sample_time 5, []), (sample_env, sample_time 9, [])]
       \<lparr>ts_num_bal_times = 1, ts_first = utime_zero\<rparr> sample_balancer = Some (ts', b', actss)
     \<and> length (filter (list_ex is_heartbeat) actss) = 1 \<and> b_beat_epoch b' = 2"
proof -
  let ?tc = "\<lparr>mds_bal_export_pin = True, mds_bal_sample_interval = 3, mds_bal_max = 1, mds_bal_max_until = -1\<rparr>"
  let ?ts = "\<lparr>ts_num_bal_times = 1, ts_first = utime_zero\<rparr>"
  obtain ts' b' actss where r: "tick_run ?tc sample_if_conf
      [(sample_env, sample_time 1, []), (sample_env, sample_time 5, []), (sample_env, sample_time 9, [])] ?ts sample_balancer
      = Some (ts', b', actss)" and n: "length (filter (\<lambda>acts. Switch_tracer_epoch \<in> set acts) actss) = 1" 
      "1 \<le> length (filter (list_ex is_heartbeat) actss)"
    by (simp add: tick_def handle_export_pins_def tick_balances_def send_heartbeat_def sample_env_def ex_env_def
        sample_time_def sample_if_conf_def sample_balancer_def utime_zero_def utime_double_def Let_def)
  have "b_beat_epoch sample_balancer = 1" by (simp add: sample_balancer_def)
  then show ?thesis using r n tick_rounds_bounded [OF _ _ r] by auto
qed

text \<open>A fragment is where its pin wants it.\<close>

definition pin_settled :: "mds_rank_t \<Rightarrow> mds_rank_t \<Rightarrow> pin_dir \<Rightarrow> bool" where
  "pin_settled whoami pin d \<longleftrightarrow>
     \<not> pd_auth d \<or> pin = MDS_RANK_NONE \<and> \<not> pd_auxsubtree d \<or> pin = whoami \<and> pd_auxsubtree d \<and> pd_subtree_root d"

definition pin_ready :: "mds_rank_t \<Rightarrow> pin_inode \<Rightarrow> bool" where
  "pin_ready whoami i \<longleftrightarrow> (pi_export_pin i = MDS_RANK_NONE \<or> pi_export_pin i = whoami)
     \<and> (\<forall>d\<in>set (pi_frags i). \<not> pd_frozen d \<and> \<not> pd_freezing d \<and> \<not> pd_creating d)"

lemma pin_frag_settles:
  "pin_frag whoami pin d = (d', acts, True) \<Longrightarrow> pin_settled whoami pin d'"
  by (auto simp: pin_frag_def pin_settled_def split: if_splits)

lemma pin_frag_ok:
  "\<not> pd_frozen d \<Longrightarrow> \<not> pd_freezing d \<Longrightarrow> \<not> pd_creating d \<Longrightarrow> pin = MDS_RANK_NONE \<or> pin = whoami \<Longrightarrow>
     snd (snd (pin_frag whoami pin d))"
  by (auto simp: pin_frag_def)

lemma pin_inode_step_settles:
  assumes "pin_inode_step whoami i = Some (i', acts, True)"
  shows "\<not> pi_queued i' \<and> (\<forall>d\<in>set (pi_frags i'). pin_settled whoami (pi_export_pin i') d)"
proof -
  let ?rs = "map (pin_frag whoami (pi_export_pin i)) (pi_frags i)"
  have i': "i' = i\<lparr>pi_frags := map fst ?rs, pi_queued := False\<rparr>" and ok: "list_all (\<lambda>(_, _, ok). ok) ?rs"
    using assms by (auto simp: pin_inode_step_def Let_def split: if_splits)
  have "pin_settled whoami (pi_export_pin i) (fst (pin_frag whoami (pi_export_pin i) d))" if "d \<in> set (pi_frags i)" for d
    using ok that pin_frag_settles
    by (cases "pin_frag whoami (pi_export_pin i) d") (fastforce simp: list_all_iff)
  then show ?thesis by (simp add: i')
qed

text \<open>
  C28: An inode leaves the queue of export pins only when each of its fragments is settled: not auth, or not an auxiliary
  subtree for an inode without a pin, or an auxiliary subtree root for one pinned to this rank. When no fragment in the queue is
  frozen, freezing or being created and every pin is either none or this rank, one pass empties the
  queue.
\<close>

theorem export_pins_settle:
  assumes "\<forall>i\<in>set q. pi_is_dir i"
  shows "\<exists>kept removed acts. handle_export_pins me q = Some (kept, removed, acts)
    \<and> (\<forall>i\<in>set removed. \<not> pi_queued i \<and> (\<forall>d\<in>set (pi_frags i). pin_settled (me_whoami me) (pi_export_pin i) d))
    \<and> ((\<forall>i\<in>set q. pin_ready (me_whoami me) i) \<longrightarrow> kept = [])"
proof -
  have "\<exists>kept removed acts. pin_queue (me_whoami me) q = Some (kept, removed, acts)
    \<and> (\<forall>i\<in>set removed. \<not> pi_queued i \<and> (\<forall>d\<in>set (pi_frags i). pin_settled (me_whoami me) (pi_export_pin i) d))
    \<and> ((\<forall>i\<in>set q. pin_ready (me_whoami me) i) \<longrightarrow> kept = [])"
    using assms
  proof (induction q)
    case (Cons i q)
    have "\<forall>i\<in>set q. pi_is_dir i" using Cons.prems by simp
    from Cons.IH [OF this] obtain kept removed acts where q: "pin_queue (me_whoami me) q = Some (kept, removed, acts)"
      "\<forall>i\<in>set removed. \<not> pi_queued i \<and> (\<forall>d\<in>set (pi_frags i). pin_settled (me_whoami me) (pi_export_pin i) d)"
      "(\<forall>i\<in>set q. pin_ready (me_whoami me) i) \<longrightarrow> kept = []"
      by blast
    obtain i' acts1 rm where s: "pin_inode_step (me_whoami me) i = Some (i', acts1, rm)"
      using Cons.prems by (auto simp: pin_inode_step_def Let_def)
    have rm: "rm" if "pin_ready (me_whoami me) i"
      using s that pin_frag_ok [of _ "pi_export_pin i" "me_whoami me"]
      by (auto simp: pin_inode_step_def pin_ready_def Let_def list_all_iff case_prod_beta split: if_splits)
    show ?case
    proof (cases rm)
      case True
      then show ?thesis using q s pin_inode_step_settles [of "me_whoami me" i i' acts1] by auto
    next
      case False
      then show ?thesis using q s rm by auto
    qed
  qed simp
  then show ?thesis by (auto simp: handle_export_pins_def)
qed

definition sample_pin_inode :: pin_inode where
  "sample_pin_inode = \<lparr>pi_is_dir = True, pi_export_pin = 0, pi_queued = True, pi_frags =
     [\<lparr>pd_id = 7, pd_auth = True, pd_auxsubtree = False, pd_frozen = False, pd_freezing = False, pd_creating = False,
       pd_subtree_root = False\<rparr>]\<rparr>"

theorem export_pins_settle_witness:
  "\<exists>removed. handle_export_pins sample_env [sample_pin_inode] = Some ([], removed, [Adjust_subtree_auth 7 0])
     \<and> (\<forall>i\<in>set removed. \<not> pi_queued i)"
proof -
  have p: "\<forall>i\<in>set [sample_pin_inode]. pi_is_dir i" by (simp add: sample_pin_inode_def)
  have "snd (snd (the (handle_export_pins sample_env [sample_pin_inode]))) = [Adjust_subtree_auth 7 0]"
    by (simp add: handle_export_pins_def pin_inode_step_def pin_frag_def sample_pin_inode_def sample_env_def ex_env_def
        MDS_RANK_NONE_def)
  moreover have "\<forall>i\<in>set [sample_pin_inode]. pin_ready (me_whoami sample_env) i"
    by (simp add: pin_ready_def sample_pin_inode_def sample_env_whoami)
  ultimately show ?thesis using export_pins_settle [OF p, of sample_env] by auto
qed

end
