(* ===== verification/Frag.thy ===== *)
theory Frag
  imports Ceph_Prelude
begin

text \<open>
  Directory fragments, \<^verbatim>\<open>src/include/ceph_frag.h\<close>, \<^verbatim>\<open>src/common/ceph_frag.cc\<close> and the class \<^verbatim>\<open>frag_t\<close> of
  \<^verbatim>\<open>src/include/frag.h\<close>. A fragment is a 32-bit word: 8 bits for the length of a prefix and 24 bits for the
  prefix itself, at the most significant end. A shift by a negative amount, which the code would make for a
  prefix longer than 24 bits, is undefined; the lemmas assume at most 24 bits.
\<close>

unbundle bit_operations_syntax

section \<open>ceph\_frag.h\<close>

type_synonym frag = u32

definition ceph_frag_make :: "u32 \<Rightarrow> u32 \<Rightarrow> frag" where
  "ceph_frag_make b v = push_bit 24 b OR (v AND push_bit (unat (24 - b)) 0xffffff AND 0xffffff)"

definition ceph_frag_bits :: "frag \<Rightarrow> u32" where
  "ceph_frag_bits f = drop_bit 24 f"

definition ceph_frag_value :: "frag \<Rightarrow> u32" where
  "ceph_frag_value f = f AND 0xffffff"

definition ceph_frag_mask :: "frag \<Rightarrow> u32" where
  "ceph_frag_mask f = push_bit (unat (24 - ceph_frag_bits f)) 0xffffff AND 0xffffff"

definition ceph_frag_mask_shift :: "frag \<Rightarrow> u32" where
  "ceph_frag_mask_shift f = 24 - ceph_frag_bits f"

definition ceph_frag_contains_value :: "frag \<Rightarrow> u32 \<Rightarrow> bool" where
  "ceph_frag_contains_value f v \<longleftrightarrow> v AND ceph_frag_mask f = ceph_frag_value f"

definition ceph_frag_contains_frag :: "frag \<Rightarrow> frag \<Rightarrow> bool" where
  "ceph_frag_contains_frag f sub \<longleftrightarrow>
     ceph_frag_bits sub \<ge> ceph_frag_bits f \<and> ceph_frag_value sub AND ceph_frag_mask f = ceph_frag_value f"

definition ceph_frag_parent :: "frag \<Rightarrow> frag" where
  "ceph_frag_parent f = ceph_frag_make (ceph_frag_bits f - 1) (ceph_frag_value f AND push_bit 1 (ceph_frag_mask f))"

definition ceph_frag_is_left_child :: "frag \<Rightarrow> bool" where
  "ceph_frag_is_left_child f \<longleftrightarrow>
     ceph_frag_bits f > 0 \<and> ceph_frag_value f AND drop_bit (unat (ceph_frag_bits f)) 0x1000000 = 0"

definition ceph_frag_is_right_child :: "frag \<Rightarrow> bool" where
  "ceph_frag_is_right_child f \<longleftrightarrow>
     ceph_frag_bits f > 0 \<and> ceph_frag_value f AND drop_bit (unat (ceph_frag_bits f)) 0x1000000 = 1"

definition ceph_frag_sibling :: "frag \<Rightarrow> frag" where
  "ceph_frag_sibling f =
     ceph_frag_make (ceph_frag_bits f) (ceph_frag_value f XOR drop_bit (unat (ceph_frag_bits f)) 0x1000000)"

definition ceph_frag_left_child :: "frag \<Rightarrow> frag" where
  "ceph_frag_left_child f = ceph_frag_make (ceph_frag_bits f + 1) (ceph_frag_value f)"

definition ceph_frag_right_child :: "frag \<Rightarrow> frag" where
  "ceph_frag_right_child f =
     ceph_frag_make (ceph_frag_bits f + 1) (ceph_frag_value f OR drop_bit (unat (1 + ceph_frag_bits f)) 0x1000000)"

definition ceph_frag_make_child :: "frag \<Rightarrow> nat \<Rightarrow> nat \<Rightarrow> frag" where
  "ceph_frag_make_child f by i =
     (let newbits = ceph_frag_bits f + of_nat by
      in ceph_frag_make newbits (ceph_frag_value f OR push_bit (unat (24 - newbits)) (of_nat i)))"

definition ceph_frag_is_leftmost :: "frag \<Rightarrow> bool" where
  "ceph_frag_is_leftmost f \<longleftrightarrow> ceph_frag_value f = 0"

definition ceph_frag_is_rightmost :: "frag \<Rightarrow> bool" where
  "ceph_frag_is_rightmost f \<longleftrightarrow> ceph_frag_value f = ceph_frag_mask f"

definition ceph_frag_next :: "frag \<Rightarrow> frag" where
  "ceph_frag_next f =
     ceph_frag_make (ceph_frag_bits f) (ceph_frag_value f + drop_bit (unat (ceph_frag_bits f)) 0x1000000)"

definition ceph_frag_compare :: "frag \<Rightarrow> frag \<Rightarrow> int" where
  "ceph_frag_compare a b =
     (let va = ceph_frag_value a; vb = ceph_frag_value b in
      if va < vb then -1 else if va > vb then 1
      else
        (let va = ceph_frag_bits a; vb = ceph_frag_bits b in
         if va < vb then -1 else if va > vb then 1 else 0))"

section \<open>frag\_t\<close>

text \<open>The operations of \<^verbatim>\<open>frag_t\<close> that assert something; the others only call the functions above.\<close>

definition frag_root :: frag where
  "frag_root = 0"

definition frag_parent :: "frag \<Rightarrow> frag option" where
  "frag_parent f = (if ceph_frag_bits f > 0 then Some (ceph_frag_parent f) else None)"

definition frag_make_child :: "frag \<Rightarrow> nat \<Rightarrow> nat \<Rightarrow> frag option" where
  "frag_make_child f i nb = (if i < 2 ^ nb then Some (ceph_frag_make_child f nb i) else None)"

definition frag_split :: "frag \<Rightarrow> nat \<Rightarrow> frag list option" where
  "frag_split f nb = (if nb > 0 then those (map (\<lambda>i. frag_make_child f i nb) [0..<2 ^ nb]) else None)"

definition frag_get_sibling :: "frag \<Rightarrow> frag option" where
  "frag_get_sibling f = (if ceph_frag_bits f \<noteq> 0 then Some (ceph_frag_sibling f) else None)"

definition frag_next :: "frag \<Rightarrow> frag option" where
  "frag_next f = (if ceph_frag_is_rightmost f then None else Some (ceph_frag_next f))"

section \<open>The bits\<close>

abbreviation fbits :: "frag \<Rightarrow> nat" where
  "fbits f \<equiv> unat (ceph_frag_bits f)"

lemma bit_ffffff_int: "bit (0xffffff :: int) n \<longleftrightarrow> n < 24"
  using bit_mask_iff [of 24 n, where 'a = int] by (simp add: mask_eq_exp_minus_1)

lemma bit_ffffff_nat: "bit (0xffffff :: nat) n \<longleftrightarrow> n < 24"
  using bit_mask_iff [of 24 n, where 'a = nat] by (simp add: mask_eq_exp_minus_1)

lemmas bit_ffffff = bit_ffffff_int bit_ffffff_nat

lemma unat_24_minus: "unat b \<le> 24 \<Longrightarrow> unat (24 - b :: u32) = 24 - unat b"
  by (simp add: unat_sub word_le_nat_alt)

lemma bit_value [simp]: "bit (ceph_frag_value f) n \<longleftrightarrow> n < 24 \<and> bit f n"
  by (auto simp: ceph_frag_value_def bit_and_iff bit_ffffff)

lemma bit_frag_bits [simp]: "bit (ceph_frag_bits f) n \<longleftrightarrow> bit f (n + 24)"
  by (simp add: ceph_frag_bits_def bit_drop_bit_eq add.commute)

lemma bit_frag_mask [simp]: "fbits f \<le> 24 \<Longrightarrow> bit (ceph_frag_mask f) n \<longleftrightarrow> 24 - fbits f \<le> n \<and> n < 24"
  by (auto simp: ceph_frag_mask_def bit_and_iff bit_push_bit_iff bit_ffffff unat_24_minus)

lemma bit_make [simp]: "unat b \<le> 24 \<Longrightarrow> n < 24 \<Longrightarrow> bit (ceph_frag_make b v) n \<longleftrightarrow> 24 - unat b \<le> n \<and> bit v n"
  by (auto simp: ceph_frag_make_def bit_and_iff bit_or_iff bit_push_bit_iff bit_ffffff unat_24_minus)

lemma bit_high:
  assumes "unat (w :: u32) < 2 ^ m"
  shows "\<not> bit w m"
proof -
  have "unat (drop_bit m w) = 0"
    using unat_drop_bit_eq [of m w] assms by (simp only: drop_bit_eq_div [where 'a = nat] div_less)
  then have "drop_bit m w = 0" by (simp add: unat_eq_zero)
  then show ?thesis by (simp add: bit_iff_odd_drop_bit)
qed

lemma bits_make [simp]:
  assumes "unat b \<le> 24"
  shows "ceph_frag_bits (ceph_frag_make b v) = b"
proof (rule bit_word_eqI)
  fix n assume "n < LENGTH(32)"
  have "\<not> bit b m" if "8 \<le> m" for m
    using assms power_increasing [OF that, of "2 :: nat"] by (intro bit_high) simp
  moreover have "bit b n \<Longrightarrow> n < 8" using calculation not_le by blast
  ultimately show "bit (ceph_frag_bits (ceph_frag_make b v)) n = bit b n"
    by (auto simp: ceph_frag_make_def bit_and_iff bit_or_iff bit_push_bit_iff bit_ffffff)
qed

lemma frag_eqI:
  assumes "ceph_frag_bits f = ceph_frag_bits g" "ceph_frag_value f = ceph_frag_value g"
  shows "f = g"
proof (rule bit_word_eqI)
  fix n assume "n < LENGTH(32)"
  show "bit f n = bit g n"
  proof (cases "n < 24")
    case True
    then show ?thesis using bit_value [of f n] bit_value [of g n] assms(2) by simp
  next
    case False
    then show ?thesis using bit_frag_bits [of f "n - 24"] bit_frag_bits [of g "n - 24"] assms(1) by simp
  qed
qed

text \<open>A fragment in normal form: at most 24 bits of prefix, and nothing behind the prefix.\<close>

definition frag_ok :: "frag \<Rightarrow> bool" where
  "frag_ok f \<longleftrightarrow> fbits f \<le> 24 \<and> (\<forall>n<24 - fbits f. \<not> bit f n)"

lemma frag_ok_make [simp]: "unat b \<le> 24 \<Longrightarrow> frag_ok (ceph_frag_make b v)"
  by (simp add: frag_ok_def)

lemma contains_value_bits:
  assumes "frag_ok f"
  shows "ceph_frag_contains_value f v \<longleftrightarrow> (\<forall>n. 24 - fbits f \<le> n \<and> n < 24 \<longrightarrow> bit v n = bit f n)"
proof -
  have "bit (v AND ceph_frag_mask f) n = bit (ceph_frag_value f) n \<longleftrightarrow>
      (24 - fbits f \<le> n \<and> n < 24 \<longrightarrow> bit v n = bit f n)" for n
    using assms by (auto simp: bit_and_iff frag_ok_def not_le [symmetric])
  then show ?thesis unfolding ceph_frag_contains_value_def bit_eq_iff by auto
qed

lemma contains_frag_bits:
  assumes "frag_ok f"
  shows "ceph_frag_contains_frag f g \<longleftrightarrow>
    fbits f \<le> fbits g \<and> (\<forall>n. 24 - fbits f \<le> n \<and> n < 24 \<longrightarrow> bit g n = bit f n)"
proof -
  have "bit (ceph_frag_value g AND ceph_frag_mask f) n = bit (ceph_frag_value f) n \<longleftrightarrow>
      (24 - fbits f \<le> n \<and> n < 24 \<longrightarrow> bit g n = bit f n)" for n
    using assms by (auto simp: bit_and_iff frag_ok_def not_le [symmetric])
  then show ?thesis unfolding ceph_frag_contains_frag_def bit_eq_iff word_le_nat_alt by auto
qed

section \<open>The operations on normal fragments\<close>

lemma frag_ok_fbits: "frag_ok f \<Longrightarrow> fbits f \<le> 24"
  by (simp add: frag_ok_def)

lemma frag_ext:
  assumes "frag_ok f" "frag_ok g" "fbits f = fbits g" "\<And>n. 24 - fbits f \<le> n \<Longrightarrow> n < 24 \<Longrightarrow> bit f n = bit g n"
  shows "f = g"
proof (rule frag_eqI)
  show "ceph_frag_bits f = ceph_frag_bits g" using assms(3) by (rule word_unat_eq_iff [THEN iffD2])
  have "bit f n = bit g n" if "n < 24" for n
    using assms that by (cases "24 - fbits f \<le> n") (auto simp: frag_ok_def)
  then show "ceph_frag_value f = ceph_frag_value g" by (intro bit_word_eqI) auto
qed

lemma unat_plus_nat: "unat (b :: u32) + n \<le> 24 \<Longrightarrow> unat (b + of_nat n) = unat b + n"
  by (simp add: unat_word_ariths unat_of_nat)

lemma unat_minus_one: "0 < unat (b :: u32) \<Longrightarrow> unat (b - 1) = unat b - 1"
  by (simp add: unat_sub word_le_nat_alt Suc_le_eq)

lemma bit_nat_high: "(i :: nat) < 2 ^ k \<Longrightarrow> k \<le> n \<Longrightarrow> \<not> bit i n"
  using less_le_trans [OF _ power_increasing [of k n "2 :: nat"], of i] by (simp add: bit_iff_odd)

lemma bit_unat_word: "bit (unat (v :: u32)) n \<longleftrightarrow> bit v n"
proof -
  have "bit v n \<longleftrightarrow> n < 32 \<and> bit (unat v) n" using bit_of_nat_iff [of "unat v" n, where 'a = "32 word"] by simp
  moreover have "unat v < 2 ^ LENGTH(32)" by (rule unsigned_less)
  then have "n < 32" if "bit (unat v) n"
    using that bit_nat_high [of "unat v" 32 n] by (cases "32 \<le> n") auto
  ultimately show ?thesis by auto
qed

lemma bit_of_nat_u32: "i < 2 ^ 24 \<Longrightarrow> bit (of_nat i :: u32) n \<longleftrightarrow> bit i n"
  using bit_nat_high [of i 24 n] by (cases "24 \<le> n") (auto simp: bit_of_nat_iff)

lemma make_child_bits:
  assumes "fbits f + nb \<le> 24"
  shows "fbits (ceph_frag_make_child f nb i) = fbits f + nb"
  using assms by (simp add: ceph_frag_make_child_def Let_def unat_plus_nat)

lemma make_child_bit:
  assumes "frag_ok f" "fbits f + nb \<le> 24" "i < 2 ^ nb" "n < 24"
  shows "bit (ceph_frag_make_child f nb i) n \<longleftrightarrow>
    24 - fbits f \<le> n \<and> bit f n \<or> 24 - fbits f - nb \<le> n \<and> n < 24 - fbits f \<and> bit i (n - (24 - fbits f - nb))"
proof -
  let ?b = "ceph_frag_bits f + of_nat nb"
  have b: "unat ?b = fbits f + nb" using assms(2) by (rule unat_plus_nat)
  have "(2 :: nat) ^ nb \<le> 2 ^ 24" using assms(2) by (intro power_increasing) auto
  then have i: "bit (of_nat i :: u32) m \<longleftrightarrow> bit i m" for m using assms(3) by (intro bit_of_nat_u32) linarith
  have hi: "\<not> bit i m" if "nb \<le> m" for m using bit_nat_high [OF assms(3) that] .
  have lo: "\<not> bit f n" if "n < 24 - fbits f" using assms(1) that by (simp add: frag_ok_def)
  have "24 - fbits f \<le> n \<Longrightarrow> \<not> bit i (n - (24 - fbits f - nb))" using assms(2) by (intro hi) linarith
  then show ?thesis
    using assms(2,4) lo b by (cases "24 - fbits f \<le> n") (auto simp: ceph_frag_make_child_def Let_def bit_or_iff bit_push_bit_iff i unat_24_minus)
qed

lemma frag_ok_make_child: "fbits f + nb \<le> 24 \<Longrightarrow> frag_ok (ceph_frag_make_child f nb i)"
  by (simp add: ceph_frag_make_child_def Let_def unat_plus_nat)

text \<open>The child of a fragment that a value belongs to.\<close>

definition child_index :: "frag \<Rightarrow> nat \<Rightarrow> u32 \<Rightarrow> nat" where
  "child_index f nb v = take_bit nb (drop_bit (24 - fbits f - nb) (unat v))"

lemma child_index_less: "child_index f nb v < 2 ^ nb"
  by (simp add: child_index_def take_bit_nat_less_exp)

lemma contains_child:
  assumes "frag_ok f" "fbits f + nb \<le> 24" "i < 2 ^ nb"
  shows "ceph_frag_contains_value (ceph_frag_make_child f nb i) v \<longleftrightarrow>
    ceph_frag_contains_value f v \<and> i = child_index f nb v"
proof -
  let ?c = "ceph_frag_make_child f nb i" and ?k = "24 - fbits f - nb"
  have c: "ceph_frag_contains_value ?c v \<longleftrightarrow> (\<forall>n. ?k \<le> n \<and> n < 24 \<longrightarrow> bit v n = bit ?c n)"
    using contains_value_bits [OF frag_ok_make_child [OF assms(2)], of i v] make_child_bits [OF assms(2)] by simp
  have "i = child_index f nb v \<longleftrightarrow> (\<forall>m. bit i m = (m < nb \<and> bit v (m + ?k)))"
    by (simp add: bit_eq_iff child_index_def bit_take_bit_iff bit_drop_bit_eq bit_unat_word add.commute)
  also have "\<dots> \<longleftrightarrow> (\<forall>m<nb. bit i m = bit v (m + ?k))"
    using bit_nat_high [OF assms(3)] by (meson not_le)
  also have "\<dots> \<longleftrightarrow> (\<forall>n. ?k \<le> n \<and> n < 24 - fbits f \<longrightarrow> bit v n = bit i (n - ?k))"
  proof (rule iffI; intro allI impI)
    fix n assume l: "\<forall>m<nb. bit i m = bit v (m + ?k)" and n: "?k \<le> n \<and> n < 24 - fbits f"
    then have "n - ?k < nb" by linarith
    then show "bit v n = bit i (n - ?k)" using l n by simp
  next
    fix m assume l: "\<forall>n. ?k \<le> n \<and> n < 24 - fbits f \<longrightarrow> bit v n = bit i (n - ?k)" and m: "m < nb"
    have "?k \<le> m + ?k \<and> m + ?k < 24 - fbits f" using m assms(2) by linarith
    then have "bit v (m + ?k) = bit i (m + ?k - ?k)" using l by blast
    then show "bit i m = bit v (m + ?k)" by (simp only: add_diff_cancel_right')
  qed
  finally have i: "i = child_index f nb v \<longleftrightarrow>
      (\<forall>n. ?k \<le> n \<and> n < 24 - fbits f \<longrightarrow> bit v n = bit i (n - ?k))" .
  have "bit v n = bit ?c n \<longleftrightarrow>
      (if 24 - fbits f \<le> n then bit v n = bit f n else bit v n = bit i (n - ?k))" if "?k \<le> n" "n < 24" for n
    using make_child_bit [OF assms that(2)] that by auto
  then show ?thesis unfolding c i contains_value_bits [OF assms(1)] by (smt (verit) diff_le_self le_trans not_le)
qed

lemma those_map_Some: "(\<And>x. x \<in> set xs \<Longrightarrow> f x = Some (g x)) \<Longrightarrow> those (map f xs) = Some (map g xs)"
  by (induction xs) auto

lemma frag_split_eq: "0 < nb \<Longrightarrow> frag_split f nb = Some (map (ceph_frag_make_child f nb) [0..<2 ^ nb])"
  using those_map_Some [of "[0..<2 ^ nb]" "\<lambda>i. frag_make_child f i nb" "ceph_frag_make_child f nb"]
  by (simp add: frag_split_def frag_make_child_def)

lemma make_child_inj:
  assumes "frag_ok f" "fbits f + nb \<le> 24" "i < 2 ^ nb" "j < 2 ^ nb"
    "ceph_frag_make_child f nb i = ceph_frag_make_child f nb j"
  shows "i = j"
proof (rule bit_eqI)
  fix n
  let ?k = "24 - fbits f - nb"
  show "bit i n = bit j n"
  proof (cases "n < nb")
    case True
    then have "?k \<le> n + ?k" "n + ?k < 24 - fbits f" "n + ?k < 24" using assms(2) by linarith+
    then show ?thesis
      using make_child_bit [OF assms(1-3), of "n + ?k"] make_child_bit [OF assms(1,2,4), of "n + ?k"] assms(5)
      by (simp only: add_diff_cancel_right') auto
  next
    case False
    then show ?thesis using bit_nat_high [OF assms(3)] bit_nat_high [OF assms(4)] by simp
  qed
qed

lemma make_child_make_child:
  assumes "frag_ok f" "fbits f + nb + cb \<le> 24" "i < 2 ^ nb" "j < 2 ^ cb"
  shows "ceph_frag_make_child (ceph_frag_make_child f nb i) cb j = ceph_frag_make_child f (nb + cb) (i * 2 ^ cb + j)"
proof -
  let ?c = "ceph_frag_make_child f nb i"
  have nb: "fbits f + nb \<le> 24" and all: "fbits f + (nb + cb) \<le> 24" using assms(2) by simp_all
  note c = frag_ok_make_child [OF nb, of i] make_child_bits [OF nb, of i]
  have cb: "fbits ?c + cb \<le> 24" using c assms(2) by simp
  have "i * 2 ^ cb + j < (i + 1) * 2 ^ cb" using assms(4) by simp
  also have "\<dots> \<le> 2 ^ nb * 2 ^ cb" using assms(3) by (intro mult_right_mono) simp_all
  finally have ij: "i * 2 ^ cb + j < 2 ^ (nb + cb)" by (simp add: power_add)
  have "i * 2 ^ cb + j = push_bit cb i OR j"
    using bit_nat_high [OF assms(4)]
    by (simp add: push_bit_eq_mult [symmetric] disjunctive_add bit_push_bit_iff)
  then have bij: "bit (i * 2 ^ cb + j) n \<longleftrightarrow> (if cb \<le> n then bit i (n - cb) else bit j n)" for n
    using bit_nat_high [OF assms(4), of n] by (auto simp: bit_or_iff bit_push_bit_iff)
  show ?thesis
  proof (rule frag_ext)
    show "fbits (ceph_frag_make_child ?c cb j) = fbits (ceph_frag_make_child f (nb + cb) (i * 2 ^ cb + j))"
      using make_child_bits [OF cb] make_child_bits [OF all] c by simp
    fix n assume n: "24 - fbits (ceph_frag_make_child ?c cb j) \<le> n" "n < 24"
    define k where "k = 24 - fbits f - (nb + cb)"
    have k: "24 - fbits f - (nb + cb) = k" "24 - fbits ?c - cb = k" "24 - fbits ?c = k + cb"
        "24 - fbits f - nb = k + cb" "24 - fbits f = k + cb + nb"
      using c assms(2) by (simp_all add: k_def)
    show "bit (ceph_frag_make_child ?c cb j) n = bit (ceph_frag_make_child f (nb + cb) (i * 2 ^ cb + j)) n"
      unfolding make_child_bit [OF c(1) cb assms(4) n(2)] make_child_bit [OF assms(1) all ij n(2)]
        make_child_bit [OF assms(1) nb assms(3) n(2)] bij k
      by (cases "k + cb \<le> n"; cases "k + cb + nb \<le> n") (auto simp: add.commute)
  qed (use c cb all in \<open>simp_all add: frag_ok_make_child\<close>)
qed

lemma parent_bits:
  assumes "frag_ok f" "0 < fbits f"
  shows "fbits (ceph_frag_parent f) = fbits f - 1" "frag_ok (ceph_frag_parent f)"
    "n < 24 \<Longrightarrow> bit (ceph_frag_parent f) n \<longleftrightarrow> 25 - fbits f \<le> n \<and> bit f n"
proof -
  have b: "unat (ceph_frag_bits f - 1) = fbits f - 1" "fbits f - 1 \<le> 24"
    using unat_minus_one [OF assms(2)] frag_ok_fbits [OF assms(1)] by simp_all
  show "fbits (ceph_frag_parent f) = fbits f - 1" "frag_ok (ceph_frag_parent f)"
    using b by (simp_all add: ceph_frag_parent_def)
  have "bit (ceph_frag_value f AND push_bit 1 (ceph_frag_mask f)) n \<longleftrightarrow> 25 - fbits f \<le> n \<and> bit f n" if "n < 24"
    unfolding bit_and_iff bit_push_bit_iff using that assms(2) frag_ok_fbits [OF assms(1)] by auto
  then show "n < 24 \<Longrightarrow> bit (ceph_frag_parent f) n \<longleftrightarrow> 25 - fbits f \<le> n \<and> bit f n"
    unfolding ceph_frag_parent_def using b assms(2) by auto
qed

text \<open>The binary operations are the general ones for one bit.\<close>

lemma bit_power_of_two: "bit (drop_bit k (0x1000000 :: u32)) n \<longleftrightarrow> k \<le> 24 \<and> n = 24 - k"
proof -
  have e: "(0x1000000 :: u32) = 2 ^ 24" by simp
  have "bit (drop_bit k (2 ^ 24 :: u32)) n \<longleftrightarrow> k + n = 24"
    unfolding bit_drop_bit_eq bit_exp_iff by (auto simp: possible_bit_word)
  then show ?thesis unfolding e by auto
qed

lemma left_child_eq: "frag_ok f \<Longrightarrow> fbits f < 24 \<Longrightarrow> ceph_frag_left_child f = ceph_frag_make_child f 1 0"
  by (simp add: ceph_frag_left_child_def ceph_frag_make_child_def)

lemma right_child_eq:
  assumes "frag_ok f" "fbits f < 24"
  shows "ceph_frag_right_child f = ceph_frag_make_child f 1 1"
proof -
  have b: "unat (1 + ceph_frag_bits f) = Suc (fbits f)" "unat (ceph_frag_bits f + 1) = Suc (fbits f)"
    using unat_plus_nat [of "ceph_frag_bits f" 1] assms(2) by (simp_all add: add.commute)
  have "drop_bit (unat (1 + ceph_frag_bits f)) (0x1000000 :: u32) = push_bit (unat (24 - (ceph_frag_bits f + 1))) 1"
  proof (rule bit_word_eqI)
    fix n assume "n < LENGTH(32)"
    have "unat (24 - (ceph_frag_bits f + 1)) = 24 - Suc (fbits f)" using unat_24_minus [of "ceph_frag_bits f + 1"] assms(2) b by simp
    then show "bit (drop_bit (unat (1 + ceph_frag_bits f)) (0x1000000 :: u32)) n
        = bit (push_bit (unat (24 - (ceph_frag_bits f + 1))) (1 :: u32)) n"
      unfolding bit_power_of_two bit_push_bit_iff b(1) using assms(2) by (auto simp: bit_1_iff)
  qed
  then show ?thesis unfolding ceph_frag_right_child_def ceph_frag_make_child_def by simp
qed

lemma parent_child:
  assumes "frag_ok f" "fbits f < 24" "i < 2"
  shows "ceph_frag_parent (ceph_frag_make_child f 1 i) = f"
proof -
  let ?c = "ceph_frag_make_child f 1 i"
  have c: "frag_ok ?c" "fbits ?c = fbits f + 1" using assms by (simp_all add: frag_ok_make_child make_child_bits)
  note p = parent_bits [OF c(1)]
  show ?thesis
  proof (rule frag_ext)
    fix n assume n: "24 - fbits (ceph_frag_parent ?c) \<le> n" "n < 24"
    then show "bit (ceph_frag_parent ?c) n = bit f n"
      using p(1,3) c(2) make_child_bit [OF assms(1), of 1 i n] assms by auto
  qed (use p c assms(1) in simp_all)
qed

lemma sibling_bits:
  assumes "frag_ok f" "0 < fbits f"
  shows "fbits (ceph_frag_sibling f) = fbits f" "frag_ok (ceph_frag_sibling f)"
    "n < 24 \<Longrightarrow> bit (ceph_frag_sibling f) n \<longleftrightarrow> (if n = 24 - fbits f then \<not> bit f n else bit f n)"
proof -
  note b = frag_ok_fbits [OF assms(1)]
  show "fbits (ceph_frag_sibling f) = fbits f" "frag_ok (ceph_frag_sibling f)"
    using b by (simp_all add: ceph_frag_sibling_def)
  show "n < 24 \<Longrightarrow> bit (ceph_frag_sibling f) n \<longleftrightarrow> (if n = 24 - fbits f then \<not> bit f n else bit f n)"
    unfolding ceph_frag_sibling_def using b assms
    by (cases "24 - fbits f \<le> n") (auto simp: bit_xor_iff bit_power_of_two frag_ok_def)
qed

lemma parent_contains:
  assumes "frag_ok f" "0 < fbits f"
  shows "ceph_frag_contains_value (ceph_frag_parent f) v \<longleftrightarrow>
    ceph_frag_contains_value f v \<or> ceph_frag_contains_value (ceph_frag_sibling f) v"
proof -
  note p = parent_bits [OF assms] and s = sibling_bits [OF assms] and b = frag_ok_fbits [OF assms(1)]
  let ?top = "24 - fbits f"
  have top: "?top < 24" using assms(2) by simp
  have sp: "(\<forall>n. ?top \<le> n \<and> n < 24 \<longrightarrow> P n) \<longleftrightarrow> P ?top \<and> (\<forall>n. ?top < n \<and> n < 24 \<longrightarrow> P n)" for P
    using top by (metis le_neq_implies_less less_imp_le le_refl)
  have k: "24 - (fbits f - 1) \<le> n \<longleftrightarrow> ?top < n" for n using assms(2) b by auto
  have e: "bit (ceph_frag_parent f) n = bit f n" "bit (ceph_frag_sibling f) n = bit f n" if "?top < n \<and> n < 24" for n
    using p(3) s(3) that by auto
  have st: "bit (ceph_frag_sibling f) ?top = (\<not> bit f ?top)" using s(3) [OF top] by simp
  have "ceph_frag_contains_value (ceph_frag_parent f) v \<longleftrightarrow> (\<forall>n. ?top < n \<and> n < 24 \<longrightarrow> bit v n = bit f n)"
    unfolding contains_value_bits [OF p(2)] p(1) k using e(1) by blast
  moreover have "ceph_frag_contains_value (ceph_frag_sibling f) v \<longleftrightarrow>
      bit v ?top = (\<not> bit f ?top) \<and> (\<forall>n. ?top < n \<and> n < 24 \<longrightarrow> bit v n = bit f n)"
    unfolding contains_value_bits [OF s(2)] s(1) sp st using e(2) by blast
  moreover have "ceph_frag_contains_value f v \<longleftrightarrow>
      bit v ?top = bit f ?top \<and> (\<forall>n. ?top < n \<and> n < 24 \<longrightarrow> bit v n = bit f n)"
    unfolding contains_value_bits [OF assms(1)] sp by blast
  ultimately show ?thesis by blast
qed

section \<open>Left and right\<close>

lemma child_side_bit:
  "frag_ok f \<Longrightarrow> bit (ceph_frag_value f AND drop_bit (fbits f) 0x1000000) n \<longleftrightarrow> 0 < fbits f \<and> n = 24 - fbits f \<and> bit f n"
  using frag_ok_fbits [of f] by (auto simp: bit_and_iff bit_power_of_two)

text \<open>
  C40: \<^verbatim>\<open>ceph_frag_is_right_child\<close> compares the bit that tells the two children apart with 1: it answers no for the
  right child of every fragment of less than 23 bits, for which \<^verbatim>\<open>ceph_frag_is_left_child\<close> answers no as well.
\<close>

theorem is_right_child_misses:
  assumes "frag_ok f" "fbits f < 23"
  shows "\<not> ceph_frag_is_right_child (ceph_frag_right_child f) \<and> \<not> ceph_frag_is_left_child (ceph_frag_right_child f)"
proof -
  let ?r = "ceph_frag_right_child f"
  have b: "fbits f + 1 \<le> 24" using assms(2) by simp
  have r: "?r = ceph_frag_make_child f 1 1" using right_child_eq assms by simp
  have ok: "frag_ok ?r" "fbits ?r = fbits f + 1" unfolding r using frag_ok_make_child [OF b] make_child_bits [OF b] by auto
  have "bit ?r (24 - fbits ?r)" unfolding r using make_child_bit [OF assms(1) b] make_child_bits [OF b] assms(2)
    by (auto simp: bit_0)
  then have "bit (ceph_frag_value ?r AND drop_bit (fbits ?r) 0x1000000) (24 - fbits ?r)" using child_side_bit [OF ok(1)] ok(2) by simp
  moreover have "\<not> bit (ceph_frag_value ?r AND drop_bit (fbits ?r) 0x1000000) 0" using child_side_bit [OF ok(1)] ok(2) assms(2) by simp
  ultimately show ?thesis by (auto simp: ceph_frag_is_right_child_def ceph_frag_is_left_child_def)
qed

theorem is_right_child_misses_witness:
  "\<not> ceph_frag_is_right_child (ceph_frag_right_child frag_root) \<and> \<not> ceph_frag_is_left_child (ceph_frag_right_child frag_root)"
  using is_right_child_misses [of frag_root] by (simp add: frag_root_def frag_ok_def ceph_frag_bits_def)

end
