(* ===== verification/Frag_Tree.thy ===== *)
theory Frag_Tree
  imports Frag
begin

text \<open>
  The fragment tree of a directory, class \<^verbatim>\<open>fragtree_t\<close> of \<^verbatim>\<open>src/include/frag.h\<close>: a map from the fragments that are
  split to the number of bits by which they are. The loops that follow the tree may not end for a
  map that is no tree; they are partial functions, and \<^verbatim>\<open>None\<close> also stands for a failed assertion.
\<close>

section \<open>fragtree\_t\<close>

type_synonym fragtree = "(frag \<times> nat) list"

definition get_split :: "fragtree \<Rightarrow> frag \<Rightarrow> nat" where
  "get_split t hb = (case map_of t hb of None \<Rightarrow> 0 | Some b \<Rightarrow> b)"

text \<open>\<^verbatim>\<open>get_leaves_under_split\<close>; the head of the list is the back of the queue.\<close>

partial_function (option) leaves_loop :: "fragtree \<Rightarrow> frag list \<Rightarrow> frag list \<Rightarrow> frag list option" where
  "leaves_loop t q ls =
     (case q of
        [] \<Rightarrow> Some ls
      | x # q' \<Rightarrow>
          (if get_split t x \<noteq> 0
           then frag_split x (get_split t x) \<bind> (\<lambda>cs. leaves_loop t (rev cs @ q') ls)
           else leaves_loop t q' (x # ls)))"

definition get_leaves_under_split :: "fragtree \<Rightarrow> frag \<Rightarrow> frag list option" where
  "get_leaves_under_split t x = leaves_loop t [x] []"

definition get_leaves :: "fragtree \<Rightarrow> frag list option" where
  "get_leaves t = get_leaves_under_split t frag_root"

partial_function (option) get_branch :: "fragtree \<Rightarrow> frag \<Rightarrow> frag option" where
  "get_branch t x =
     (if x = frag_root then Some x
      else if get_split t x \<noteq> 0 then Some x
      else frag_parent x \<bind> get_branch t)"

partial_function (option) get_branch_above :: "fragtree \<Rightarrow> frag \<Rightarrow> frag option" where
  "get_branch_above t x =
     (if x = frag_root then Some x
      else frag_parent x \<bind> (\<lambda>p. if get_split t p \<noteq> 0 then Some p else get_branch_above t p))"

definition get_branch_or_leaf :: "fragtree \<Rightarrow> frag \<Rightarrow> frag option" where
  "get_branch_or_leaf t x =
     get_branch t x \<bind> (\<lambda>branch.
       let nb = get_split t branch in
       if nb > 0 \<and> fbits branch + nb \<le> fbits x
       then Some (ceph_frag_make (ceph_frag_bits branch + of_nat nb) (ceph_frag_value x))
       else Some branch)"

partial_function (option) leaves_under_loop :: "fragtree \<Rightarrow> frag \<Rightarrow> frag list \<Rightarrow> frag list \<Rightarrow> frag list option" where
  "leaves_under_loop t x q ls =
     (case q of
        [] \<Rightarrow> Some ls
      | y # q' \<Rightarrow>
          (if ceph_frag_bits y \<ge> ceph_frag_bits x \<and> \<not> ceph_frag_contains_frag x y then leaves_under_loop t x q' ls
           else if get_split t y \<noteq> 0
           then frag_split y (get_split t y) \<bind> (\<lambda>cs. leaves_under_loop t x (q' @ cs) ls)
           else if ceph_frag_contains_frag x y then leaves_under_loop t x q' (ls @ [y])
           else leaves_under_loop t x q' ls))"

definition get_leaves_under :: "fragtree \<Rightarrow> frag \<Rightarrow> frag list option" where
  "get_leaves_under t x = get_branch_or_leaf t x \<bind> (\<lambda>b. leaves_under_loop t x [b] [])"

definition is_leaf :: "fragtree \<Rightarrow> frag \<Rightarrow> bool option" where
  "is_leaf t x = map_option (\<lambda>ls. ls \<noteq> [] \<and> hd ls = x \<and> length ls = 1) (get_leaves_under t x)"

partial_function (option) contains_loop :: "fragtree \<Rightarrow> frag \<Rightarrow> frag list \<Rightarrow> bool option" where
  "contains_loop t x q =
     (case q of
        [] \<Rightarrow> Some False
      | y # q' \<Rightarrow>
          (if ceph_frag_bits y \<ge> ceph_frag_bits x \<and> \<not> ceph_frag_contains_frag x y then contains_loop t x q'
           else if get_split t y \<noteq> 0
           then (if y = x then Some False
                 else frag_split y (get_split t y) \<bind> (\<lambda>cs. contains_loop t x (q' @ cs)))
           else if y = x then Some True
           else contains_loop t x q'))"

definition fragtree_contains :: "fragtree \<Rightarrow> frag \<Rightarrow> bool option" where
  "fragtree_contains t x = get_branch t x \<bind> (\<lambda>b. contains_loop t x [b])"

text \<open>\<^verbatim>\<open>operator[]\<close>, from a given fragment.\<close>

partial_function (option) lookup_from :: "fragtree \<Rightarrow> u32 \<Rightarrow> frag \<Rightarrow> frag option" where
  "lookup_from t v f =
     (if \<not> ceph_frag_contains_value f v then None
      else if get_split t f = 0 then Some f
      else
        (case find (\<lambda>i. ceph_frag_contains_value (ceph_frag_make_child f (get_split t f) i) v) [0..<2 ^ get_split t f] of
           None \<Rightarrow> None
         | Some i \<Rightarrow> lookup_from t v (ceph_frag_make_child f (get_split t f) i)))"

definition fragtree_lookup :: "fragtree \<Rightarrow> u32 \<Rightarrow> frag option" where
  "fragtree_lookup t v = lookup_from t v frag_root"

text \<open>\<^verbatim>\<open>try_assimilate_children\<close>: the first loop finds the common split of the children, if there is one.\<close>

fun common_split :: "fragtree \<Rightarrow> frag list \<Rightarrow> nat \<Rightarrow> nat option" where
  "common_split t [] childbits = Some childbits"
| "common_split t (c # cs) childbits =
     (let cb = get_split t c in
      if cb = 0 then None
      else if childbits \<noteq> 0 \<and> cb \<noteq> childbits then None
      else common_split t cs cb)"

definition try_assimilate_children :: "fragtree \<Rightarrow> frag \<Rightarrow> fragtree option" where
  "try_assimilate_children t x =
     (let nb = get_split t x in
      if nb = 0 then Some t
      else
        frag_split x nb \<bind> (\<lambda>children.
          Some (case common_split t children 0 of
                  None \<Rightarrow> t
                | Some childbits \<Rightarrow>
                    (let t' = fold omap_erase children t in omap_set x (get_split t' x + childbits) t'))))"

definition fragtree_split :: "fragtree \<Rightarrow> frag \<Rightarrow> nat \<Rightarrow> bool \<Rightarrow> fragtree option" where
  "fragtree_split t x b simplify =
     do {
       leaf \<leftarrow> is_leaf t x;
       assert_that leaf;
       let t' = omap_set x b t;
       if simplify then get_branch_above t' x \<bind> try_assimilate_children t' else Some t'
     }"

definition fragtree_merge :: "fragtree \<Rightarrow> frag \<Rightarrow> nat \<Rightarrow> bool \<Rightarrow> fragtree option" where
  "fragtree_merge t x b simplify =
     do {
       leaf \<leftarrow> is_leaf t x;
       assert_that (\<not> leaf);
       assert_that (get_split t x = b);
       let t' = omap_erase x t;
       if simplify then get_branch_above t' x \<bind> try_assimilate_children t' else Some t'
     }"

text \<open>The last loop of \<^verbatim>\<open>force_to_leaf\<close>, and the function.\<close>

partial_function (option) hoover :: "fragtree \<Rightarrow> frag list \<Rightarrow> fragtree option" where
  "hoover t q =
     (case q of
        [] \<Rightarrow> Some t
      | y # q' \<Rightarrow>
          (let nb = get_split t y in
           if nb = 0 then hoover t q'
           else fragtree_merge t y nb False \<bind> (\<lambda>t'. frag_split y nb \<bind> (\<lambda>cs. hoover t' (q' @ cs)))))"

definition force_to_leaf :: "fragtree \<Rightarrow> frag \<Rightarrow> (fragtree \<times> bool) option" where
  "force_to_leaf t x =
     do {
       leaf \<leftarrow> is_leaf t x;
       if leaf then Some (t, False)
       else do {
         parent \<leftarrow> get_branch_or_leaf t x;
         assert_that (ceph_frag_bits parent \<le> ceph_frag_bits x);
         let spread = fbits x - fbits parent;
         let nb = get_split t parent;
         if fbits parent < fbits x \<and> nb = 0 then do {
           t' \<leftarrow> fragtree_split t parent spread True;
           leaf' \<leftarrow> is_leaf t' x;
           assert_that leaf';
           Some (t', True)
         } else do {
           t1 \<leftarrow> (if fbits parent < fbits x then do {
                      assert_that (nb > spread);
                      t1 \<leftarrow> fragtree_merge t parent nb False;
                      t2 \<leftarrow> fragtree_split t1 parent spread False;
                      subs \<leftarrow> frag_split parent spread;
                      fold_opt (\<lambda>p t. fragtree_split t p (nb - spread) False) subs t2
                    } else Some t);
           t2 \<leftarrow> hoover t1 [x];
           leaf' \<leftarrow> is_leaf t2 x;
           assert_that leaf';
           Some (t2, True)
         }
       }
     }"

section \<open>Well-formed trees\<close>

definition ft_ok :: "fragtree \<Rightarrow> bool" where
  "ft_ok t \<longleftrightarrow> (\<forall>(f, b)\<in>set t. frag_ok f \<and> 0 < b \<and> fbits f + b \<le> 24)"

abbreviation frag_children :: "frag \<Rightarrow> nat \<Rightarrow> frag list" where
  "frag_children f nb \<equiv> map (ceph_frag_make_child f nb) [0..<2 ^ nb]"

lemma get_split_ok: "ft_ok t \<Longrightarrow> get_split t f \<noteq> 0 \<Longrightarrow> frag_ok f \<and> fbits f + get_split t f \<le> 24"
  by (fastforce simp: get_split_def ft_ok_def dest: map_of_SomeD split: option.splits)

text \<open>The leaves below a fragment, as a recursive definition.\<close>

function ft_leaves :: "fragtree \<Rightarrow> frag \<Rightarrow> frag list" where
  "ft_leaves t f =
     (if get_split t f = 0 \<or> 24 < fbits f + get_split t f then [f]
      else concat (map (ft_leaves t) (frag_children f (get_split t f))))"
  by pat_completeness auto
termination
  by (relation "measure (\<lambda>(t, f). 24 - fbits f)") (auto simp: make_child_bits)

declare ft_leaves.simps [simp del]

lemma ft_leaves_leaf: "get_split t f = 0 \<Longrightarrow> ft_leaves t f = [f]"
  by (simp add: ft_leaves.simps [of t f])

lemma ft_leaves_split:
  "ft_ok t \<Longrightarrow> get_split t f \<noteq> 0 \<Longrightarrow> ft_leaves t f = concat (map (ft_leaves t) (frag_children f (get_split t f)))"
  using get_split_ok [of t f] by (subst ft_leaves.simps) auto

lemma ft_induct [consumes 1, case_names leaf split]:
  assumes "ft_ok t"
    and "\<And>f. get_split t f = 0 \<Longrightarrow> P f"
    and "\<And>f. get_split t f \<noteq> 0 \<Longrightarrow> frag_ok f \<Longrightarrow> fbits f + get_split t f \<le> 24 \<Longrightarrow>
      (\<And>i. i < 2 ^ get_split t f \<Longrightarrow> P (ceph_frag_make_child f (get_split t f) i)) \<Longrightarrow> P f"
  shows "P f"
proof (induction "24 - fbits f" arbitrary: f rule: less_induct)
  case less
  show ?case
  proof (cases "get_split t f = 0")
    case False
    then have ok: "frag_ok f" "fbits f + get_split t f \<le> 24" using get_split_ok [OF assms(1)] by blast+
    have "P (ceph_frag_make_child f (get_split t f) i)" for i
      using less.hyps make_child_bits [OF ok(2), of i] False ok(2) by simp
    then show ?thesis using assms(3) False ok by blast
  qed (rule assms(2))
qed

lemma leaves_loop_Cons:
  assumes "ft_ok t"
  shows "leaves_loop t (f # q) ls = leaves_loop t q (ft_leaves t f @ ls)"
  using assms
proof (induction f arbitrary: q ls rule: ft_induct)
  case (leaf f)
  then show ?case by (simp add: leaves_loop.simps [of t "f # q"] ft_leaves_leaf)
next
  case (split f)
  let ?nb = "get_split t f"
  have l: "leaves_loop t (rev cs @ q) ls = leaves_loop t q (concat (map (ft_leaves t) cs) @ ls)"
    if "\<forall>c\<in>set cs. \<exists>i<2 ^ ?nb. c = ceph_frag_make_child f ?nb i" for cs ls
    using that split.IH by (induction cs arbitrary: ls rule: rev_induct) auto
  have "leaves_loop t (rev (frag_children f ?nb) @ q) ls = leaves_loop t q (ft_leaves t f @ ls)"
    unfolding ft_leaves_split [OF assms split(1)] by (rule l) auto
  then show ?case using split(1) by (simp add: leaves_loop.simps [of t "f # q"] frag_split_eq)
qed

lemma get_leaves_eq: "ft_ok t \<Longrightarrow> get_leaves_under_split t f = Some (ft_leaves t f)"
  by (simp add: get_leaves_under_split_def leaves_loop_Cons leaves_loop.simps [of t "[]"])

section \<open>The leaves partition the name space\<close>

lemma ft_leaves_within:
  assumes "ft_ok t" "frag_ok f" "g \<in> set (ft_leaves t f)"
  shows "frag_ok g \<and> get_split t g = 0 \<and> (\<forall>v. ceph_frag_contains_value g v \<longrightarrow> ceph_frag_contains_value f v)"
  using assms
proof (induction f rule: ft_induct)
  case (leaf f)
  then show ?case by (simp add: ft_leaves_leaf)
next
  case (split f)
  then obtain i where i: "i < 2 ^ get_split t f" "g \<in> set (ft_leaves t (ceph_frag_make_child f (get_split t f) i))"
    using ft_leaves_split [OF assms(1), of f] by auto
  then show ?case
    using split.IH [OF i(1)] split frag_ok_make_child [of f "get_split t f" i]
      contains_child [of f "get_split t f" i] by auto
qed

text \<open>A fragment with all the fragments on the way to the leaf of a value.\<close>

function ft_path :: "fragtree \<Rightarrow> frag \<Rightarrow> u32 \<Rightarrow> frag list" where
  "ft_path t f v =
     (if get_split t f = 0 \<or> 24 < fbits f + get_split t f then [f]
      else f # ft_path t (ceph_frag_make_child f (get_split t f) (child_index f (get_split t f) v)) v)"
  by pat_completeness auto
termination
  by (relation "measure (\<lambda>(t, f, v). 24 - fbits f)") (auto simp: make_child_bits)

declare ft_path.simps [simp del]

lemma ft_path_leaf: "get_split t f = 0 \<Longrightarrow> ft_path t f v = [f]"
  by (simp add: ft_path.simps [of t f])

lemma ft_path_split:
  "ft_ok t \<Longrightarrow> get_split t f \<noteq> 0 \<Longrightarrow>
     ft_path t f v = f # ft_path t (ceph_frag_make_child f (get_split t f) (child_index f (get_split t f) v)) v"
  using get_split_ok [of t f] by (subst ft_path.simps) auto

text \<open>The leaf of a value is the last fragment of its path, and the only leaf that contains the value.\<close>

lemma ft_path_last:
  assumes "ft_ok t" "frag_ok f" "ceph_frag_contains_value f v"
  shows "last (ft_path t f v) \<in> set (ft_leaves t f)" "ceph_frag_contains_value (last (ft_path t f v)) v"
    "g \<in> set (ft_leaves t f) \<Longrightarrow> ceph_frag_contains_value g v \<Longrightarrow> g = last (ft_path t f v)"
    "lookup_from t v f = Some (last (ft_path t f v))"
  using assms
proof (induction f rule: ft_induct)
  case (leaf f)
  {
    case 1 then show ?case using leaf by (simp add: ft_path_leaf ft_leaves_leaf)
  next
    case 2 then show ?case using leaf by (simp add: ft_path_leaf)
  next
    case 3 then show ?case using leaf by (simp add: ft_path_leaf ft_leaves_leaf)
  next
    case 4 then show ?case using leaf by (simp add: ft_path_leaf lookup_from.simps [of t v f])
  }
next
  case (split f)
  let ?nb = "get_split t f" and ?i = "child_index f (get_split t f) v"
  let ?c = "ceph_frag_make_child f ?nb ?i"
  have c: "ceph_frag_contains_value (ceph_frag_make_child f ?nb i) v \<longleftrightarrow> i = ?i"
    if "ceph_frag_contains_value f v" "i < 2 ^ ?nb" for i
    using contains_child [OF split(2,3) that(2)] that(1) by simp
  have i: "?i < 2 ^ ?nb" by (rule child_index_less)
  have ok: "frag_ok ?c" using split(3) by (rule frag_ok_make_child)
  have p: "last (ft_path t f v) = last (ft_path t ?c v)"
    using ft_path_split [OF assms(1) split(1)] ft_path.simps [of t ?c v] by (simp split: if_splits)
  {
    case 1 then show ?case
      using split.IH(1) [OF i] ok c i unfolding p ft_leaves_split [OF assms(1) split(1)] by auto
  next
    case 2 then show ?case using split.IH(2) [OF i] ok c i unfolding p by auto
  next
    case 3
    then obtain j where j: "j < 2 ^ ?nb" "g \<in> set (ft_leaves t (ceph_frag_make_child f ?nb j))"
      using ft_leaves_split [OF assms(1) split(1)] by auto
    have "ceph_frag_contains_value (ceph_frag_make_child f ?nb j) v"
      using ft_leaves_within [OF assms(1) _ j(2)] frag_ok_make_child [OF split(3)] 3(2) by blast
    then have "j = ?i" using c [OF 3(4) j(1)] by simp
    then show ?case using split.IH(3) [OF i] ok c i 3 j(2) unfolding p by auto
  next
    case 4
    have "find (\<lambda>i. ceph_frag_contains_value (ceph_frag_make_child f ?nb i) v) [0..<2 ^ ?nb] = Some ?i"
      using c [OF 4(2)] i by (auto simp: find_Some_iff)
    then show ?case
      using split.IH(4) [OF i] ok c i 4 split(1) unfolding p by (simp add: lookup_from.simps [of t v f])
  }
qed

section \<open>Nodes\<close>

lemma contains_frag_value:
  assumes "frag_ok f" "frag_ok g" "ceph_frag_contains_frag f g" "ceph_frag_contains_value g v"
  shows "ceph_frag_contains_value f v"
proof -
  have le: "fbits f \<le> fbits g" and fg: "24 - fbits f \<le> n \<and> n < 24 \<Longrightarrow> bit g n = bit f n" for n
    using assms(3) contains_frag_bits [OF assms(1)] by blast+
  have gv: "24 - fbits g \<le> n \<and> n < 24 \<Longrightarrow> bit v n = bit g n" for n
    using assms(4) contains_value_bits [OF assms(2)] by blast
  have "bit v n = bit f n" if "24 - fbits f \<le> n \<and> n < 24" for n
    using fg [OF that] gv [of n] that le by linarith
  then show ?thesis using contains_value_bits [OF assms(1)] by blast
qed

lemma contains_frag_common:
  assumes "frag_ok f" "frag_ok g" "ceph_frag_contains_value f v" "ceph_frag_contains_value g v" "fbits f \<le> fbits g"
  shows "ceph_frag_contains_frag f g"
proof -
  have fv: "24 - fbits f \<le> n \<and> n < 24 \<Longrightarrow> bit v n = bit f n" for n
    using assms(3) contains_value_bits [OF assms(1)] by blast
  have gv: "24 - fbits g \<le> n \<and> n < 24 \<Longrightarrow> bit v n = bit g n" for n
    using assms(4) contains_value_bits [OF assms(2)] by blast
  have "bit g n = bit f n" if "24 - fbits f \<le> n \<and> n < 24" for n
    using fv [OF that] gv [of n] that assms(5) by linarith
  then show ?thesis using contains_frag_bits [OF assms(1)] assms(5) by blast
qed

lemma contains_own_value: "frag_ok f \<Longrightarrow> ceph_frag_contains_value f (ceph_frag_value f)"
  by (simp add: contains_value_bits)

lemma frag_eq_common:
  assumes "frag_ok f" "frag_ok g" "ceph_frag_contains_value f v" "ceph_frag_contains_value g v" "fbits f = fbits g"
  shows "f = g"
  using assms unfolding contains_value_bits [OF assms(1)] contains_value_bits [OF assms(2)]
  by (intro frag_ext) auto

lemma frag_root_ok [simp]: "frag_ok frag_root" "fbits frag_root = 0"
  by (simp_all add: frag_ok_def frag_root_def ceph_frag_bits_def)

lemma frag_root_contains [simp]: "ceph_frag_contains_value frag_root v"
  by (auto simp: contains_value_bits)

text \<open>A child that contains the value.\<close>

lemma child_of_value:
  assumes "frag_ok f" "fbits f + nb \<le> 24" "ceph_frag_contains_value f v"
  shows "ceph_frag_contains_value (ceph_frag_make_child f nb (child_index f nb v)) v"
  using contains_child [OF assms(1,2) child_index_less] assms(3) by simp

lemma ft_path_elem:
  assumes "ft_ok t" "frag_ok f" "ceph_frag_contains_value f v" "g \<in> set (ft_path t f v)"
  shows "frag_ok g \<and> ceph_frag_contains_value g v \<and> fbits f \<le> fbits g
    \<and> (g \<noteq> f \<longrightarrow> get_split t f \<noteq> 0 \<and> fbits f + get_split t f \<le> fbits g)"
  using assms
proof (induction f rule: ft_induct)
  case (leaf f)
  then show ?case by (simp add: ft_path_leaf)
next
  case (split f)
  let ?c = "ceph_frag_make_child f (get_split t f) (child_index f (get_split t f) v)"
  show ?case
  proof (cases "g = f")
    case False
    then have "g \<in> set (ft_path t ?c v)" using split.prems ft_path_split [OF assms(1) split(1)] by simp
    then have "frag_ok g \<and> ceph_frag_contains_value g v \<and> fbits ?c \<le> fbits g"
      using split.IH [OF child_index_less] frag_ok_make_child [OF split(3)] child_of_value [OF split(2,3)] split.prems
      by blast
    then show ?thesis using split(1) make_child_bits [OF split(3)] by auto
  qed (use split.prems in simp)
qed

lemma ft_path_nonempty [simp]: "ft_path t f v \<noteq> []"
  by (simp add: ft_path.simps [of t f v])

lemma ft_path_hd: "f \<in> set (ft_path t f v)"
  by (simp add: ft_path.simps [of t f v])

text \<open>Two fragments on one path: the shorter one is split, and the longer one lies below a child of it.\<close>

lemma ft_path_order:
  assumes "ft_ok t" "frag_ok f" "ceph_frag_contains_value f v" "g \<in> set (ft_path t f v)" "h \<in> set (ft_path t f v)"
    "g \<noteq> h" "fbits g \<le> fbits h"
  shows "get_split t g \<noteq> 0 \<and> fbits g + get_split t g \<le> fbits h"
  using assms(1-5)
proof (induction f rule: ft_induct)
  case (leaf f)
  then show ?case using assms(6) by (simp add: ft_path_leaf)
next
  case (split f)
  let ?c = "ceph_frag_make_child f (get_split t f) (child_index f (get_split t f) v)"
  have c: "frag_ok ?c" "ceph_frag_contains_value ?c v" "fbits ?c = fbits f + get_split t f"
    using frag_ok_make_child [OF split(3)] child_of_value [OF split(2,3)] make_child_bits [OF split(3)] split.prems by auto
  note e = ft_path_elem [OF assms(1) split.prems(1,2)]
  consider "g = f" | "h = f" "g \<noteq> f" | "g \<in> set (ft_path t ?c v)" "h \<in> set (ft_path t ?c v)"
    using split.prems(3,4) ft_path_split [OF assms(1) split(1)] by auto
  then show ?case
  proof cases
    case 1
    then show ?thesis using e [OF split.prems(4)] assms(6) by simp
  next
    case 2
    then show ?thesis using e [OF split.prems(3)] split(1) assms(7) by simp
  next
    case 3
    then show ?thesis using split.IH [OF child_index_less c(1,2)] by blast
  qed
qed

text \<open>A node lies on the path of each of its values.\<close>

lemma ft_path_any_value:
  assumes "ft_ok t" "frag_ok f" "ceph_frag_contains_value f v" "ceph_frag_contains_value f w"
    "g \<in> set (ft_path t f v)" "ceph_frag_contains_value g w"
  shows "g \<in> set (ft_path t f w)"
  using assms
proof (induction f rule: ft_induct)
  case (leaf f)
  then show ?case by (simp add: ft_path_leaf)
next
  case (split f)
  let ?nb = "get_split t f"
  let ?c = "ceph_frag_make_child f ?nb (child_index f ?nb v)"
  show ?case
  proof (cases "g = f")
    case True
    then show ?thesis by (simp add: ft_path_hd)
  next
    case False
    then have g: "g \<in> set (ft_path t ?c v)" using split.prems ft_path_split [OF assms(1) split(1)] by simp
    have c: "frag_ok ?c" "ceph_frag_contains_value ?c v"
      using frag_ok_make_child [OF split(3)] child_of_value [OF split(2,3)] split.prems by auto
    have "frag_ok g \<and> ceph_frag_contains_value g v \<and> fbits ?c \<le> fbits g" using ft_path_elem [OF assms(1) c g] by blast
    then have w: "ceph_frag_contains_value ?c w"
      using contains_frag_common [OF c(1) _ c(2)] contains_frag_value [OF c(1)] split.prems(5) by blast
    then have "child_index f ?nb w = child_index f ?nb v"
      using contains_child [OF split(2,3) child_index_less [of f ?nb v], of w] by simp
    then show ?thesis
      using split.IH [OF child_index_less c w g split.prems(5)] ft_path_split [OF assms(1) split(1), of w] by simp
  qed
qed

definition ft_node :: "fragtree \<Rightarrow> frag \<Rightarrow> bool" where
  "ft_node t f \<longleftrightarrow> frag_ok f \<and> f \<in> set (ft_path t frag_root (ceph_frag_value f))"

lemma ft_node_path: "ft_ok t \<Longrightarrow> ft_node t f \<Longrightarrow> ceph_frag_contains_value f v \<Longrightarrow> f \<in> set (ft_path t frag_root v)"
  unfolding ft_node_def using ft_path_any_value [of t frag_root "ceph_frag_value f" v f] by simp

lemma ft_path_node:
  assumes "ft_ok t" "f \<in> set (ft_path t frag_root v)"
  shows "ft_node t f"
proof -
  have "frag_ok f" "ceph_frag_contains_value f v" using ft_path_elem [OF assms(1) frag_root_ok(1) frag_root_contains assms(2)] by auto
  then show ?thesis
    unfolding ft_node_def using ft_path_any_value [OF assms(1) frag_root_ok(1) _ _ assms(2)] contains_own_value by simp
qed

lemma ft_node_order:
  assumes "ft_ok t" "ft_node t g" "ft_node t h" "ceph_frag_contains_value g v" "ceph_frag_contains_value h v"
    "g \<noteq> h" "fbits g \<le> fbits h"
  shows "get_split t g \<noteq> 0 \<and> fbits g + get_split t g \<le> fbits h"
  using ft_path_order [OF assms(1) frag_root_ok(1) frag_root_contains ft_node_path [OF assms(1,2,4)]
      ft_node_path [OF assms(1,3,5)] assms(6,7)] .

lemma ft_path_last_leaf:
  assumes "ft_ok t"
  shows "get_split t (last (ft_path t f v)) = 0"
  using assms
proof (induction f rule: ft_induct)
  case (split f)
  then show ?case
    using ft_path_split [OF assms split(1), of v] split.IH [OF child_index_less] by simp
qed (simp add: ft_path_leaf)

text \<open>The leaves are the nodes that are not split, and the last fragments of the paths.\<close>

lemma ft_leaves_nodes:
  assumes "ft_ok t"
  shows "g \<in> set (ft_leaves t frag_root) \<longleftrightarrow> ft_node t g \<and> get_split t g = 0"
    and "set (ft_leaves t frag_root) = {last (ft_path t frag_root v) | v. True}"
proof -
  note l = ft_path_last [OF assms frag_root_ok(1) frag_root_contains]
  show "g \<in> set (ft_leaves t frag_root) \<longleftrightarrow> ft_node t g \<and> get_split t g = 0" for g
  proof
    assume g: "g \<in> set (ft_leaves t frag_root)"
    then have ok: "frag_ok g" "get_split t g = 0" using ft_leaves_within [OF assms frag_root_ok(1)] by blast+
    then have "g = last (ft_path t frag_root (ceph_frag_value g))" using l(3) [OF g] contains_own_value by blast
    then show "ft_node t g \<and> get_split t g = 0" using ok unfolding ft_node_def by (metis ft_path_nonempty last_in_set)
  next
    assume g: "ft_node t g \<and> get_split t g = 0"
    let ?p = "ft_path t frag_root (ceph_frag_value g)"
    have ok: "frag_ok g" "g \<in> set ?p" using g by (simp_all add: ft_node_def)
    have lp: "last ?p \<in> set ?p" by simp
    have "g = last ?p"
    proof (rule ccontr)
      assume ne: "g \<noteq> last ?p"
      show False
        using ft_path_order [OF assms frag_root_ok(1) frag_root_contains ok(2) lp ne]
          ft_path_order [OF assms frag_root_ok(1) frag_root_contains lp ok(2) ne [symmetric]]
          ft_path_last_leaf [OF assms] g by (metis nle_le)
    qed
    then show "g \<in> set (ft_leaves t frag_root)" using l(1) by metis
  qed
  then show "set (ft_leaves t frag_root) = {last (ft_path t frag_root v) | v. True}"
    using l(1,3) ft_leaves_within [OF assms frag_root_ok(1)] contains_own_value by blast
qed

end
