(* ===== verification/Frag_Update.thy ===== *)
theory Frag_Update
  imports Frag_Tree "HOL-Library.Multiset"
begin

text \<open>
  Well-formed fragment trees, the queries at a fragment (\<^verbatim>\<open>get_branch\<close>, \<^verbatim>\<open>get_leaves_under\<close>, \<^verbatim>\<open>is_leaf\<close>) and how the
  paths of a tree depend on its splits. The queries complete, and \<^verbatim>\<open>is_leaf\<close> answers whether the fragment is a leaf,
  as soon as the splits above the fragment belong to the tree.
\<close>

section \<open>Containment\<close>

lemma contains_frag_refl: "frag_ok f \<Longrightarrow> ceph_frag_contains_frag f f"
  by (simp add: contains_frag_bits)

lemma contains_frag_iff:
  assumes "frag_ok f" "frag_ok g"
  shows "ceph_frag_contains_frag f g \<longleftrightarrow> fbits f \<le> fbits g \<and> ceph_frag_contains_value f (ceph_frag_value g)"
  unfolding contains_frag_bits [OF assms(1)] contains_value_bits [OF assms(1)] by auto

lemma contains_frag_trans:
  assumes "frag_ok f" "frag_ok g" "frag_ok h" "ceph_frag_contains_frag f g" "ceph_frag_contains_frag g h"
  shows "ceph_frag_contains_frag f h"
  using assms contains_frag_value [OF assms(1,2,4)] by (simp add: contains_frag_iff)

lemma contains_frag_eq:
  assumes "frag_ok f" "frag_ok g" "ceph_frag_contains_frag f g" "fbits f = fbits g"
  shows "f = g"
  using frag_eq_common [OF assms(1,2) _ contains_own_value [OF assms(2)] assms(4)] assms contains_frag_iff by blast

lemma contains_frag_parent:
  assumes "frag_ok f" "0 < fbits f"
  shows "ceph_frag_contains_frag (ceph_frag_parent f) f"
  using parent_contains [OF assms, of "ceph_frag_value f"] parent_bits [OF assms] contains_own_value [OF assms(1)]
  by (simp add: contains_frag_iff assms(1))

lemma contains_parent_frag:
  assumes "frag_ok f" "frag_ok g" "ceph_frag_contains_frag f g" "f \<noteq> g"
  shows "0 < fbits g" "ceph_frag_contains_frag f (ceph_frag_parent g)"
proof -
  have lt: "fbits f < fbits g"
    using contains_frag_eq [OF assms(1-3)] assms contains_frag_iff [OF assms(1,2)] by (metis le_neq_implies_less)
  then show "0 < fbits g" by simp
  then have p: "frag_ok (ceph_frag_parent g)" "fbits (ceph_frag_parent g) = fbits g - 1"
    "ceph_frag_contains_value (ceph_frag_parent g) (ceph_frag_value g)"
    using parent_bits [OF assms(2)] parent_contains [OF assms(2)] contains_own_value [OF assms(2)] by auto
  show "ceph_frag_contains_frag f (ceph_frag_parent g)"
    using contains_frag_common [OF assms(1) p(1) _ p(3)] p(2) lt assms(3) contains_frag_iff [OF assms(1,2)] by simp
qed

lemma frag_zero: "frag_ok f \<Longrightarrow> fbits f = 0 \<Longrightarrow> f = frag_root"
  by (rule frag_ext) auto

lemma child_contains_frag:
  assumes "frag_ok f" "fbits f + nb \<le> 24" "i < 2 ^ nb"
  shows "ceph_frag_contains_frag f (ceph_frag_make_child f nb i)"
  using contains_child [OF assms, of "ceph_frag_value (ceph_frag_make_child f nb i)"]
    contains_own_value [OF frag_ok_make_child [OF assms(2)]] make_child_bits [OF assms(2)] frag_ok_make_child [OF assms(2)]
  by (simp add: contains_frag_iff assms(1))

section \<open>Well-formed trees\<close>

text \<open>Every fragment that is split is a node of the tree.\<close>

definition ft_wf :: "fragtree \<Rightarrow> bool" where
  "ft_wf t \<longleftrightarrow> omap_ok t \<and> ft_ok t \<and> (\<forall>f\<in>fst ` set t. ft_node t f)"

lemma ft_wfD: "ft_wf t \<Longrightarrow> omap_ok t" "ft_wf t \<Longrightarrow> ft_ok t"
  by (simp_all add: ft_wf_def)

lemma frag_root_node: "ft_node t frag_root"
  by (simp add: ft_node_def ft_path_hd)

lemma ft_wf_node:
  assumes "ft_wf t" "f = frag_root \<or> get_split t f \<noteq> 0"
  shows "ft_node t f"
proof (cases "f = frag_root")
  case True
  then show ?thesis by (simp add: frag_root_node)
next
  case False
  then have "f \<in> fst ` set t" using assms(2) by (auto simp: get_split_def dest!: map_of_SomeD split: option.splits intro: rev_image_eqI)
  then show ?thesis using assms(1) by (auto simp: ft_wf_def)
qed

lemma ft_node_ok: "ft_node t f \<Longrightarrow> frag_ok f"
  by (simp add: ft_node_def)

lemma ft_node_child:
  assumes "ft_ok t" "ft_node t f" "get_split t f \<noteq> 0" "i < 2 ^ get_split t f"
  shows "ft_node t (ceph_frag_make_child f (get_split t f) i)"
proof -
  let ?c = "ceph_frag_make_child f (get_split t f) i"
  have ok: "frag_ok f" "fbits f + get_split t f \<le> 24" using get_split_ok [OF assms(1,3)] by auto
  have c: "frag_ok ?c" using ok(2) by (rule frag_ok_make_child)
  have v: "ceph_frag_contains_value f (ceph_frag_value ?c)" "i = child_index f (get_split t f) (ceph_frag_value ?c)"
    using contains_child [OF ok assms(4)] contains_own_value [OF c] by blast+
  let ?v = "ceph_frag_value ?c"
  have "g \<in> set (ft_path t h w) \<Longrightarrow> set (ft_path t g w) \<subseteq> set (ft_path t h w)" for g h w
    using assms(1)
  proof (induction h rule: ft_induct)
    case (split h)
    then show ?case using ft_path_split [OF assms(1) split(1), of w] split.IH [OF child_index_less] by auto
  qed (simp add: ft_path_leaf)
  then have "set (ft_path t f ?v) \<subseteq> set (ft_path t frag_root ?v)" using ft_node_path [OF assms(1,2) v(1)] by blast
  moreover have "?c \<in> set (ft_path t f ?v)"
    using ft_path_split [OF assms(1,3), of ?v] ft_path_hd v(2) by simp
  ultimately show ?thesis using c by (auto simp: ft_node_def)
qed

text \<open>Nodes related by containment.\<close>

lemma ft_node_contains:
  assumes "ft_ok t" "ft_node t g" "ft_node t h" "ceph_frag_contains_frag g h" "g \<noteq> h"
  shows "get_split t g \<noteq> 0 \<and> fbits g + get_split t g \<le> fbits h"
  using ft_node_order [OF assms(1-3) _ contains_own_value assms(5)] assms(4) contains_frag_iff ft_node_ok [OF assms(2)]
    ft_node_ok [OF assms(3)] by blast

section \<open>Branches\<close>

lemma get_branch_Some:
  assumes "frag_ok x"
  shows "\<exists>g. get_branch t x = Some g \<and> frag_ok g \<and> ceph_frag_contains_frag g x \<and> (g = frag_root \<or> get_split t g \<noteq> 0)
    \<and> (\<forall>h. frag_ok h \<longrightarrow> ceph_frag_contains_frag h x \<longrightarrow> fbits g < fbits h \<longrightarrow> get_split t h = 0)"
  using assms
proof (induction "fbits x" arbitrary: x rule: less_induct)
  case less
  show ?case
  proof (cases "x = frag_root \<or> get_split t x \<noteq> 0")
    case True
    then show ?thesis
      using less.prems by (auto simp: get_branch.simps [of t x] contains_frag_refl contains_frag_iff)
  next
    case False
    then have pos: "0 < fbits x" using frag_zero [OF less.prems] by blast
    note p = parent_bits [OF less.prems pos]
    obtain g where g: "get_branch t (ceph_frag_parent x) = Some g" "frag_ok g" "ceph_frag_contains_frag g (ceph_frag_parent x)"
      "g = frag_root \<or> get_split t g \<noteq> 0"
      "\<forall>h. frag_ok h \<longrightarrow> ceph_frag_contains_frag h (ceph_frag_parent x) \<longrightarrow> fbits g < fbits h \<longrightarrow> get_split t h = 0"
      using less.hyps [of "ceph_frag_parent x"] p(1,2) pos by auto
    have "get_branch t x = Some g"
      using False pos g(1) by (simp add: get_branch.simps [of t x] frag_parent_def word_less_nat_alt)
    moreover have "ceph_frag_contains_frag g x"
      using contains_frag_trans [OF g(2) p(2) less.prems g(3) contains_frag_parent [OF less.prems pos]] .
    moreover have "get_split t h = 0" if "frag_ok h" "ceph_frag_contains_frag h x" "fbits g < fbits h" for h
      using g(5) that contains_parent_frag(2) [OF that(1) less.prems that(2)] False by blast
    ultimately show ?thesis using g(2,4) by blast
  qed
qed

lemma get_branch_above_Some:
  assumes "frag_ok x"
  shows "\<exists>g. get_branch_above t x = Some g \<and> frag_ok g \<and> (g = frag_root \<or> get_split t g \<noteq> 0)"
  using assms
proof (induction "fbits x" arbitrary: x rule: less_induct)
  case less
  show ?case
  proof (cases "x = frag_root")
    case False
    then have pos: "0 < fbits x" using frag_zero [OF less.prems] by blast
    note p = parent_bits [OF less.prems pos]
    show ?thesis
    proof (cases "get_split t (ceph_frag_parent x) = 0")
      case True
      then show ?thesis
        using less.hyps [of "ceph_frag_parent x"] p(1,2) pos False
        by (simp add: get_branch_above.simps [of t x] frag_parent_def word_less_nat_alt)
    next
      case split: False
      then show ?thesis
        using p(2) pos False by (simp add: get_branch_above.simps [of t x] frag_parent_def word_less_nat_alt)
    qed
  qed (use frag_root_ok in \<open>simp add: get_branch_above.simps [of t frag_root]\<close>)
qed

section \<open>Leaves below a fragment\<close>

lemma ft_leaves_contained:
  assumes "ft_ok t" "frag_ok f" "g \<in> set (ft_leaves t f)"
  shows "ceph_frag_contains_frag f g"
  using assms
proof (induction f rule: ft_induct)
  case (leaf f)
  then show ?case by (simp add: ft_leaves_leaf contains_frag_refl)
next
  case (split f)
  let ?nb = "get_split t f"
  from split.prems obtain i where i: "i < 2 ^ ?nb" "g \<in> set (ft_leaves t (ceph_frag_make_child f ?nb i))"
    using ft_leaves_split [OF assms(1) split(1)] by auto
  note c = frag_ok_make_child [OF split(3), of i]
  have "frag_ok g" using ft_leaves_within [OF assms(1) c i(2)] by blast
  then show ?case
    using contains_frag_trans [OF split(2) c _ child_contains_frag [OF split(2,3) i(1)] split.IH [OF i(1) c i(2)]] by blast
qed

lemma ft_leaves_disjoint_frag:
  assumes "ft_ok t" "frag_ok x" "frag_ok y" "fbits x \<le> fbits y" "\<not> ceph_frag_contains_frag x y"
  shows "filter (ceph_frag_contains_frag x) (ft_leaves t y) = []"
proof -
  have "\<not> ceph_frag_contains_frag x l" if l: "l \<in> set (ft_leaves t y)" for l
  proof
    assume x: "ceph_frag_contains_frag x l"
    have ok: "frag_ok l" using ft_leaves_within [OF assms(1,3) l] by blast
    have "ceph_frag_contains_value x (ceph_frag_value l)" "ceph_frag_contains_value y (ceph_frag_value l)"
      using x ft_leaves_contained [OF assms(1,3) l] contains_frag_iff ok assms(2,3) by blast+
    then show False using contains_frag_common [OF assms(2,3)] assms(4,5) by blast
  qed
  then show ?thesis by (simp add: filter_empty_conv)
qed

text \<open>The queue of \<^verbatim>\<open>get_leaves_under\<close> becomes empty: each fragment weighs more than all its children.\<close>

definition queue_weight :: "frag list \<Rightarrow> nat" where
  "queue_weight q = (\<Sum>y\<leftarrow>q. 3 ^ (24 - fbits y))"

lemma queue_weight_simps [simp]:
  "queue_weight (y # q) = 3 ^ (24 - fbits y) + queue_weight q"
  "queue_weight (q @ r) = queue_weight q + queue_weight r"
  by (simp_all add: queue_weight_def)

lemma queue_weight_children:
  assumes "0 < nb" "fbits y + nb \<le> 24"
  shows "queue_weight (frag_children y nb) < 3 ^ (24 - fbits y)"
proof -
  have "map (\<lambda>c. (3 :: nat) ^ (24 - fbits c)) (frag_children y nb) = replicate (2 ^ nb) (3 ^ (24 - fbits y - nb))"
    using make_child_bits [OF assms(2)] by (auto simp: map_replicate_const [symmetric] intro!: nth_equalityI)
  then have "queue_weight (frag_children y nb) = 2 ^ nb * 3 ^ (24 - fbits y - nb)"
    by (simp add: queue_weight_def sum_list_replicate)
  also have "\<dots> < 3 ^ nb * 3 ^ (24 - fbits y - nb)" using assms(1) by (simp add: power_strict_mono)
  also have "\<dots> = 3 ^ (24 - fbits y)" using assms(2) by (simp flip: power_add)
  finally show ?thesis .
qed

lemma leaves_under_loop_eq:
  assumes "ft_ok t" "frag_ok x" "\<forall>y\<in>set q. frag_ok y"
  shows "\<exists>r. leaves_under_loop t x q ls = Some (ls @ r)
    \<and> mset r = mset (filter (ceph_frag_contains_frag x) (concat (map (ft_leaves t) q)))"
  using assms(3)
proof (induction "queue_weight q" arbitrary: q ls rule: less_induct)
  case less
  show ?case
  proof (cases q)
    case Nil
    then show ?thesis by (simp add: leaves_under_loop.simps [of t x])
  next
    case (Cons y q')
    then have ok: "frag_ok y" "\<forall>y\<in>set q'. frag_ok y" and w: "queue_weight q' < queue_weight q" using less.prems by auto
    let ?c = "filter (ceph_frag_contains_frag x)"
    note st = leaves_under_loop.simps [of t x q, unfolded Cons, simplified]
    obtain r where r: "leaves_under_loop t x q' ls' = Some (ls' @ r)" 
      "mset r = mset (?c (concat (map (ft_leaves t) q')))" if "ls' = ls" for ls' using less.hyps [OF w ok(2)] by metis
    obtain r' where r': "leaves_under_loop t x q' (ls @ [y]) = Some ((ls @ [y]) @ r')" 
      "mset r' = mset (?c (concat (map (ft_leaves t) q')))" using less.hyps [OF w ok(2)] by metis
    consider (skip) "ceph_frag_bits x \<le> ceph_frag_bits y" "\<not> ceph_frag_contains_frag x y"
      | (split) "\<not> (ceph_frag_bits x \<le> ceph_frag_bits y \<and> \<not> ceph_frag_contains_frag x y)" "get_split t y \<noteq> 0"
      | (leaf) "get_split t y = 0" "ceph_frag_contains_frag x y"
      | (above) "get_split t y = 0" "\<not> ceph_frag_contains_frag x y" "\<not> ceph_frag_bits x \<le> ceph_frag_bits y" by blast
    then show ?thesis
    proof cases
      case skip
      then have "?c (ft_leaves t y) = []" using ft_leaves_disjoint_frag [OF assms(1,2) ok(1)] by (simp add: word_le_nat_alt)
      then show ?thesis using skip r Cons by (auto simp: st)
    next
      case split
      let ?cs = "frag_children y (get_split t y)"
      have nb: "fbits y + get_split t y \<le> 24" using get_split_ok [OF assms(1) split(2)] by blast
      have "queue_weight (q' @ ?cs) < queue_weight q" using queue_weight_children [OF _ nb] split(2) Cons by simp
      moreover have "\<forall>z\<in>set (q' @ ?cs). frag_ok z" using ok(2) frag_ok_make_child [OF nb] by auto
      ultimately obtain r where "leaves_under_loop t x (q' @ ?cs) ls = Some (ls @ r)"
        "mset r = mset (?c (concat (map (ft_leaves t) (q' @ ?cs))))" using less.hyps by blast
      then show ?thesis
        using split Cons ft_leaves_split [OF assms(1) split(2)] by (auto simp: st frag_split_eq)
    next
      case leaf
      then show ?thesis using r' Cons by (auto simp: st ft_leaves_leaf)
    next
      case above
      then show ?thesis using r Cons by (auto simp: st ft_leaves_leaf)
    qed
  qed
qed

lemma ft_leaves_nonempty: "ft_ok t \<Longrightarrow> frag_ok f \<Longrightarrow> ft_leaves t f \<noteq> []"
  using ft_path_last(1) [OF _ _ contains_own_value, of t f] by auto

lemma ft_leaves_distinct:
  assumes "ft_ok t" "frag_ok f"
  shows "distinct (ft_leaves t f)"
  using assms
proof (induction f rule: ft_induct)
  case (leaf f)
  then show ?case by (simp add: ft_leaves_leaf)
next
  case (split f)
  let ?c = "ceph_frag_make_child f (get_split t f)"
  note ok = frag_ok_make_child [OF split(3)]
  have disj: "i = j" if "i < 2 ^ get_split t f" "j < 2 ^ get_split t f" "g \<in> set (ft_leaves t (?c i))" "g \<in> set (ft_leaves t (?c j))" for i j g
  proof -
    have "frag_ok g" using ft_leaves_within [OF assms(1) ok that(3)] by blast
    then have "ceph_frag_contains_value (?c i) (ceph_frag_value g)" "ceph_frag_contains_value (?c j) (ceph_frag_value g)"
      using ft_leaves_contained [OF assms(1) ok] that contains_frag_iff ok by blast+
    then show ?thesis using contains_child [OF split(2,3)] that(1,2) by simp
  qed
  have ne: "ft_leaves t (?c i) \<noteq> []" for i using ft_leaves_nonempty [OF assms(1) ok] .
  have "distinct (map (ft_leaves t) (frag_children f (get_split t f)))"
    unfolding map_map distinct_map o_def
  proof (intro conjI inj_onI)
    fix i j assume ij: "i \<in> set [0..<2 ^ get_split t f]" "j \<in> set [0..<2 ^ get_split t f]" "ft_leaves t (?c i) = ft_leaves t (?c j)"
    have "hd (ft_leaves t (?c i)) \<in> set (ft_leaves t (?c i))" using ne by simp
    then show "i = j" using disj [of i j] ij by simp
  qed simp
  moreover have "distinct ys" if "ys \<in> set (map (ft_leaves t) (frag_children f (get_split t f)))" for ys
    using that split.IH ok by auto
  moreover have "set ys \<inter> set zs = {}" if "ys \<in> set (map (ft_leaves t) (frag_children f (get_split t f)))"
    "zs \<in> set (map (ft_leaves t) (frag_children f (get_split t f)))" "ys \<noteq> zs" for ys zs
    using that disj by fastforce
  ultimately show ?case unfolding ft_leaves_split [OF assms(1) split(1)] by (rule distinct_concat)
qed

lemma ft_path_suffix:
  assumes "ft_ok t" "f \<in> set (ft_path t h v)"
  shows "last (ft_path t h v) = last (ft_path t f v)" "set (ft_path t f v) \<subseteq> set (ft_path t h v)"
  using assms
proof (induction h rule: ft_induct)
  case (split h)
  note p = ft_path_split [OF assms(1) split(1), of v]
  { case 1 then show ?case using p split.IH(1) [OF child_index_less] by auto }
  { case 2 then show ?case using p split.IH(2) [OF child_index_less] by auto }
qed (simp_all add: ft_path_leaf)

lemma ft_leaves_node:
  assumes "ft_ok t" "ft_node t f"
  shows "set (ft_leaves t f) = {l \<in> set (ft_leaves t frag_root). ceph_frag_contains_frag f l}"
proof -
  note ok = ft_node_ok [OF assms(2)]
  have l: "last (ft_path t frag_root v) = last (ft_path t f v)" if "ceph_frag_contains_value f v" for v
    using ft_path_suffix(1) [OF assms(1) ft_node_path [OF assms that]] .
  note last_root = ft_path_last [OF assms(1) frag_root_ok(1) frag_root_contains]
  have "g \<in> set (ft_leaves t frag_root)" "ceph_frag_contains_frag f g" if g: "g \<in> set (ft_leaves t f)" for g
  proof -
    show c: "ceph_frag_contains_frag f g" by (rule ft_leaves_contained [OF assms(1) ok g])
    have "frag_ok g" using ft_leaves_within [OF assms(1) ok g] by blast
    then have v: "ceph_frag_contains_value f (ceph_frag_value g)" "ceph_frag_contains_value g (ceph_frag_value g)"
      using c contains_frag_iff [OF ok] contains_own_value by blast+
    then have "g = last (ft_path t frag_root (ceph_frag_value g))"
      using ft_path_last(3) [OF assms(1) ok v(1) g v(2)] l by simp
    then show "g \<in> set (ft_leaves t frag_root)" using last_root(1) by metis
  qed
  moreover have "g \<in> set (ft_leaves t f)" if g: "g \<in> set (ft_leaves t frag_root)" "ceph_frag_contains_frag f g" for g
  proof -
    have "frag_ok g" using ft_leaves_within [OF assms(1) frag_root_ok(1) g(1)] by blast
    then have v: "ceph_frag_contains_value f (ceph_frag_value g)" "ceph_frag_contains_value g (ceph_frag_value g)"
      using g(2) contains_frag_iff [OF ok] contains_own_value by blast+
    then show ?thesis using last_root(3) [OF g(1) v(2)] l [OF v(1)] ft_path_last(1) [OF assms(1) ok v(1)] by simp
  qed
  ultimately show ?thesis by blast
qed

text \<open>
  The queries at a fragment need only that the splits above it are nodes, which also holds in the middle of the
  compound operations.
\<close>

definition ft_wf_at :: "fragtree \<Rightarrow> frag \<Rightarrow> bool" where
  "ft_wf_at t x \<longleftrightarrow> ft_ok t \<and> (\<forall>f. get_split t f \<noteq> 0 \<longrightarrow> ceph_frag_contains_frag f x \<longrightarrow> ft_node t f)"

lemma ft_wf_at: "ft_wf t \<Longrightarrow> ft_wf_at t x"
  using ft_wf_node ft_wfD(2) by (simp add: ft_wf_at_def)

lemma get_branch_or_leaf_Some:
  assumes "ft_wf_at t x" "frag_ok x"
  shows "\<exists>b. get_branch_or_leaf t x = Some b \<and> ft_node t b \<and> ceph_frag_contains_frag b x
    \<and> (fbits b < fbits x \<longrightarrow> get_split t b \<noteq> 0 \<longrightarrow> fbits x < fbits b + get_split t b)"
proof -
  have ok: "ft_ok t" using assms(1) by (simp add: ft_wf_at_def)
  obtain g where g: "get_branch t x = Some g" "frag_ok g" "ceph_frag_contains_frag g x" "g = frag_root \<or> get_split t g \<noteq> 0"
    "\<forall>h. frag_ok h \<longrightarrow> ceph_frag_contains_frag h x \<longrightarrow> fbits g < fbits h \<longrightarrow> get_split t h = 0"
    using get_branch_Some [OF assms(2)] by blast
  have n: "ft_node t g" using g(3,4) assms(1) frag_root_node by (auto simp: ft_wf_at_def)
  let ?nb = "get_split t g"
  show ?thesis
  proof (cases "?nb > 0 \<and> fbits g + ?nb \<le> fbits x")
    case True
    then have nb: "?nb \<noteq> 0" "fbits g + ?nb \<le> 24" using frag_ok_fbits [OF assms(2)] by auto
    define b where "b = ceph_frag_make (ceph_frag_bits g + of_nat ?nb) (ceph_frag_value x)"
    let ?i = "child_index g ?nb (ceph_frag_value x)"
    have bits: "fbits b = fbits g + ?nb" using nb(2) unat_plus_nat [OF nb(2)] by (simp add: b_def)
    have okb: "frag_ok b" using nb(2) unat_plus_nat [OF nb(2)] by (simp add: b_def)
    have bx: "ceph_frag_contains_frag b x"
      using nb(2) unat_plus_nat [OF nb(2)] True okb assms(2) bits
      by (simp add: contains_frag_iff contains_value_bits) (simp add: b_def)
    have "b = ceph_frag_make_child g ?nb ?i"
      using frag_eq_common [OF okb frag_ok_make_child [OF nb(2)] _ child_of_value [OF g(2) nb(2)]] bx g(3) bits
        make_child_bits [OF nb(2)] contains_frag_iff [OF okb assms(2)] contains_frag_iff [OF g(2) assms(2)] by simp
    then have "ft_node t b" using ft_node_child [OF ok n nb(1) child_index_less] by simp
    moreover have "get_split t b = 0" using g(5) okb bx bits nb(1) by simp
    ultimately show ?thesis using True g(1) bx by (simp add: get_branch_or_leaf_def Let_def b_def)
  next
    case False
    then show ?thesis using g(1,3) n by (auto simp: get_branch_or_leaf_def)
  qed
qed

lemma get_leaves_under_Some:
  assumes "ft_wf_at t x" "frag_ok x"
  shows "\<exists>ls. get_leaves_under t x = Some ls \<and> distinct ls
    \<and> set ls = {l \<in> set (ft_leaves t frag_root). ceph_frag_contains_frag x l}"
proof -
  have ok: "ft_ok t" using assms(1) by (simp add: ft_wf_at_def)
  obtain b where b: "get_branch_or_leaf t x = Some b" "ft_node t b" "ceph_frag_contains_frag b x"
    using get_branch_or_leaf_Some [OF assms] by blast
  note okb = ft_node_ok [OF b(2)]
  obtain r where r: "leaves_under_loop t x [b] [] = Some r" "mset r = mset (filter (ceph_frag_contains_frag x) (ft_leaves t b))"
    using leaves_under_loop_eq [OF ok assms(2), of "[b]" "[]"] okb by auto
  have "distinct r" using r(2) ft_leaves_distinct [OF ok okb] by (metis distinct_filter mset_eq_imp_distinct_iff)
  moreover have "set r = {l \<in> set (ft_leaves t b). ceph_frag_contains_frag x l}" using mset_eq_setD [OF r(2)] by simp
  moreover have "ceph_frag_contains_frag b l" if "l \<in> set (ft_leaves t frag_root)" "ceph_frag_contains_frag x l" for l
    using contains_frag_trans [OF okb assms(2) _ b(3) that(2)] ft_leaves_within [OF ok frag_root_ok(1) that(1)] by blast
  ultimately show ?thesis
    using b(1) r(1) ft_leaves_node [OF ok b(2)] by (auto simp: get_leaves_under_def)
qed

lemma is_leaf_eq:
  assumes "ft_wf_at t x" "frag_ok x"
  shows "is_leaf t x = Some (x \<in> set (ft_leaves t frag_root))"
proof -
  have ok: "ft_ok t" using assms(1) by (simp add: ft_wf_at_def)
  obtain ls where ls: "get_leaves_under t x = Some ls" "distinct ls"
    "set ls = {l \<in> set (ft_leaves t frag_root). ceph_frag_contains_frag x l}"
    using get_leaves_under_Some [OF assms] by blast
  have "l = x" if "x \<in> set (ft_leaves t frag_root)" "l \<in> set ls" for l
    using that ls(3) ft_node_contains [OF ok, of x l] by (auto simp: ft_leaves_nodes(1) [OF ok])
  then have "set ls = {x}" if "x \<in> set (ft_leaves t frag_root)"
    using that ls(3) contains_frag_refl [OF assms(2)] by blast
  then have "length ls = 1 \<and> hd ls = x" if "x \<in> set (ft_leaves t frag_root)"
    using that ls(2) by (cases ls) (auto simp: insert_eq_iff subset_singleton_iff)
  moreover have "x \<in> set (ft_leaves t frag_root)" if "ls \<noteq> []" "hd ls = x" using that ls(3) hd_in_set by blast
  ultimately show ?thesis using ls(1) by (auto simp: is_leaf_def)
qed

text \<open>A split fragment is no leaf, in any tree.\<close>

lemma length_concat_ge: "(\<And>xs. xs \<in> set xss \<Longrightarrow> xs \<noteq> []) \<Longrightarrow> length xss \<le> length (concat xss)"
proof (induction xss)
  case (Cons xs xss)
  then have "xs \<noteq> []" "length xss \<le> length (concat xss)" by simp_all
  then show ?case by (cases xs) simp_all
qed simp

lemma is_leaf_split:
  assumes "ft_ok t" "get_split t x \<noteq> 0"
  shows "is_leaf t x = Some False"
proof -
  have ok: "frag_ok x" "fbits x + get_split t x \<le> 24" using get_split_ok [OF assms] by auto
  have b: "get_branch_or_leaf t x = Some x"
    using assms(2) by (auto simp: get_branch_or_leaf_def get_branch.simps [of t x] Let_def)
  obtain r where r: "leaves_under_loop t x [x] [] = Some r" "mset r = mset (filter (ceph_frag_contains_frag x) (ft_leaves t x))"
    using leaves_under_loop_eq [OF assms(1) ok(1), of "[x]" "[]"] ok(1) by auto
  have "filter (ceph_frag_contains_frag x) (ft_leaves t x) = ft_leaves t x"
    using ft_leaves_contained [OF assms(1) ok(1)] by (simp add: filter_id_conv)
  then have "length r = length (ft_leaves t x)" using r(2) by (metis size_mset)
  moreover have "length (map (ft_leaves t) (frag_children x (get_split t x))) \<le> length (ft_leaves t x)"
    unfolding ft_leaves_split [OF assms] using ft_leaves_nonempty [OF assms(1) frag_ok_make_child [OF ok(2)]]
    by (intro length_concat_ge) auto
  moreover have "(2 :: nat) ^ 1 \<le> 2 ^ get_split t x" using assms(2) by (intro power_increasing) auto
  ultimately show ?thesis using b r(1) by (simp add: is_leaf_def get_leaves_under_def)
qed

lemma is_leaf_unsplit:
  assumes "ft_wf_at t x" "ft_node t x" "get_split t x = 0"
  shows "is_leaf t x = Some True"
  using is_leaf_eq [OF assms(1) ft_node_ok [OF assms(2)]] assms by (simp add: ft_leaves_nodes(1) ft_wf_at_def)

section \<open>Changing the splits\<close>

lemma get_split_set [simp]: "get_split (omap_set x b t) f = (if f = x then b else get_split t f)"
  by (simp add: get_split_def)

lemma get_split_erase [simp]: "get_split (omap_erase x t) f = (if f = x then 0 else get_split t f)"
  by (simp add: get_split_def)

lemma get_split_erases: "get_split (fold omap_erase cs t) f = (if f \<in> set cs then 0 else get_split t f)"
  by (induction cs arbitrary: t) auto

lemma omap_ok_erases: "omap_ok t \<Longrightarrow> omap_ok (fold omap_erase cs t)"
  by (induction cs arbitrary: t) simp_all

lemma ft_ok_iff:
  assumes "omap_ok t"
  shows "ft_ok t \<longleftrightarrow> 0 \<notin> snd ` set t \<and> (\<forall>f. get_split t f \<noteq> 0 \<longrightarrow> frag_ok f \<and> fbits f + get_split t f \<le> 24)"
proof -
  have g: "get_split t f = b" if "(f, b) \<in> set t" for f b
    using map_of_is_SomeI [OF omap_ok_distinct [OF assms] that] by (simp add: get_split_def)
  show ?thesis
  proof
    show "ft_ok t \<Longrightarrow> 0 \<notin> snd ` set t \<and> (\<forall>f. get_split t f \<noteq> 0 \<longrightarrow> frag_ok f \<and> fbits f + get_split t f \<le> 24)"
      using get_split_ok by (fastforce simp: ft_ok_def)
    assume r: "0 \<notin> snd ` set t \<and> (\<forall>f. get_split t f \<noteq> 0 \<longrightarrow> frag_ok f \<and> fbits f + get_split t f \<le> 24)"
    show "ft_ok t" unfolding ft_ok_def
    proof clarify
      fix f b assume m: "(f, b) \<in> set t"
      then have "b \<noteq> 0" using r by force
      then show "frag_ok f \<and> 0 < b \<and> fbits f + b \<le> 24" using r g [OF m] by auto
    qed
  qed
qed

lemma zero_notin_set: "0 \<notin> snd ` set t \<Longrightarrow> b \<noteq> 0 \<Longrightarrow> 0 \<notin> snd ` set (omap_set x (b :: nat) t)"
  by (induction x b t rule: omap_set.induct) auto

lemma ft_ok_set:
  assumes "omap_ok t" "ft_ok t" "frag_ok x" "0 < b" "fbits x + b \<le> 24"
  shows "ft_ok (omap_set x b t)"
  using assms zero_notin_set [of t b x] by (simp add: ft_ok_iff)

lemma ft_ok_erase: "ft_ok t \<Longrightarrow> ft_ok (omap_erase x t)"
  by (auto simp: ft_ok_def omap_erase_def)

lemma ft_ok_erases: "ft_ok t \<Longrightarrow> ft_ok (fold omap_erase cs t)"
  by (induction cs arbitrary: t) (simp_all add: ft_ok_erase)

lemma ft_wf_iff: "ft_wf t \<longleftrightarrow> omap_ok t \<and> ft_ok t \<and> (\<forall>f. get_split t f \<noteq> 0 \<longrightarrow> ft_node t f)"
proof -
  have "f \<in> fst ` set t \<longleftrightarrow> get_split t f \<noteq> 0" if "ft_ok t" for f
    using that by (force simp: get_split_def ft_ok_def map_of_eq_None_iff dest: map_of_SomeD split: option.split)
  then show ?thesis unfolding ft_wf_def by blast
qed

text \<open>A path depends only on the splits along it.\<close>

lemma ft_path_cong:
  assumes "ft_ok t" "ft_ok t'" "\<forall>g\<in>set (ft_path t h v). get_split t' g = get_split t g"
  shows "ft_path t' h v = ft_path t h v"
  using assms(1,3)
proof (induction h rule: ft_induct)
  case (leaf h)
  then show ?case by (simp add: ft_path_leaf)
next
  case (split h)
  have h: "get_split t' h = get_split t h" using split.prems ft_path_hd by blast
  then show ?case
    using split.IH [OF child_index_less] split.prems
      ft_path_split [OF assms(1) split(1)] ft_path_split [OF assms(2), of h] split(1) by simp
qed

text \<open>Nodes that are not strictly below \<open>x\<close> do not depend on the splits at and below \<open>x\<close>.\<close>

lemma ft_path_outside:
  assumes "ft_ok t" "ft_ok t'" "frag_ok x" "\<forall>f. \<not> ceph_frag_contains_frag x f \<longrightarrow> get_split t' f = get_split t f"
    "g = x \<or> \<not> ceph_frag_contains_frag x g" "frag_ok h" "ceph_frag_contains_value h v" "g \<in> set (ft_path t h v)"
  shows "g \<in> set (ft_path t' h v)"
  using assms(1,6,7,8)
proof (induction h rule: ft_induct)
  case (leaf h)
  then show ?case by (simp add: ft_path_leaf ft_path_hd)
next
  case (split h)
  let ?nb = "get_split t h"
  let ?c = "ceph_frag_make_child h ?nb (child_index h ?nb v)"
  note c = frag_ok_make_child [OF split(3)] child_of_value [OF split(2,3) split.prems(2)]
  show ?case
  proof (cases "g = h")
    case False
    then have g: "g \<in> set (ft_path t ?c v)" using split.prems(3) ft_path_split [OF assms(1) split(1)] by simp
    have e: "frag_ok g" "ceph_frag_contains_value g v" "fbits h + ?nb \<le> fbits g"
      using ft_path_elem [OF assms(1) split.prems] False by blast+
    have hg: "ceph_frag_contains_frag h g"
      using contains_frag_common [OF split.prems(1) e(1) split.prems(2) e(2)] e(3) by simp
    have "\<not> ceph_frag_contains_frag x h"
    proof
      assume xh: "ceph_frag_contains_frag x h"
      then have "ceph_frag_contains_frag x g" using contains_frag_trans [OF assms(3) split.prems(1) e(1) _ hg] by blast
      then have "g = x" using assms(5) by blast
      then show False using xh e(3) split(1) contains_frag_iff [OF assms(3) split.prems(1)] by simp
    qed
    then have "get_split t' h = ?nb" using assms(4) by blast
    then show ?thesis
      using split.IH [OF child_index_less c g] ft_path_split [OF assms(2), of h v] split(1) by simp
  qed (simp add: ft_path_hd)
qed

lemma ft_node_outside:
  assumes "ft_ok t" "ft_ok t'" "frag_ok x" "\<forall>f. \<not> ceph_frag_contains_frag x f \<longrightarrow> get_split t' f = get_split t f"
    "g = x \<or> \<not> ceph_frag_contains_frag x g" "ft_node t g"
  shows "ft_node t' g"
  using ft_path_outside [OF assms(1-5) frag_root_ok(1) frag_root_contains] assms(6) by (simp add: ft_node_def)

text \<open>The leaf of a value.\<close>

lemma fragtree_lookup_eq: "ft_ok t \<Longrightarrow> fragtree_lookup t v = Some (last (ft_path t frag_root v))"
  using ft_path_last(4) [OF _ frag_root_ok(1) frag_root_contains] by (simp add: fragtree_lookup_def)

lemma fragtree_lookup_iff:
  assumes "ft_ok t"
  shows "fragtree_lookup t v = Some f \<longleftrightarrow> ft_node t f \<and> get_split t f = 0 \<and> ceph_frag_contains_value f v"
proof -
  note l = ft_path_last [OF assms frag_root_ok(1) frag_root_contains [of v]]
  show ?thesis using l(1,2) l(3) [of f] by (auto simp: fragtree_lookup_eq [OF assms] ft_leaves_nodes(1) [OF assms])
qed

section \<open>Splitting a leaf\<close>

lemma split_wf:
  assumes "ft_wf t" "ft_node t x" "get_split t x = 0" "0 < b" "fbits x + b \<le> 24"
  shows "ft_wf (omap_set x b t)"
    "fragtree_lookup (omap_set x b t) v =
       (if ceph_frag_contains_value x v then Some (ceph_frag_make_child x b (child_index x b v)) else fragtree_lookup t v)"
proof -
  let ?t = "omap_set x b t"
  note t = ft_wfD [OF assms(1)] and x = ft_node_ok [OF assms(2)]
  have t': "ft_ok ?t" using ft_ok_set [OF t x assms(4,5)] .
  have out: "\<forall>f. \<not> ceph_frag_contains_frag x f \<longrightarrow> get_split ?t f = get_split t f"
    using contains_frag_refl [OF x] by auto
  have below: "f = x" if "ft_node t f" "ceph_frag_contains_frag x f" for f
    using ft_node_contains [OF t(2) assms(2) that(1) that(2)] assms(3) by blast
  have node: "ft_node ?t f" if "ft_node t f" for f
    using ft_node_outside [OF t(2) t' x out _ that] below [OF that] by blast
  show "ft_wf ?t"
    unfolding ft_wf_iff using t(1) t' node assms(2) ft_wf_node [OF assms(1)] by simp
  let ?c = "ceph_frag_make_child x b (child_index x b v)"
  show "fragtree_lookup ?t v = (if ceph_frag_contains_value x v then Some ?c else fragtree_lookup t v)"
  proof (cases "ceph_frag_contains_value x v")
    case True
    have "ft_node ?t ?c" using ft_node_child [OF t' node [OF assms(2)]] assms(4) child_index_less by simp
    moreover have "?c \<noteq> x" using make_child_bits [OF assms(5), of "child_index x b v"] assms(4) by auto
    moreover have "get_split t ?c = 0"
      using below [OF ft_wf_node [OF assms(1)]] child_contains_frag [OF x assms(5) child_index_less] \<open>?c \<noteq> x\<close> by blast
    ultimately show ?thesis using True fragtree_lookup_iff [OF t'] child_of_value [OF x assms(5) True] by simp
  next
    case False
    obtain f where f: "fragtree_lookup t v = Some f" using fragtree_lookup_eq [OF t(2)] by blast
    then have "ft_node t f" "get_split t f = 0" "ceph_frag_contains_value f v" using fragtree_lookup_iff [OF t(2)] by blast+
    moreover have "f \<noteq> x" using False \<open>ceph_frag_contains_value f v\<close> by blast
    ultimately have "fragtree_lookup ?t v = Some f" using fragtree_lookup_iff [OF t'] node by simp
    then show ?thesis using False f by simp
  qed
qed

end
