(* ===== verification/Frag_Force.thy ===== *)
theory Frag_Force
  imports Frag_Update
begin

text \<open>
  The operations that change a fragment tree: \<^verbatim>\<open>split\<close>, \<^verbatim>\<open>merge\<close>, \<^verbatim>\<open>try_assimilate_children\<close> and \<^verbatim>\<open>force_to_leaf\<close>. On a
  well-formed tree none of their assertions fails, they keep the tree well formed, and they change the leaf of a
  value only where they should.
\<close>

section \<open>Assimilation\<close>

text \<open>
  In \<open>t\<close> the fragment \<open>x\<close> is split by \<open>n\<close> bits and each child by \<open>m\<close>; in \<open>t'\<close> it is split by \<open>n + m\<close> bits at once.
\<close>

definition assimilated :: "fragtree \<Rightarrow> fragtree \<Rightarrow> frag \<Rightarrow> nat \<Rightarrow> nat \<Rightarrow> bool" where
  "assimilated t t' x n m \<longleftrightarrow> 0 < n \<and> 0 < m \<and> get_split t x = n \<and> (\<forall>c\<in>set (frag_children x n). get_split t c = m)
     \<and> (\<forall>f. get_split t' f = (if f = x then n + m else if f \<in> set (frag_children x n) then 0 else get_split t f))"

lemma grandchild:
  assumes "frag_ok x" "fbits x + (n + m) \<le> 24" "ceph_frag_contains_value x v"
  defines "c \<equiv> ceph_frag_make_child x n (child_index x n v)"
  shows "ceph_frag_make_child c m (child_index c m v) = ceph_frag_make_child x (n + m) (child_index x (n + m) v)"
proof -
  have n: "fbits x + n \<le> 24" using assms(2) by simp
  have c: "frag_ok c" "ceph_frag_contains_value c v" "fbits c = fbits x + n"
    unfolding c_def using frag_ok_make_child [OF n] child_of_value [OF assms(1) n assms(3)] make_child_bits [OF n] by auto
  have m: "fbits c + m \<le> 24" using c(3) assms(2) by simp
  show ?thesis
    using frag_eq_common [OF frag_ok_make_child [OF m] frag_ok_make_child [OF assms(2)] child_of_value [OF c(1) m c(2)]
        child_of_value [OF assms(1,2,3)]] make_child_bits [OF m] make_child_bits [OF assms(2)] c(3) by simp
qed

lemma children_disjoint:
  assumes "ft_ok t" "ft_node t h" "ft_node t x" "h \<noteq> x" "get_split t h \<noteq> 0" "get_split t x \<noteq> 0" "j < 2 ^ get_split t h"
  shows "ceph_frag_make_child h (get_split t h) j \<notin> set (frag_children x (get_split t x))"
proof
  let ?c = "ceph_frag_make_child h (get_split t h) j"
  assume "?c \<in> set (frag_children x (get_split t x))"
  then obtain i where i: "i < 2 ^ get_split t x" "?c = ceph_frag_make_child x (get_split t x) i" by auto
  note h = get_split_ok [OF assms(1,5)] and x = get_split_ok [OF assms(1,6)]
  have bits: "fbits x + get_split t x = fbits h + get_split t h"
    using i(2) make_child_bits [OF conjunct2 [OF x], of i] make_child_bits [OF conjunct2 [OF h], of j] by simp
  let ?v = "ceph_frag_value ?c"
  have "ceph_frag_contains_value ?c ?v" using contains_own_value frag_ok_make_child [OF conjunct2 [OF h]] by blast
  then have v: "ceph_frag_contains_value x ?v" "ceph_frag_contains_value h ?v"
    using contains_child [of x _ i] contains_child [of h _ j] i h x assms(7) by metis+
  consider "fbits h \<le> fbits x" | "fbits x \<le> fbits h" by linarith
  then show False
    using ft_node_order [OF assms(1-3) v(2,1) assms(4)] ft_node_order [OF assms(1,3,2) v] assms(4-6) bits
    by cases auto
qed

lemma assimilated_path:
  assumes "ft_ok t" "ft_ok t'" "ft_node t x" "assimilated t t' x n m" "ft_node t h" "h \<notin> set (frag_children x n)"
    "ceph_frag_contains_value h v"
  shows "ft_path t' h v = filter (\<lambda>g. g \<notin> set (frag_children x n)) (ft_path t h v)"
  using assms(5-7)
proof (induction "24 - fbits h" arbitrary: h rule: less_induct)
  case less
  note a = assms(4) [unfolded assimilated_def]
  note h = ft_node_ok [OF less.prems(1)]
  let ?nb = "get_split t h"
  let ?c = "ceph_frag_make_child h ?nb (child_index h ?nb v)"
  show ?case
  proof (cases "?nb = 0")
    case True
    then have "get_split t' h = 0" using a less.prems(2) by auto
    then show ?thesis using True less.prems(2) by (simp add: ft_path_leaf)
  next
    case False
    have nb: "fbits h + ?nb \<le> 24" using get_split_ok [OF assms(1) False] by blast
    note c = frag_ok_make_child [OF nb, of "child_index h ?nb v"] child_of_value [OF h nb less.prems(3)]
      ft_node_child [OF assms(1) less.prems(1) False child_index_less [of h ?nb v]] make_child_bits [OF nb, of "child_index h ?nb v"]
    note ph = ft_path_split [OF assms(1) False, of v]
    show ?thesis
    proof (cases "h = x")
      case True
      have child: "?c \<in> set (frag_children x n)" using a True child_index_less [of x n v] by auto
      have cm: "get_split t ?c = m" "m \<noteq> 0" using a child by auto
      let ?g = "ceph_frag_make_child ?c m (child_index ?c m v)"
      have nm: "fbits x + (n + m) \<le> 24" using get_split_ok [OF assms(2), of x] a by auto
      have g: "?g = ceph_frag_make_child x (n + m) (child_index x (n + m) v)"
        using grandchild [OF _ nm] h less.prems(3) a True by auto
      have gn: "ft_node t ?g" using ft_node_child [OF assms(1) c(3)] cm child_index_less by simp
      have gb: "fbits ?g = fbits x + (n + m)" unfolding g by (rule make_child_bits [OF nm])
      have gnot: "?g \<notin> set (frag_children x n)" using gb make_child_bits [of x n] nm cm(2) by auto
      have gv: "ceph_frag_contains_value ?g v" unfolding g using child_of_value [OF _ nm] h less.prems(3) True by simp
      have "ft_path t' ?g v = filter (\<lambda>g. g \<notin> set (frag_children x n)) (ft_path t ?g v)"
        using less.hyps [OF _ gn gnot gv] gb nm cm(2) True by simp
      moreover have "ft_path t x v = x # ?c # ft_path t ?g v"
        using ph ft_path_split [OF assms(1), of ?c v] cm True by simp
      moreover have "ft_path t' x v = x # ft_path t' ?g v"
        using ft_path_split [OF assms(2), of x v] a unfolding g by simp
      ultimately show ?thesis using True child less.prems(2) by simp
    next
      case hx: False
      have "?c \<notin> set (frag_children x n)"
        using children_disjoint [OF assms(1) less.prems(1) assms(3) hx False _ child_index_less] a by simp
      moreover have "24 - fbits ?c < 24 - fbits h" using c(4) nb False by simp
      ultimately have "ft_path t' ?c v = filter (\<lambda>g. g \<notin> set (frag_children x n)) (ft_path t ?c v)"
        using less.hyps [OF _ c(3)] c(2) by blast
      moreover have "get_split t' h = ?nb" using a hx less.prems(2) by auto
      ultimately show ?thesis using ph ft_path_split [OF assms(2), of h v] False less.prems(2) by simp
    qed
  qed
qed

lemma own_child:
  assumes "0 < n" "fbits x + n \<le> 24"
  shows "x \<notin> set (frag_children x n)"
proof
  assume "x \<in> set (frag_children x n)"
  then obtain i where i: "x = ceph_frag_make_child x n i" by auto
  show False using make_child_bits [OF assms(2), of i] assms(1) by (simp flip: i)
qed

lemma last_filter_last: "xs \<noteq> [] \<Longrightarrow> P (last xs) \<Longrightarrow> last (filter P xs) = last xs"
  by (cases xs rule: rev_cases) auto

lemma assimilated_bits:
  assumes "ft_ok t'" "assimilated t t' x n m"
  shows "frag_ok x" "fbits x + (n + m) \<le> 24" "x \<notin> set (frag_children x n)" "frag_root \<notin> set (frag_children x n)"
    "c \<in> set (frag_children x n) \<Longrightarrow> ceph_frag_contains_frag x c"
proof -
  note a = assms(2) [unfolded assimilated_def]
  have "get_split t' x = n + m" using a by simp
  then show x: "frag_ok x" "fbits x + (n + m) \<le> 24" using get_split_ok [OF assms(1), of x] a by auto
  then have "fbits c = fbits x + n" if "c \<in> set (frag_children x n)" for c using that make_child_bits [of x n] by auto
  then show "x \<notin> set (frag_children x n)" "frag_root \<notin> set (frag_children x n)" using a by fastforce+
  show "ceph_frag_contains_frag x c" if "c \<in> set (frag_children x n)" using child_contains_frag [OF x(1), of n] x(2) that by auto
qed

lemma assimilated_root_path:
  assumes "ft_ok t" "ft_ok t'" "ft_node t x" "assimilated t t' x n m"
  shows "ft_path t' frag_root v = filter (\<lambda>g. g \<notin> set (frag_children x n)) (ft_path t frag_root v)"
    "fragtree_lookup t' v = fragtree_lookup t v"
proof -
  show p: "ft_path t' frag_root v = filter (\<lambda>g. g \<notin> set (frag_children x n)) (ft_path t frag_root v)"
    using assimilated_path [OF assms frag_root_node assimilated_bits(4) [OF assms(2,4)]] by simp
  have "last (ft_path t frag_root v) \<notin> set (frag_children x n)"
    using ft_path_last_leaf [OF assms(1), of frag_root v] assms(4) unfolding assimilated_def by (metis less_irrefl)
  then show "fragtree_lookup t' v = fragtree_lookup t v"
    using p by (simp add: fragtree_lookup_eq assms(1,2) last_filter_last)
qed

lemma assimilated_wf:
  assumes "ft_wf t" "omap_ok t'" "ft_ok t'" "ft_node t x" "assimilated t t' x n m"
  shows "ft_wf t'"
proof -
  note a = assms(5) [unfolded assimilated_def] and t = ft_wfD(2) [OF assms(1)]
  have "ft_node t' f" if f: "get_split t' f \<noteq> 0" for f
  proof -
    have "get_split t' f = (if f = x then n + m else if f \<in> set (frag_children x n) then 0 else get_split t f)" using a by blast
    then have "f \<notin> set (frag_children x n)" using f assimilated_bits(3) [OF assms(3,5)] by (cases "f = x") argo+
    moreover have "ft_node t f" using f a ft_wf_node [OF assms(1), of f] assms(4) by (auto split: if_split_asm)
    ultimately show ?thesis using assimilated_root_path(1) [OF t assms(3-5)] by (simp add: ft_node_def)
  qed
  then show ?thesis using assms(2,3) by (simp add: ft_wf_iff)
qed

lemma assimilated_expand:
  assumes "ft_wf t'" "omap_ok t" "ft_ok t" "ft_node t' x" "assimilated t t' x n m"
  shows "ft_wf t" "fragtree_lookup t v = fragtree_lookup t' v"
proof -
  note a = assms(5) [unfolded assimilated_def] and t' = ft_wfD(2) [OF assms(1)]
  note b = assimilated_bits [OF t' assms(5)]
  have "get_split t f = get_split t' f" if "\<not> ceph_frag_contains_frag x f" for f
    using that a b(5) [of f] contains_frag_refl [OF b(1)] by auto
  then have x: "ft_node t x" using ft_node_outside [OF t' assms(3) b(1), of x] assms(4) by blast
  note p = assimilated_root_path [OF assms(3) t' x assms(5)]
  have "ft_node t f" if f: "get_split t f \<noteq> 0" for f
  proof (cases "f \<in> set (frag_children x n)")
    case True
    then show ?thesis using ft_node_child [OF assms(3) x] a by auto
  next
    case False
    then have "ft_node t' f" using f a ft_wf_node [OF assms(1), of f] assms(4) by (cases "f = x") auto
    then show ?thesis using p(1) by (simp add: ft_node_def)
  qed
  then show "ft_wf t" using assms(2,3) by (simp add: ft_wf_iff)
  show "fragtree_lookup t v = fragtree_lookup t' v" using p(2) by simp
qed

lemma common_split_Some:
  assumes "common_split t cs k = Some m" "cs \<noteq> []"
  shows "m \<noteq> 0 \<and> (\<forall>c\<in>set cs. get_split t c = m) \<and> (k \<noteq> 0 \<longrightarrow> k = m)"
  using assms
proof (induction cs arbitrary: k)
  case (Cons c cs)
  then show ?case by (cases "cs = []") (auto simp: Let_def split: if_split_asm)
qed simp

lemma try_assimilate_children_ok:
  assumes "ft_wf t"
  shows "\<exists>t'. try_assimilate_children t x = Some t' \<and> ft_wf t' \<and> (\<forall>v. fragtree_lookup t' v = fragtree_lookup t v)"
proof -
  let ?n = "get_split t x"
  let ?cs = "frag_children x ?n"
  note t = ft_wfD [OF assms]
  consider "?n = 0" | "?n \<noteq> 0" "common_split t ?cs 0 = None" | m where "?n \<noteq> 0" "common_split t ?cs 0 = Some m" by auto
  then show ?thesis
  proof cases
    case 3
    define t' where "t' = omap_set x (get_split (fold omap_erase ?cs t) x + m) (fold omap_erase ?cs t)"
    have cs: "m \<noteq> 0" "\<forall>c\<in>set ?cs. get_split t c = m" using common_split_Some [OF 3(2)] by auto
    note x = conjunct1 [OF get_split_ok [OF t(2) 3(1)]] conjunct2 [OF get_split_ok [OF t(2) 3(1)]]
    have b: "fbits (ceph_frag_make_child x ?n i) = fbits x + ?n" for i using make_child_bits [OF x(2)] .
    have "x \<notin> set ?cs" using own_child [OF _ x(2)] 3(1) by blast
    then have s: "get_split t' f = (if f = x then ?n + m else if f \<in> set ?cs then 0 else get_split t f)" for f
      unfolding t'_def by (simp only: get_split_set get_split_erases if_False)
    then have a: "assimilated t t' x ?n m" unfolding assimilated_def using cs 3(1) by blast
    have "get_split t (ceph_frag_make_child x ?n 0) = m" using bspec [OF cs(2), of "ceph_frag_make_child x ?n 0"] by force
    then have "fbits x + (?n + m) \<le> 24" using get_split_ok [OF t(2), of "ceph_frag_make_child x ?n 0"] cs(1) b [of 0] by linarith
    then have "ft_ok t'" unfolding t'_def
      using 3(1) \<open>x \<notin> set ?cs\<close> by (intro ft_ok_set omap_ok_erases ft_ok_erases t x) (simp_all add: get_split_erases)
    moreover have "omap_ok t'" unfolding t'_def by (intro omap_ok_set omap_ok_erases t)
    moreover have "ft_node t x" using ft_wf_node [OF assms] 3(1) by blast
    ultimately have "ft_wf t'" "\<forall>v. fragtree_lookup t' v = fragtree_lookup t v"
      using assimilated_wf [OF assms _ _ _ a] assimilated_root_path(2) [OF t(2) _ _ a] by blast+
    moreover have "try_assimilate_children t x = Some t'"
      using 3 by (simp add: try_assimilate_children_def frag_split_eq Let_def t'_def)
    ultimately show ?thesis by blast
  next
    case 1
    then have "try_assimilate_children t x = Some t" by (simp add: try_assimilate_children_def)
    then show ?thesis using assms by blast
  next
    case 2
    then have "try_assimilate_children t x = Some t" by (simp add: try_assimilate_children_def frag_split_eq Let_def)
    then show ?thesis using assms by blast
  qed
qed

lemma simplify_ok:
  assumes "ft_wf t" "frag_ok x"
  shows "\<exists>t'. (if simplify then get_branch_above t x \<bind> try_assimilate_children t else Some t) = Some t' \<and> ft_wf t'
    \<and> (\<forall>v. fragtree_lookup t' v = fragtree_lookup t v)"
proof (cases simplify)
  case True
  obtain g where "get_branch_above t x = Some g" using get_branch_above_Some [OF assms(2)] by blast
  then show ?thesis using True try_assimilate_children_ok [OF assms(1), of g] by simp
qed (use assms(1) in simp)

lemma fragtree_split_ok:
  assumes "ft_wf t" "ft_node t x" "get_split t x = 0" "0 < b" "fbits x + b \<le> 24"
  shows "\<exists>t'. fragtree_split t x b simplify = Some t' \<and> ft_wf t'
    \<and> (\<forall>v. fragtree_lookup t' v = (if ceph_frag_contains_value x v then Some (ceph_frag_make_child x b (child_index x b v))
                                else fragtree_lookup t v))"
  using simplify_ok [OF split_wf(1) [OF assms] ft_node_ok [OF assms(2)], of simplify] split_wf(2) [OF assms]
    is_leaf_unsplit [OF ft_wf_at [OF assms(1)] assms(2,3)] by (auto simp: fragtree_split_def Let_def assert_that_def)

section \<open>Cutting below a fragment\<close>

lemma cut_wf:
  assumes "ft_wf t" "ft_node t x" "omap_ok t'" "ft_ok t'"
    "\<forall>f. get_split t' f = (if ceph_frag_contains_frag x f then 0 else get_split t f)"
  shows "ft_wf t'" "ft_node t' x"
    "fragtree_lookup t' v = (if ceph_frag_contains_value x v then Some x else fragtree_lookup t v)"
proof -
  note t = ft_wfD(2) [OF assms(1)] and x = ft_node_ok [OF assms(2)]
  have node: "ft_node t' g" if "ft_node t g" "g = x \<or> \<not> ceph_frag_contains_frag x g" for g
    using ft_node_outside [OF t assms(4) x _ that(2,1)] assms(5) by simp
  show wf: "ft_wf t'"
    unfolding ft_wf_iff using assms(3-5) node ft_wf_node [OF assms(1)] by (metis (full_types))
  show nx: "ft_node t' x" using node assms(2) by blast
  show "fragtree_lookup t' v = (if ceph_frag_contains_value x v then Some x else fragtree_lookup t v)"
  proof (cases "ceph_frag_contains_value x v")
    case True
    then show ?thesis using nx assms(5) contains_frag_refl [OF x] by (simp add: fragtree_lookup_iff [OF assms(4)])
  next
    case False
    obtain f where f: "fragtree_lookup t v = Some f" using fragtree_lookup_eq [OF t] by blast
    then have n: "ft_node t f" "get_split t f = 0" "ceph_frag_contains_value f v" using fragtree_lookup_iff [OF t] by blast+
    then have "\<not> ceph_frag_contains_frag x f" using False contains_frag_value [OF x ft_node_ok [OF n(1)]] by blast
    then have "fragtree_lookup t' v = Some f" using fragtree_lookup_iff [OF assms(4)] n node assms(5) by simp
    then show ?thesis using False f by simp
  qed
qed

lemma erase_cut:
  assumes "ft_wf t" "get_split t x \<noteq> 0" "\<forall>c\<in>set (frag_children x (get_split t x)). get_split t c = 0"
  shows "get_split (omap_erase x t) f = (if ceph_frag_contains_frag x f then 0 else get_split t f)"
proof -
  note t = ft_wfD(2) [OF assms(1)]
  have nx: "ft_node t x" using ft_wf_node [OF assms(1)] assms(2) by blast
  define b where "b = get_split t x"
  have b: "b \<noteq> 0" "frag_ok x" "fbits x + b \<le> 24" using get_split_ok [OF t assms(2)] assms(2) by (auto simp: b_def)
  have "get_split t f = 0" if f: "ceph_frag_contains_frag x f" "f \<noteq> x"
  proof (rule ccontr)
    assume s: "get_split t f \<noteq> 0"
    then have nf: "ft_node t f" using ft_wf_node [OF assms(1)] by blast
    let ?c = "ceph_frag_make_child x b (child_index x b (ceph_frag_value f))"
    note c = frag_ok_make_child [OF b(3)] make_child_bits [OF b(3)]
    have nc: "ft_node t ?c" using ft_node_child [OF t nx assms(2)] child_index_less unfolding b_def by blast
    have "ceph_frag_contains_value x (ceph_frag_value f)" using f(1) contains_frag_iff [OF b(2) ft_node_ok [OF nf]] by blast
    then have "ceph_frag_contains_value ?c (ceph_frag_value f)" using child_of_value [OF b(2,3)] by blast
    moreover have "fbits ?c \<le> fbits f" using ft_node_contains [OF t nx nf f(1)] f(2) c(2) unfolding b_def by simp
    ultimately have "ceph_frag_contains_frag ?c f" using contains_frag_iff [OF c(1) ft_node_ok [OF nf]] by blast
    moreover have "get_split t ?c = 0" using assms(3) child_index_less unfolding b_def by simp
    ultimately show False using ft_node_contains [OF t nc nf] s by metis
  qed
  then show ?thesis using contains_frag_refl [OF b(2)] by auto
qed

lemma fragtree_merge_ok:
  assumes "ft_wf t" "get_split t x = b" "0 < b" "\<forall>c\<in>set (frag_children x b). get_split t c = 0"
  shows "\<exists>t'. fragtree_merge t x b simplify = Some t' \<and> ft_wf t'
    \<and> (\<forall>v. fragtree_lookup t' v = (if ceph_frag_contains_value x v then Some x else fragtree_lookup t v))"
proof -
  note t = ft_wfD [OF assms(1)]
  have s: "get_split t x \<noteq> 0" using assms(2,3) by simp
  have nx: "ft_node t x" using ft_wf_node [OF assms(1)] s by blast
  have e: "get_split (omap_erase x t) f = (if ceph_frag_contains_frag x f then 0 else get_split t f)" for f
    using erase_cut [OF assms(1) s] assms(2,4) by blast
  note w = cut_wf [OF assms(1) nx omap_ok_erase [OF t(1)] ft_ok_erase [OF t(2)]]
  have "ft_wf (omap_erase x t)" using w(1) e by blast
  then obtain t' where "(if simplify then get_branch_above (omap_erase x t) x \<bind> try_assimilate_children (omap_erase x t)
      else Some (omap_erase x t)) = Some t'" "ft_wf t'" "\<forall>v. fragtree_lookup t' v = fragtree_lookup (omap_erase x t) v"
    using simplify_ok [OF _ ft_node_ok [OF nx]] by blast
  then show ?thesis
    using is_leaf_split [OF t(2) s] assms(2) w(3) e by (simp add: fragtree_merge_def Let_def)
qed

section \<open>The last loop of force\_to\_leaf\<close>

lemma ft_path_erase:
  assumes "ft_ok t" "f \<in> set (ft_path t h v)" "f \<noteq> y" "get_split t y \<noteq> 0" "ceph_frag_contains_value h v"
  shows "h \<noteq> y \<and> f \<in> set (ft_path (omap_erase y t) h v) \<or> ceph_frag_contains_value y v
    \<and> f \<in> set (ft_path t (ceph_frag_make_child y (get_split t y) (child_index y (get_split t y) v)) v)"
  using assms(1,2,5)
proof (induction h rule: ft_induct)
  case (leaf h)
  then show ?case using assms(4) by (auto simp: ft_path_leaf)
next
  case (split h)
  let ?c = "ceph_frag_make_child h (get_split t h) (child_index h (get_split t h) v)"
  note p = ft_path_split [OF assms(1) split(1), of v]
  show ?case
  proof (cases "h = y")
    case True
    then show ?thesis using split.prems p assms(3) by simp
  next
    case False
    then have "ft_path (omap_erase y t) h v = h # ft_path (omap_erase y t) ?c v"
      using ft_path_split [OF ft_ok_erase [OF assms(1)], of y h v] split(1) by simp
    then show ?thesis
      using split.IH [OF child_index_less _ child_of_value [OF split(2,3) split.prems(2)]] split.prems(1) p False by auto
  qed
qed

lemma hoover_reach:
  assumes "ft_ok t" "get_split t y \<noteq> 0" "f \<noteq> y"
    "\<exists>z\<in>set (y # q). ceph_frag_contains_value z v \<and> f \<in> set (ft_path t z v)"
  shows "\<exists>z\<in>set (q @ frag_children y (get_split t y)). ceph_frag_contains_value z v \<and> f \<in> set (ft_path (omap_erase y t) z v)"
proof -
  let ?nb = "get_split t y"
  let ?c = "ceph_frag_make_child y ?nb (child_index y ?nb v)"
  have nb: "frag_ok y" "fbits y + ?nb \<le> 24" using get_split_ok [OF assms(1,2)] by auto
  obtain z where z: "z \<in> set (y # q)" "ceph_frag_contains_value z v" "f \<in> set (ft_path t z v)" using assms(4) by blast
  from ft_path_erase [OF assms(1) z(3) assms(3,2) z(2)] show ?thesis
  proof (elim disjE conjE)
    assume "z \<noteq> y" "f \<in> set (ft_path (omap_erase y t) z v)"
    then show ?thesis using z(1,2) by auto
  next
    assume v: "ceph_frag_contains_value y v" and f: "f \<in> set (ft_path t ?c v)"
    note c = frag_ok_make_child [OF nb(2)] child_of_value [OF nb v]
    have "g \<noteq> y" if "g \<in> set (ft_path t ?c v)" for g
      using ft_path_elem [OF assms(1) c that] make_child_bits [OF nb(2)] assms(2) by auto
    then have "ft_path (omap_erase y t) ?c v = ft_path t ?c v"
      by (intro ft_path_cong [OF assms(1) ft_ok_erase [OF assms(1)]]) simp
    moreover have "?c \<in> set (q @ frag_children y ?nb)" using child_index_less by simp
    ultimately show ?thesis using f c(2) by metis
  qed
qed

lemma hoover_Some:
  assumes "omap_ok t" "ft_ok t" "frag_ok x" "\<forall>y\<in>set q. frag_ok y \<and> ceph_frag_contains_frag x y"
    "\<forall>f. get_split t f \<noteq> 0 \<longrightarrow> ceph_frag_contains_frag x f \<longrightarrow>
       (\<exists>y\<in>set q. ceph_frag_contains_value y (ceph_frag_value f) \<and> f \<in> set (ft_path t y (ceph_frag_value f)))"
  shows "\<exists>t'. hoover t q = Some t' \<and> omap_ok t' \<and> ft_ok t'
    \<and> (\<forall>f. get_split t' f = (if ceph_frag_contains_frag x f then 0 else get_split t f))"
  using assms(1,2,4,5)
proof (induction "queue_weight q" arbitrary: q t rule: less_induct)
  case less
  note ok = less.prems(2)
  show ?case
  proof (cases q)
    case Nil
    then have "get_split t f = (if ceph_frag_contains_frag x f then 0 else get_split t f)" for f using less.prems(4) by auto
    then show ?thesis using Nil less.prems by (simp add: hoover.simps [of t "[]"])
  next
    case (Cons y q')
    let ?nb = "get_split t y"
    have y: "frag_ok y" "ceph_frag_contains_frag x y" using less.prems(3) Cons by auto
    show ?thesis
    proof (cases "?nb = 0")
      case True
      then have h: "hoover t q = hoover t q'" using Cons by (simp add: hoover.simps [of t "y # q'"])
      have "\<exists>z\<in>set q'. ceph_frag_contains_value z (ceph_frag_value f) \<and> f \<in> set (ft_path t z (ceph_frag_value f))"
        if "get_split t f \<noteq> 0" "ceph_frag_contains_frag x f" for f
        using less.prems(4) [rule_format, OF that] that(1) Cons True by (auto simp: ft_path_leaf)
      then show ?thesis using less.hyps [of q' t] less.prems Cons h by simp
    next
      case False
      let ?cs = "frag_children y ?nb" and ?t = "omap_erase y t"
      have nb: "fbits y + ?nb \<le> 24" using get_split_ok [OF ok False] by blast
      note c = frag_ok_make_child [OF nb] make_child_bits [OF nb] child_contains_frag [OF y(1) nb]
      have st: "hoover t q = hoover ?t (q' @ ?cs)"
        using Cons False is_leaf_split [OF ok False] by (simp add: hoover.simps [of t "y # q'"] fragtree_merge_def frag_split_eq Let_def)
      have w: "queue_weight (q' @ ?cs) < queue_weight q" using queue_weight_children [OF _ nb] False Cons by simp
      have q: "\<forall>z\<in>set (q' @ ?cs). frag_ok z \<and> ceph_frag_contains_frag x z"
        using less.prems(3) Cons c(1,3) contains_frag_trans [OF assms(3) y(1) _ y(2)] by auto
      have reach: "\<exists>z\<in>set (q' @ ?cs). ceph_frag_contains_value z (ceph_frag_value f) \<and> f \<in> set (ft_path ?t z (ceph_frag_value f))"
        if f: "get_split ?t f \<noteq> 0" "ceph_frag_contains_frag x f" for f
        using hoover_reach [OF ok False, of f q'] less.prems(4) f Cons by (simp split: if_split_asm)
      obtain t' where "hoover ?t (q' @ ?cs) = Some t'" "omap_ok t'" "ft_ok t'"
        "\<forall>f. get_split t' f = (if ceph_frag_contains_frag x f then 0 else get_split ?t f)"
        using less.hyps [OF w omap_ok_erase [OF less.prems(1)] ft_ok_erase [OF ok] q] reach by blast
      then show ?thesis using st y(2) by auto
    qed
  qed
qed

section \<open>The intermediate split of force\_to\_leaf\<close>

lemma fragtree_split_leaf:
  assumes "ft_wf_at t x" "ft_node t x" "get_split t x = 0"
  shows "fragtree_split t x b False = Some (omap_set x b t)"
  using is_leaf_unsplit [OF assms] by (simp add: fragtree_split_def Let_def)

lemma fragtree_merge_split:
  assumes "ft_ok t" "get_split t x \<noteq> 0"
  shows "fragtree_merge t x (get_split t x) False = Some (omap_erase x t)"
  using is_leaf_split [OF assms] by (simp add: fragtree_merge_def Let_def)

lemma split_all:
  assumes "omap_ok t" "ft_ok t" "0 < m" "distinct ps" "\<forall>p\<in>set ps. \<forall>q\<in>set ps. ceph_frag_contains_frag p q \<longrightarrow> p = q"
    "\<forall>p\<in>set ps. ft_node t p \<and> get_split t p = 0 \<and> ft_wf_at t p \<and> fbits p + m \<le> 24"
  shows "\<exists>t'. fold_opt (\<lambda>p t. fragtree_split t p m False) ps t = Some t' \<and> omap_ok t' \<and> ft_ok t'
    \<and> (\<forall>f. get_split t' f = (if f \<in> set ps then m else get_split t f))"
  using assms
proof (induction ps arbitrary: t)
  case (Cons p ps)
  have p: "ft_node t p" "get_split t p = 0" "ft_wf_at t p" "fbits p + m \<le> 24" using Cons.prems(6) by auto
  note okp = ft_node_ok [OF p(1)]
  let ?t = "omap_set p m t"
  have t': "omap_ok ?t" "ft_ok ?t" using ft_ok_set [OF Cons.prems(1,2) okp Cons.prems(3) p(4)] Cons.prems(1) by simp_all
  have out: "\<forall>f. \<not> ceph_frag_contains_frag p f \<longrightarrow> get_split ?t f = get_split t f" using contains_frag_refl [OF okp] by auto
  have "ft_node ?t q \<and> get_split ?t q = 0 \<and> ft_wf_at ?t q \<and> fbits q + m \<le> 24" if q: "q \<in> set ps" for q
  proof -
    have qp: "q \<noteq> p" "\<not> ceph_frag_contains_frag p q" using q Cons.prems(4,5) by auto
    have tq: "ft_node t q" "get_split t q = 0" "ft_wf_at t q" "fbits q + m \<le> 24" using Cons.prems(6) q by auto
    have "ft_node ?t f" if f: "get_split ?t f \<noteq> 0" "ceph_frag_contains_frag f q" for f
    proof -
      have fo: "frag_ok f" using get_split_ok [OF t'(2) f(1)] by blast
      have "\<not> ceph_frag_contains_frag p f" using qp(2) contains_frag_trans [OF okp fo ft_node_ok [OF tq(1)] _ f(2)] by blast
      moreover have "ft_node t f" using tq(3) f calculation out unfolding ft_wf_at_def by metis
      ultimately show ?thesis using ft_node_outside [OF Cons.prems(2) t'(2) okp out] by blast
    qed
    then show ?thesis
      using ft_node_outside [OF Cons.prems(2) t'(2) okp out _ tq(1)] qp tq t'(2) by (simp add: ft_wf_at_def)
  qed
  then obtain t'' where "fold_opt (\<lambda>p t. fragtree_split t p m False) ps ?t = Some t''" "omap_ok t''" "ft_ok t''"
    "\<forall>f. get_split t'' f = (if f \<in> set ps then m else get_split ?t f)"
    using Cons.IH [OF t' Cons.prems(3)] Cons.prems(4,5) by auto
  then show ?case using fragtree_split_leaf [OF p(3,1,2)] Cons.prems(4) by auto
qed simp

lemma intermediate_child:
  assumes "ft_wf t" "get_split t x = n" "s < n" "ft_ok t'" "\<forall>f. get_split t' f = (if f = x then s else get_split t f)"
    "0 < s" "p \<in> set (frag_children x s)"
  shows "ft_node t' p \<and> get_split t' p = 0 \<and> ft_wf_at t' p \<and> fbits p + (n - s) \<le> 24"
proof -
  note t = ft_wfD(2) [OF assms(1)]
  have nx: "ft_node t x" using assms ft_wf_node [OF assms(1), of x] by auto
  have x: "frag_ok x" "fbits x + n \<le> 24" using get_split_ok [OF t, of x] assms(2,3) by auto
  then have s: "fbits x + s \<le> 24" using assms(3) by simp
  have p: "frag_ok p" "fbits p = fbits x + s" "ceph_frag_contains_frag x p"
    using assms(7) frag_ok_make_child [OF s] make_child_bits [OF s] child_contains_frag [OF x(1) s] by auto
  have n: "ft_node t' g" if "ft_node t g" "g = x \<or> \<not> ceph_frag_contains_frag x g" for g
    using ft_node_outside [OF t assms(4) x(1) _ that(2,1)] assms(5) contains_frag_refl [OF x(1)] by auto
  have key: "ft_node t' f" "f \<noteq> p" if f: "get_split t' f \<noteq> 0" "ceph_frag_contains_frag f p" for f
  proof -
    have "f = x \<or> \<not> ceph_frag_contains_frag x f"
    proof (rule ccontr)
      assume h: "\<not> (f = x \<or> \<not> ceph_frag_contains_frag x f)"
      then have "ft_node t f" using f(1) assms(5) ft_wf_node [OF assms(1)] by simp
      then show False
        using ft_node_contains [OF t nx, of f] h assms(2,3) p(2) f(2) contains_frag_iff [OF ft_node_ok p(1), of t f] by auto
    qed
    moreover have "ft_node t f" using f(1) assms(5) ft_wf_node [OF assms(1), of f] nx by (auto split: if_split_asm)
    ultimately show "ft_node t' f" "f \<noteq> p" using n p assms(6) by auto
  qed
  have "get_split t' p = 0" using key(2) contains_frag_refl [OF p(1)] by blast
  moreover have "ft_node t' p" using ft_node_child [OF assms(4) n [OF nx]] assms(5-7) by auto
  ultimately show ?thesis using key(1) assms(3,4) p(2) x(2) by (simp add: ft_wf_at_def)
qed

lemma intermediate_split:
  assumes "ft_wf t" "get_split t x = n" "0 < s" "s < n"
  shows "\<exists>t'. (fragtree_merge t x n False \<bind> (\<lambda>t1. fragtree_split t1 x s False \<bind> (\<lambda>t2.
      frag_split x s \<bind> (\<lambda>subs. fold_opt (\<lambda>p t. fragtree_split t p (n - s) False) subs t2)))) = Some t'
    \<and> ft_wf t' \<and> get_split t' x = s \<and> (\<forall>v. fragtree_lookup t' v = fragtree_lookup t v)"
proof -
  note t = ft_wfD [OF assms(1)]
  have sx: "get_split t x \<noteq> 0" and nx: "ft_node t x" using assms ft_wf_node [OF assms(1), of x] by auto
  have x: "frag_ok x" "fbits x + s \<le> 24" using get_split_ok [OF t(2) sx] assms by auto
  define t1 where "t1 = omap_erase x t"
  define t2 where "t2 = omap_set x s t1"
  have ok1: "omap_ok t1" "ft_ok t1" using t ft_ok_erase by (simp_all add: t1_def)
  have ok2: "omap_ok t2" "ft_ok t2" using ft_ok_set [OF ok1 x(1) assms(3) x(2)] ok1 by (simp_all add: t2_def)
  have n1: "ft_node t1 g" if "ft_node t g" "g = x \<or> \<not> ceph_frag_contains_frag x g" for g
    using ft_node_outside [OF t(2) ok1(2) x(1) _ that(2,1)] contains_frag_refl [OF x(1)] by (auto simp: t1_def)
  have "ft_node t1 f" if f: "get_split t1 f \<noteq> 0" "ceph_frag_contains_frag f x" for f
  proof -
    have fx: "f \<noteq> x" "get_split t f \<noteq> 0" using f(1) by (auto simp: t1_def split: if_split_asm)
    then have nf: "ft_node t f" using ft_wf_node [OF assms(1)] by blast
    have "\<not> ceph_frag_contains_frag x f"
      using contains_frag_eq [OF ft_node_ok [OF nf] x(1) f(2)] f(2) fx(1) contains_frag_iff x(1) ft_node_ok [OF nf]
      by (metis le_antisym)
    then show ?thesis using n1 nf by blast
  qed
  then have s1: "fragtree_split t1 x s False = Some t2"
    using fragtree_split_leaf [of t1 x s] n1 [OF nx] ok1(2) by (simp add: ft_wf_at_def t2_def) (simp add: t1_def)
  have g2: "\<forall>f. get_split t2 f = (if f = x then s else get_split t f)" by (simp add: t2_def t1_def)
  note ch = intermediate_child [OF assms(1,2,4) ok2(2) g2 assms(3)]
  have "distinct (frag_children x s)" using make_child_inj [OF x] by (auto simp: distinct_map intro!: inj_onI)
  moreover have "p = q" if "p \<in> set (frag_children x s)" "q \<in> set (frag_children x s)" "ceph_frag_contains_frag p q" for p q
    using contains_frag_eq [OF _ _ that(3)] that(1,2) frag_ok_make_child [OF x(2)] make_child_bits [OF x(2)] by auto
  ultimately obtain t' where t': "fold_opt (\<lambda>p t. fragtree_split t p (n - s) False) (frag_children x s) t2 = Some t'" "omap_ok t'"
    "ft_ok t'" "\<forall>f. get_split t' f = (if f \<in> set (frag_children x s) then n - s else get_split t2 f)"
    using split_all [OF ok2, of "n - s" "frag_children x s"] assms(4) ch by auto
  have z: "get_split t f = 0" if "f \<in> set (frag_children x s)" for f
    using ch [OF that] g2 own_child [OF assms(3) x(2)] that by metis
  have a: "assimilated t' t x s (n - s)"
    unfolding assimilated_def using t'(4) g2 z own_child [OF assms(3) x(2)] assms(2-4) by auto
  show ?thesis
    using fragtree_merge_split [OF t(2) sx] s1 frag_split_eq [OF assms(3)] t'(1) assms(2,3) assimilated_expand [OF assms(1) t'(2,3) nx a]
      a by (simp add: t1_def assimilated_def)
qed

section \<open>force\_to\_leaf\<close>

lemma ft_path_below:
  assumes "ft_ok t" "frag_ok h" "ceph_frag_contains_value h v" "x \<in> set (ft_path t h v)" "f \<in> set (ft_path t h v)" "fbits x \<le> fbits f"
  shows "f \<in> set (ft_path t x v)"
  using assms(1-5)
proof (induction h rule: ft_induct)
  case (split h)
  let ?c = "ceph_frag_make_child h (get_split t h) (child_index h (get_split t h) v)"
  note p = ft_path_split [OF assms(1) split(1), of v]
    and c = frag_ok_make_child [OF split(3)] child_of_value [OF split(2,3) split.prems(2)]
  show ?case
  proof (cases "x = h")
    case False
    then have "f \<noteq> h" using ft_path_elem [OF assms(1) split.prems(1-3)] split(1) assms(6) by auto
    then show ?thesis using split.IH [OF child_index_less c] split.prems p False by simp
  qed (use split.prems in simp)
qed (simp add: ft_path_leaf)

lemma hoover_node:
  assumes "ft_wf t" "ft_node t x"
  shows "\<exists>t'. hoover t [x] = Some t' \<and> ft_wf t' \<and> is_leaf t' x = Some True
    \<and> (\<forall>v. fragtree_lookup t' v = (if ceph_frag_contains_value x v then Some x else fragtree_lookup t v))"
proof -
  note t = ft_wfD [OF assms(1)] and x = ft_node_ok [OF assms(2)]
  have "ceph_frag_contains_value x (ceph_frag_value f) \<and> f \<in> set (ft_path t x (ceph_frag_value f))"
    if f: "get_split t f \<noteq> 0" "ceph_frag_contains_frag x f" for f
  proof -
    have nf: "ft_node t f" using ft_wf_node [OF assms(1)] f(1) by blast
    note of = ft_node_ok [OF nf]
    have v: "ceph_frag_contains_value x (ceph_frag_value f)" "fbits x \<le> fbits f" using f(2) contains_frag_iff [OF x of] by blast+
    then show ?thesis
      using ft_path_below [OF t(2) frag_root_ok(1) frag_root_contains ft_node_path [OF t(2) assms(2) v(1)]
          ft_node_path [OF t(2) nf contains_own_value [OF of]]] by blast
  qed
  then obtain t' where t': "hoover t [x] = Some t'" "omap_ok t'" "ft_ok t'"
    "\<forall>f. get_split t' f = (if ceph_frag_contains_frag x f then 0 else get_split t f)"
    using hoover_Some [OF t x, of "[x]"] x contains_frag_refl [OF x] by auto
  note w = cut_wf [OF assms t'(2-4)]
  have "is_leaf t' x = Some True" using is_leaf_unsplit [OF ft_wf_at [OF w(1)] w(2)] t'(4) contains_frag_refl [OF x] by simp
  then show ?thesis using t'(1) w(1,3) by blast
qed

lemma contained_child:
  assumes "frag_ok p" "frag_ok x" "ceph_frag_contains_frag p x"
  shows "ceph_frag_make_child p (fbits x - fbits p) (child_index p (fbits x - fbits p) (ceph_frag_value x)) = x"
proof -
  let ?s = "fbits x - fbits p"
  have c: "fbits p \<le> fbits x" "ceph_frag_contains_value p (ceph_frag_value x)" using contains_frag_iff [OF assms(1,2)] assms(3) by auto
  then have s: "fbits p + ?s \<le> 24" using frag_ok_fbits [OF assms(2)] by simp
  show ?thesis
    using frag_eq_common [OF frag_ok_make_child [OF s] assms(2) child_of_value [OF assms(1) s c(2)] contains_own_value [OF assms(2)]]
      make_child_bits [OF s] c(1) by simp
qed

lemma fragtree_lookup_split_leaf:
  assumes "ft_wf t" "ft_node t p" "get_split t p = 0" "frag_ok x" "ceph_frag_contains_frag p x" "fbits p < fbits x"
  shows "\<exists>t'. fragtree_split t p (fbits x - fbits p) True = Some t' \<and> ft_wf t' \<and> is_leaf t' x = Some True
    \<and> (\<forall>v. \<not> ceph_frag_contains_value p v \<longrightarrow> fragtree_lookup t' v = fragtree_lookup t v)
    \<and> (\<forall>v. ceph_frag_contains_value p v \<longrightarrow> (\<exists>f. fragtree_lookup t' v = Some f \<and> fbits f = fbits x \<and> ceph_frag_contains_frag p f))"
proof -
  let ?s = "fbits x - fbits p"
  note p = ft_node_ok [OF assms(2)]
  have s: "0 < ?s" "fbits p + ?s \<le> 24" using assms(6) frag_ok_fbits [OF assms(4)] by auto
  obtain t' where t': "fragtree_split t p ?s True = Some t'" "ft_wf t'"
    "\<forall>v. fragtree_lookup t' v = (if ceph_frag_contains_value p v then Some (ceph_frag_make_child p ?s (child_index p ?s v))
                                else fragtree_lookup t v)"
    using fragtree_split_ok [OF assms(1-3) s] by blast
  note c = frag_ok_make_child [OF s(2)] make_child_bits [OF s(2)]
  have px: "ceph_frag_contains_value p (ceph_frag_value x)" using assms(5) contains_frag_iff [OF p assms(4)] by blast
  have "fragtree_lookup t' (ceph_frag_value x) = Some x"
    using t'(3) px contained_child [OF p assms(4,5)] by simp
  then have "is_leaf t' x = Some True"
    using fragtree_lookup_iff [OF ft_wfD(2) [OF t'(2)]] is_leaf_unsplit [OF ft_wf_at [OF t'(2)]] by blast
  moreover have "fbits (ceph_frag_make_child p ?s (child_index p ?s v)) = fbits x
      \<and> ceph_frag_contains_frag p (ceph_frag_make_child p ?s (child_index p ?s v))" for v
    using c(2) assms(6) child_contains_frag [OF p s(2) child_index_less] by simp
  ultimately show ?thesis using t' by auto
qed

text \<open>What \<^verbatim>\<open>force_to_leaf\<close> leaves of the leaves of \<open>t\<close>: only the leaf that contains \<open>x\<close> is divided.\<close>

definition forced :: "fragtree \<Rightarrow> fragtree \<Rightarrow> frag \<Rightarrow> bool" where
  "forced t t' x \<longleftrightarrow> ft_wf t' \<and> is_leaf t' x = Some True
     \<and> (\<forall>v f. fragtree_lookup t v = Some f \<longrightarrow> \<not> ceph_frag_contains_value x v \<longrightarrow>
          (\<exists>f'. fragtree_lookup t' v = Some f' \<and> ceph_frag_contains_frag f f' \<and> (\<not> ceph_frag_contains_frag f x \<longrightarrow> f' = f)))"

lemma forcedI:
  assumes "ft_wf t" "ft_wf t'" "is_leaf t' x = Some True"
    "\<And>v. \<not> ceph_frag_contains_value x v \<Longrightarrow> fragtree_lookup t' v = fragtree_lookup t v"
  shows "forced t t' x"
  unfolding forced_def using assms contains_frag_refl ft_node_ok fragtree_lookup_iff [OF ft_wfD(2) [OF assms(1)]] by metis

lemma forced_leaf:
  assumes "ft_wf t" "ft_node t p" "get_split t p = 0" "frag_ok x" "ceph_frag_contains_frag p x" "fbits p < fbits x"
  shows "\<exists>t'. fragtree_split t p (fbits x - fbits p) True = Some t' \<and> forced t t' x"
proof -
  note t = ft_wfD(2) [OF assms(1)]
  obtain t' where t': "fragtree_split t p (fbits x - fbits p) True = Some t'" "ft_wf t'" "is_leaf t' x = Some True"
    "\<forall>v. \<not> ceph_frag_contains_value p v \<longrightarrow> fragtree_lookup t' v = fragtree_lookup t v"
    "\<forall>v. ceph_frag_contains_value p v \<longrightarrow> (\<exists>f. fragtree_lookup t' v = Some f \<and> fbits f = fbits x \<and> ceph_frag_contains_frag p f)"
    using fragtree_lookup_split_leaf [OF assms] by blast
  have "\<exists>f'. fragtree_lookup t' v = Some f' \<and> ceph_frag_contains_frag f f' \<and> (\<not> ceph_frag_contains_frag f x \<longrightarrow> f' = f)"
    if "fragtree_lookup t v = Some f" for v f
  proof (cases "ceph_frag_contains_value p v")
    case True
    then have "f = p" using that fragtree_lookup_iff [OF t] assms(2,3) by (metis option.inject)
    then show ?thesis using t'(5) True assms(5) by blast
  next
    case False
    then show ?thesis using t'(4) that fragtree_lookup_iff [OF t] contains_frag_refl ft_node_ok by metis
  qed
  then have "forced t t' x" using t'(2,3) by (simp add: forced_def)
  then show ?thesis using t'(1) by blast
qed

lemma forced_intermediate:
  assumes "ft_wf t" "get_split t p = n" "frag_ok p" "frag_ok x" "ceph_frag_contains_frag p x" "fbits p < fbits x" "fbits x < fbits p + n"
  defines "s \<equiv> fbits x - fbits p"
  shows "\<exists>t1 t'. (fragtree_merge t p n False \<bind> (\<lambda>t1. fragtree_split t1 p s False \<bind> (\<lambda>t2.
      frag_split p s \<bind> (\<lambda>subs. fold_opt (\<lambda>q t. fragtree_split t q (n - s) False) subs t2)))) = Some t1
    \<and> hoover t1 [x] = Some t' \<and> forced t t' x"
proof -
  have s: "0 < s" "s < n" using assms(6,7) by (auto simp: s_def)
  obtain t1 where t1: "(fragtree_merge t p n False \<bind> (\<lambda>t1. fragtree_split t1 p s False \<bind> (\<lambda>t2.
      frag_split p s \<bind> (\<lambda>subs. fold_opt (\<lambda>q t. fragtree_split t q (n - s) False) subs t2)))) = Some t1"
    "ft_wf t1" "get_split t1 p = s" "\<forall>v. fragtree_lookup t1 v = fragtree_lookup t v"
    using intermediate_split [OF assms(1,2) s] by blast
  have "ft_node t1 p" using ft_wf_node [OF t1(2)] t1(3) s(1) by simp
  then have "ft_node t1 x"
    using ft_node_child [OF ft_wfD(2) [OF t1(2)], of p, unfolded t1(3), OF _ _ child_index_less [of p s "ceph_frag_value x"]] s(1)
      contained_child [OF assms(3-5)] by (simp add: s_def)
  then obtain t' where t': "hoover t1 [x] = Some t'" "ft_wf t'" "is_leaf t' x = Some True"
    "\<forall>v. fragtree_lookup t' v = (if ceph_frag_contains_value x v then Some x else fragtree_lookup t1 v)"
    using hoover_node [OF t1(2)] by blast
  have "forced t t' x" using forcedI [OF assms(1) t'(2,3)] t'(4) t1(4) by simp
  then show ?thesis using t1(1) t'(1) by blast
qed

lemma force_to_leaf_forced:
  assumes "ft_wf t" "frag_ok x"
  shows "\<exists>t'. force_to_leaf t x = Some (t', is_leaf t x \<noteq> Some True) \<and> forced t t' x"
proof (cases "x \<in> set (ft_leaves t frag_root)")
  case True
  then have "is_leaf t x = Some True" using is_leaf_eq [OF ft_wf_at [OF assms(1)] assms(2)] by simp
  then show ?thesis using forcedI [OF assms(1,1)] by (simp add: force_to_leaf_def)
next
  case False
  have nl: "is_leaf t x = Some False" using is_leaf_eq [OF ft_wf_at [OF assms(1)] assms(2)] False by simp
  obtain p where p: "get_branch_or_leaf t x = Some p" "ft_node t p" "ceph_frag_contains_frag p x"
    "fbits p < fbits x \<longrightarrow> get_split t p \<noteq> 0 \<longrightarrow> fbits x < fbits p + get_split t p"
    using get_branch_or_leaf_Some [OF ft_wf_at [OF assms(1)] assms(2)] by blast
  note okp = ft_node_ok [OF p(2)]
  have le: "ceph_frag_bits p \<le> ceph_frag_bits x" using p(3) contains_frag_iff [OF okp assms(2)] by (simp add: word_le_nat_alt)
  note unf = force_to_leaf_def nl p(1) le Let_def
  consider (eq) "p = x" | (leaf) "fbits p < fbits x" "get_split t p = 0" | (mid) "fbits p < fbits x" "get_split t p \<noteq> 0"
    using contains_frag_eq [OF okp assms(2) p(3)] le by (force simp: word_le_nat_alt)
  then show ?thesis
  proof cases
    case eq
    obtain t' where t': "hoover t [x] = Some t'" "ft_wf t'" "is_leaf t' x = Some True"
      "\<forall>v. fragtree_lookup t' v = (if ceph_frag_contains_value x v then Some x else fragtree_lookup t v)"
      using hoover_node [OF assms(1)] p(2) eq by blast
    then show ?thesis using eq forcedI [OF assms(1) t'(2,3)] by (simp add: unf)
  next
    case leaf
    obtain t' where "fragtree_split t p (fbits x - fbits p) True = Some t'" "forced t t' x"
      using forced_leaf [OF assms(1) p(2) leaf(2) assms(2) p(3) leaf(1)] by blast
    then show ?thesis using leaf by (auto simp: unf forced_def)
  next
    case mid
    define n where "n = get_split t p"
    define s where "s = fbits x - fbits p"
    let ?mid = "fragtree_merge t p n False \<bind> (\<lambda>t1. fragtree_split t1 p s False \<bind> (\<lambda>t2.
        frag_split p s \<bind> (\<lambda>subs. fold_opt (\<lambda>q t. fragtree_split t q (n - s) False) subs t2)))"
    have lt: "fbits x < fbits p + n" using mid p(4) by (simp add: n_def)
    have sn: "s < n" using mid(1) lt unfolding s_def by linarith
    obtain t1 t' where t': "?mid = Some t1" "hoover t1 [x] = Some t'" "forced t t' x"
      unfolding s_def using forced_intermediate [OF assms(1) n_def [symmetric] okp assms(2) p(3) mid(1) lt] by blast
    have "force_to_leaf t x = ?mid \<bind> (\<lambda>t1. hoover t1 [x] \<bind> (\<lambda>t2. is_leaf t2 x \<bind> (\<lambda>l. assert_that l \<bind> (\<lambda>_. Some (t2, True)))))"
      using mid sn by (simp add: unf n_def s_def)
    then have "force_to_leaf t x = Some (t', True)" unfolding t'(1) using t'(2,3) by (simp add: forced_def)
    then show ?thesis using t'(3) nl by simp
  qed
qed

section \<open>The trees of a directory\<close>

text \<open>
  The trees that come from the empty one by the operations, used as the metadata cache does: a merge joins fragments
  that are leaves.
\<close>

inductive ft_step :: "fragtree \<Rightarrow> fragtree \<Rightarrow> bool" where
  step_split: "frag_ok x \<Longrightarrow> 0 < b \<Longrightarrow> fbits x + b \<le> 24 \<Longrightarrow> fragtree_split t x b simplify = Some t' \<Longrightarrow> ft_step t t'"
| step_merge: "0 < b \<Longrightarrow> (\<forall>c\<in>set (frag_children x b). is_leaf t c = Some True) \<Longrightarrow> fragtree_merge t x b simplify = Some t' \<Longrightarrow> ft_step t t'"
| step_force: "frag_ok x \<Longrightarrow> force_to_leaf t x = Some (t', changed) \<Longrightarrow> ft_step t t'"

lemma ft_wf_empty: "ft_wf []"
  by (simp add: ft_wf_def ft_ok_def)

lemma is_leaf_iff:
  assumes "ft_wf t" "frag_ok x"
  shows "is_leaf t x = Some True \<longleftrightarrow> ft_node t x \<and> get_split t x = 0"
  using is_leaf_eq [OF ft_wf_at [OF assms(1)] assms(2)] ft_leaves_nodes(1) [OF ft_wfD(2) [OF assms(1)]] by simp

lemma fragtree_merge_asserts:
  "fragtree_merge t x b simplify = Some t' \<Longrightarrow> get_split t x = b"
  by (auto simp: fragtree_merge_def assert_that_def split: bind_splits if_split_asm)

lemma fragtree_split_asserts:
  "fragtree_split t x b simplify = Some t' \<Longrightarrow> is_leaf t x = Some True"
  by (auto simp: fragtree_split_def assert_that_def split: bind_splits if_split_asm)

lemma ft_step_wf:
  assumes "ft_step t t'" "ft_wf t"
  shows "ft_wf t'"
  using assms
proof (induction rule: ft_step.induct)
  case (step_split x b t simplify t')
  then have "ft_node t x" "get_split t x = 0" using fragtree_split_asserts is_leaf_iff by blast+
  then show ?case using fragtree_split_ok [of t x b simplify] step_split by auto
next
  case (step_merge b x t simplify t')
  have x: "get_split t x = b" using fragtree_merge_asserts [OF step_merge(3)] .
  then have "fbits x + b \<le> 24" using get_split_ok [OF ft_wfD(2) [OF step_merge(4)], of x] step_merge(1) by simp
  then have "\<forall>c\<in>set (frag_children x b). get_split t c = 0"
    using step_merge(2) is_leaf_iff [OF step_merge(4)] frag_ok_make_child by auto
  then show ?case using fragtree_merge_ok [OF step_merge(4) x step_merge(1)] step_merge(3) by (metis option.inject)
next
  case (step_force x t t' changed)
  then show ?case using force_to_leaf_forced [of t x] by (auto simp: forced_def)
qed

interpretation ft: transition_system "\<lambda>t. t = []" ft_step ft_wf
  by unfold_locales (simp_all add: ft_wf_empty ft_step_wf)

lemma omap_erase_set: "x \<notin> fst ` set t \<Longrightarrow> omap_erase x (omap_set x b t) = t"
  by (induction x b t rule: omap_set.induct) (auto simp: omap_erase_def filter_id_conv)

text \<open>A tree whose root is split in four.\<close>

definition sample_tree :: fragtree where
  "sample_tree = [(frag_root, 2)]"

lemma sample_tree_wf: "ft_wf sample_tree" "ft_ok sample_tree"
proof -
  show "ft_wf sample_tree" by (simp add: ft_wf_def sample_tree_def omap_ok_def ft_ok_def frag_root_node)
  then show "ft_ok sample_tree" by (rule ft_wfD)
qed

lemma fragtree_lookup_only:
  assumes "ft_ok t"
  shows "\<exists>f ls. fragtree_lookup t v = Some f \<and> get_leaves t = Some ls \<and> distinct ls
    \<and> {g \<in> set ls. ceph_frag_contains_value g v} = {f}"
proof -
  note l = ft_path_last [OF assms frag_root_ok(1) frag_root_contains [of v]]
  have "fragtree_lookup t v = Some (last (ft_path t frag_root v))" by (rule fragtree_lookup_eq [OF assms])
  moreover have "get_leaves t = Some (ft_leaves t frag_root)" using get_leaves_eq [OF assms] by (simp add: get_leaves_def)
  moreover have "{g \<in> set (ft_leaves t frag_root). ceph_frag_contains_value g v} = {last (ft_path t frag_root v)}"
    using l(1-3) by blast
  ultimately show ?thesis using ft_leaves_distinct [OF assms frag_root_ok(1)] by blast
qed

section \<open>Properties\<close>

text \<open>
  C11: on every well-formed fragment tree \<^verbatim>\<open>force_to_leaf\<close> completes (its loop ends and no assertion fails) for every
  fragment \<open>x\<close>; it returns whether \<open>x\<close> was no leaf before; the new tree is well formed and \<open>x\<close> is a leaf of it; and a
  value outside \<open>x\<close> keeps its leaf, except that the leaf that contained \<open>x\<close> is divided.
\<close>

theorem force_to_leaf_correct:
  assumes "ft_wf t" "frag_ok x"
  shows "\<exists>t'. force_to_leaf t x = Some (t', is_leaf t x \<noteq> Some True) \<and> ft_wf t' \<and> is_leaf t' x = Some True
    \<and> (\<forall>v f. fragtree_lookup t v = Some f \<longrightarrow> \<not> ceph_frag_contains_value x v \<longrightarrow>
         (\<exists>f'. fragtree_lookup t' v = Some f' \<and> ceph_frag_contains_frag f f' \<and> (\<not> ceph_frag_contains_frag f x \<longrightarrow> f' = f)))"
  using force_to_leaf_forced [OF assms] unfolding forced_def .

theorem force_to_leaf_correct_witness:
  "\<exists>t' c. force_to_leaf sample_tree (ceph_frag_make 1 0) = Some (t', c) \<and> ft_wf t' \<and> is_leaf t' (ceph_frag_make 1 0) = Some True"
  using force_to_leaf_correct [OF sample_tree_wf(1), of "ceph_frag_make 1 0"] by auto

text \<open>
  C12: splitting a leaf \<open>x\<close> of a well-formed tree by \<open>b\<close> bits completes, with or without assimilation, keeps the tree
  well formed, sends the values of \<open>x\<close> to the children of \<open>x\<close> and leaves every other value where it was.
\<close>

theorem fragtree_split_correct:
  assumes "ft_wf t" "frag_ok x" "is_leaf t x = Some True" "0 < b" "fbits x + b \<le> 24"
  shows "\<exists>t'. fragtree_split t x b simplify = Some t' \<and> ft_wf t'
    \<and> (\<forall>v. fragtree_lookup t' v = (if ceph_frag_contains_value x v then Some (ceph_frag_make_child x b (child_index x b v))
                                else fragtree_lookup t v))"
  using fragtree_split_ok [OF assms(1) _ _ assms(4,5)] assms(3) is_leaf_iff [OF assms(1,2)] by blast

theorem fragtree_split_correct_witness:
  "\<exists>t'. fragtree_split [] frag_root 3 True = Some t' \<and> ft_wf t' \<and>
     fragtree_lookup t' 0 = Some (ceph_frag_make_child frag_root 3 (child_index frag_root 3 0))"
proof -
  have "is_leaf [] frag_root = Some True" using is_leaf_iff [OF ft_wf_empty] by (simp add: frag_root_node get_split_def)
  then show ?thesis using fragtree_split_correct [OF ft_wf_empty, of frag_root 3 True] by auto
qed

lemma force_split_lookup:
  assumes "ft_wf t" "frag_ok x" "is_leaf t x = Some True" "0 < b" "fbits x + b \<le> 24"
  shows "\<exists>t1 t2 c. fragtree_split t x b simplify = Some t1 \<and> force_to_leaf t1 x = Some (t2, c) \<and> ft_wf t2
    \<and> (\<forall>v. fragtree_lookup t2 v = fragtree_lookup t v)"
proof -
  have x: "ft_node t x" "get_split t x = 0" using assms(3) is_leaf_iff [OF assms(1,2)] by auto
  note t = ft_wfD(2) [OF assms(1)]
  have in_x: "fragtree_lookup t v = Some x" if "ceph_frag_contains_value x v" for v
    using x that by (simp add: fragtree_lookup_iff [OF t])
  obtain t1 where t1: "fragtree_split t x b simplify = Some t1" "ft_wf t1"
      "\<And>v. \<not> ceph_frag_contains_value x v \<Longrightarrow> fragtree_lookup t1 v = fragtree_lookup t v"
    using fragtree_split_ok [OF assms(1) x assms(4,5), of simplify] by auto
  obtain t2 where t2: "force_to_leaf t1 x = Some (t2, is_leaf t1 x \<noteq> Some True)" "forced t1 t2 x"
    using force_to_leaf_forced [OF t1(2) assms(2)] by blast
  then have wf2: "ft_wf t2" and x2: "ft_node t2 x" "get_split t2 x = 0"
    using is_leaf_iff [OF _ assms(2)] by (auto simp: forced_def)
  have "fragtree_lookup t2 v = fragtree_lookup t v" for v
  proof (cases "ceph_frag_contains_value x v")
    case True
    then show ?thesis using in_x x2 by (simp add: fragtree_lookup_iff [OF ft_wfD(2) [OF wf2]])
  next
    case False
    obtain f where f: "fragtree_lookup t v = Some f" using fragtree_lookup_eq [OF t] by blast
    then have leaf: "ft_node t f" "get_split t f = 0" "ceph_frag_contains_value f v" by (simp_all add: fragtree_lookup_iff [OF t])
    have "\<not> ceph_frag_contains_frag f x"
    proof
      assume "ceph_frag_contains_frag f x"
      then have "ceph_frag_contains_value f (ceph_frag_value x)"
        using contains_frag_value [OF ft_node_ok [OF leaf(1)] assms(2)] contains_own_value [OF assms(2)] by blast
      then have "fragtree_lookup t (ceph_frag_value x) = Some f" using leaf by (simp add: fragtree_lookup_iff [OF t])
      then show False using in_x [OF contains_own_value [OF assms(2)]] leaf(3) False by simp
    qed
    then show ?thesis using t2(2) t1(3) [OF False] f False unfolding forced_def by fastforce
  qed
  then show ?thesis using t1(1) t2(1) wf2 by blast
qed

text \<open>
  C39: splitting a leaf and merging it again. Without assimilation, \<^verbatim>\<open>simplify\<close> false in both calls, \<^verbatim>\<open>merge\<close> gives back the tree before the split,
  entry by entry. With or without assimilation in the split, \<^verbatim>\<open>force_to_leaf\<close>, by which the server merges fragments
  (\<^verbatim>\<open>MDCache::adjust_dir_fragments\<close>), gives back a well-formed tree with the same leaves: every value is in the leaf it was in before the split.
\<close>

theorem fragtree_split_merge:
  assumes "ft_wf t" "frag_ok x" "is_leaf t x = Some True" "0 < b" "fbits x + b \<le> 24"
  shows "(fragtree_split t x b False \<bind> (\<lambda>t'. fragtree_merge t' x b False)) = Some t
    \<and> (\<exists>t1 t2 c. fragtree_split t x b simplify = Some t1 \<and> force_to_leaf t1 x = Some (t2, c) \<and> ft_wf t2
         \<and> (\<forall>v. fragtree_lookup t2 v = fragtree_lookup t v))"
proof -
  have x: "ft_node t x" "get_split t x = 0" using assms(3) is_leaf_iff [OF assms(1,2)] by auto
  note t = ft_wfD [OF assms(1)]
  have "x \<notin> fst ` set t" using x(2) t(2) by (force simp: get_split_def ft_ok_def map_of_eq_None_iff dest: map_of_SomeD split: option.split_asm)
  moreover have "ft_ok (omap_set x b t)" using ft_ok_set [OF t assms(2,4,5)] .
  ultimately have "(fragtree_split t x b False \<bind> (\<lambda>t'. fragtree_merge t' x b False)) = Some t"
    using fragtree_split_leaf [OF ft_wf_at [OF assms(1)] x] fragtree_merge_split [of "omap_set x b t" x] assms(4)
    by (simp add: omap_erase_set)
  then show ?thesis using force_split_lookup [OF assms] by blast
qed

theorem fragtree_split_merge_witness:
  "(fragtree_split [] frag_root 3 False \<bind> (\<lambda>t'. fragtree_merge t' frag_root 3 False)) = Some []
   \<and> (\<exists>t1 t2 c. fragtree_split [] frag_root 3 True = Some t1 \<and> force_to_leaf t1 frag_root = Some (t2, c)
        \<and> fragtree_lookup t2 0 = fragtree_lookup [] 0)"
proof -
  have "is_leaf [] frag_root = Some True" using is_leaf_iff [OF ft_wf_empty] by (simp add: frag_root_node get_split_def)
  then have "(fragtree_split [] frag_root 3 False \<bind> (\<lambda>t'. fragtree_merge t' frag_root 3 False)) = Some []
      \<and> (\<exists>t1 t2 c. fragtree_split [] frag_root 3 True = Some t1 \<and> force_to_leaf t1 frag_root = Some (t2, c) \<and> ft_wf t2
           \<and> (\<forall>v. fragtree_lookup t2 v = fragtree_lookup [] v))"
    by (intro fragtree_split_merge ft_wf_empty) simp_all
  then show ?thesis by blast
qed

text \<open>
  C13: every tree that splits, merges of leaves and \<^verbatim>\<open>force_to_leaf\<close> make of the empty tree is well formed: its entries
  are fragments of at most 24 bits split by at least one bit, each of them a node of the tree.
\<close>

theorem fragtree_reachable_wf:
  assumes "ft_step\<^sup>*\<^sup>* [] t"
  shows "ft_wf t"
  using ft.reach_inv [OF refl assms] .

theorem fragtree_reachable_wf_witness: "\<exists>t. ft_step\<^sup>*\<^sup>* [] t \<and> t \<noteq> [] \<and> ft_wf t"
proof -
  have "is_leaf [] frag_root = Some True" using is_leaf_iff [OF ft_wf_empty] by (simp add: frag_root_node get_split_def)
  then have s: "fragtree_split [] frag_root 1 False = Some [(frag_root, 1)]" by (simp add: fragtree_split_def Let_def)
  have "ft_step [] [(frag_root, 1)]" by (rule step_split [OF _ _ _ s]) simp_all
  then have "ft_step\<^sup>*\<^sup>* [] [(frag_root, 1)]" by blast
  then show ?thesis using fragtree_reachable_wf by blast
qed

text \<open>
  On every tree whose entries are sound the lookup of a hash value completes; the tree lists its leaves without
  repetition, and the fragment found is the one leaf that contains the value.
\<close>

lemma fragtree_lookup_leaf:
  assumes "ft_ok t"
  shows "\<exists>f ls. fragtree_lookup t v = Some f \<and> get_leaves t = Some ls \<and> distinct ls
    \<and> {g \<in> set ls. ceph_frag_contains_value g v} = {f}"
  using fragtree_lookup_only [OF assms] .

end
