(* ===== verification/Dir_Frags.thy ===== *)
theory Dir_Frags
  imports Frag_Force
begin

text \<open>
  The fragments of a directory inode: the hash that assigns a name to a fragment (\<^verbatim>\<open>src/common/ceph_hash.cc\<close>), and the
  functions of \<^verbatim>\<open>src/mds/CInode.cc\<close> that relate the fragment tree to the fragments in the cache, \<^verbatim>\<open>pick_dirfrag\<close>,
  \<^verbatim>\<open>get_dirfrags_under\<close>, \<^verbatim>\<open>get_approx_dirfrag\<close> and \<^verbatim>\<open>verify_dirfrags\<close>.
\<close>

section \<open>Hashing names\<close>

definition mix :: "u32 \<times> u32 \<times> u32 \<Rightarrow> u32 \<times> u32 \<times> u32" where
  "mix = (\<lambda>(a, b, c).
     let a = (a - b - c) XOR drop_bit 13 c;
         b = (b - c - a) XOR push_bit 8 a;
         c = (c - a - b) XOR drop_bit 13 b;
         a = (a - b - c) XOR drop_bit 12 c;
         b = (b - c - a) XOR push_bit 16 a;
         c = (c - a - b) XOR drop_bit 5 b;
         a = (a - b - c) XOR drop_bit 3 c;
         b = (b - c - a) XOR push_bit 10 a;
         c = (c - a - b) XOR drop_bit 15 b
     in (a, b, c))"

text \<open>Byte \<open>i\<close> of the rest of the key, shifted; past the end nothing is added.\<close>

definition key_byte :: "u8 list \<Rightarrow> nat \<Rightarrow> nat \<Rightarrow> u32" where
  "key_byte k i sh = (if i < length k then push_bit sh (ucast (k ! i)) else 0)"

function rjenkins_loop :: "u8 list \<Rightarrow> u32 \<times> u32 \<times> u32 \<Rightarrow> u8 list \<times> u32 \<times> u32 \<times> u32" where
  "rjenkins_loop k (a, b, c) =
     (if length k \<ge> 12 then
        rjenkins_loop (drop 12 k)
          (mix (a + (key_byte k 0 0 + key_byte k 1 8 + key_byte k 2 16 + key_byte k 3 24),
                b + (key_byte k 4 0 + key_byte k 5 8 + key_byte k 6 16 + key_byte k 7 24),
                c + (key_byte k 8 0 + key_byte k 9 8 + key_byte k 10 16 + key_byte k 11 24)))
      else (k, a, b, c))"
  by pat_completeness auto
termination by (relation "measure (\<lambda>(k, _). length k)") auto

definition ceph_str_hash_rjenkins :: "u8 list \<Rightarrow> u32" where
  "ceph_str_hash_rjenkins str =
     (let (k, a, b, c) = rjenkins_loop str (0x9e3779b9, 0x9e3779b9, 0);
          c = c + of_nat (length str) + key_byte k 10 24 + key_byte k 9 16 + key_byte k 8 8;
          b = b + key_byte k 7 24 + key_byte k 6 16 + key_byte k 5 8 + key_byte k 4 0;
          a = a + key_byte k 3 24 + key_byte k 2 16 + key_byte k 1 8 + key_byte k 0 0
      in snd (snd (mix (a, b, c))))"

definition ceph_str_hash_linux :: "u8 list \<Rightarrow> u32" where
  "ceph_str_hash_linux str =
     fold (\<lambda>c hash. (hash + push_bit 4 (ucast c) + drop_bit 4 (ucast c)) * 11) str 0"

definition CEPH_STR_HASH_LINUX :: int where
  "CEPH_STR_HASH_LINUX = 1"

definition CEPH_STR_HASH_RJENKINS :: int where
  "CEPH_STR_HASH_RJENKINS = 2"

definition ceph_str_hash :: "int \<Rightarrow> u8 list \<Rightarrow> u32" where
  "ceph_str_hash type s =
     (if type = CEPH_STR_HASH_LINUX then ceph_str_hash_linux s
      else if type = CEPH_STR_HASH_RJENKINS then ceph_str_hash_rjenkins s
      else - 1)"

definition ceph_str_hash_valid :: "int \<Rightarrow> bool" where
  "ceph_str_hash_valid type \<longleftrightarrow> type = CEPH_STR_HASH_LINUX \<or> type = CEPH_STR_HASH_RJENKINS"

section \<open>The fragments of an inode\<close>

text \<open>
  The part of \<^verbatim>\<open>CInode\<close> these functions use: the hash type of the layout, the fragment tree, and the map from fragments to
  the \<^verbatim>\<open>CDir\<close> objects in the cache.
\<close>

record 'd inode_frags =
  dl_dir_hash :: int
  dirfragtree :: fragtree
  dirfrags :: "(frag \<times> 'd) list"

definition hash_dentry_name :: "'d inode_frags \<Rightarrow> u8 list \<Rightarrow> u32 option" where
  "hash_dentry_name i dn =
     (let which = (if dl_dir_hash i = 0 then CEPH_STR_HASH_LINUX else dl_dir_hash i) in
      if ceph_str_hash_valid which then Some (ceph_str_hash which dn) else None)"

definition pick_dirfrag :: "'d inode_frags \<Rightarrow> u8 list \<Rightarrow> frag option" where
  "pick_dirfrag i dn =
     (if dirfragtree i = [] then Some frag_root
      else hash_dentry_name i dn \<bind> fragtree_lookup (dirfragtree i))"

definition get_dirfrag :: "'d inode_frags \<Rightarrow> frag \<Rightarrow> 'd option" where
  "get_dirfrag i fg = map_of (dirfrags i) fg"

text \<open>
  \<^verbatim>\<open>get_dirfrags_under\<close>: the loop over the leaves, the loop over the open fragments, and the function. The
  second call of \<^verbatim>\<open>get_leaves_under\<close> appends to the list of the first.
\<close>

fun open_leaves :: "'d inode_frags \<Rightarrow> frag list \<Rightarrow> bool \<times> 'd list" where
  "open_leaves i [] = (True, [])"
| "open_leaves i (p # ps) =
     (let (allp, ls) = open_leaves i ps in
      case get_dirfrag i p of Some d \<Rightarrow> (allp, d # ls) | None \<Rightarrow> (False, ls))"

fun force_open :: "'d inode_frags \<Rightarrow> frag \<Rightarrow> (frag \<times> 'd) list \<Rightarrow> fragtree \<Rightarrow> (fragtree \<times> 'd list) option" where
  "force_open i fg [] tmpdft = Some (tmpdft, [])"
| "force_open i fg ((p, d) # ps) tmpdft = do {
     (tmpdft, _) \<leftarrow> force_to_leaf tmpdft p;
     extra \<leftarrow> (if ceph_frag_contains_frag fg p
               then map_option (\<lambda>leaf. if leaf then [] else [d]) (is_leaf (dirfragtree i) p)
               else Some []);
     (tmpdft, ls) \<leftarrow> force_open i fg ps tmpdft;
     Some (tmpdft, extra @ ls)
   }"

definition get_dirfrags_under :: "'d inode_frags \<Rightarrow> frag \<Rightarrow> (bool \<times> 'd list) option" where
  "get_dirfrags_under i fg = do {
     fglist \<leftarrow> get_leaves_under (dirfragtree i) fg;
     let (allp, ls) = open_leaves i fglist;
     if allp then Some (True, ls)
     else do {
       (tmpdft, _) \<leftarrow> force_to_leaf [] fg;
       (tmpdft, ls') \<leftarrow> force_open i fg (dirfrags i) tmpdft;
       more \<leftarrow> get_leaves_under tmpdft fg;
       Some (list_all (\<lambda>p. get_dirfrag i p \<noteq> None) (fglist @ more), ls @ ls')
     }
   }"

definition verify_dirfrags :: "'d inode_frags \<Rightarrow> unit option" where
  "verify_dirfrags i = do {
     leaves \<leftarrow> those (map (\<lambda>(p, _). is_leaf (dirfragtree i) p) (dirfrags i));
     assert_that (list_all (\<lambda>leaf. leaf) leaves)
   }"

partial_function (option) approx_parent :: "'d inode_frags \<Rightarrow> frag \<Rightarrow> 'd option option" where
  "approx_parent i fg =
     (if ceph_frag_bits fg > 0 then
        frag_parent fg \<bind> (\<lambda>p. case get_dirfrag i p of Some d \<Rightarrow> Some (Some d) | None \<Rightarrow> approx_parent i p)
      else Some None)"

text \<open>The outer option is a failed assertion, the inner one a null pointer.\<close>

definition get_approx_dirfrag :: "'d inode_frags \<Rightarrow> frag \<Rightarrow> 'd option option" where
  "get_approx_dirfrag i fg =
     (case get_dirfrag i fg of
        Some d \<Rightarrow> Some (Some d)
      | None \<Rightarrow> do {
          (_, ls) \<leftarrow> get_dirfrags_under i fg;
          case ls of d # _ \<Rightarrow> Some (Some d) | [] \<Rightarrow> approx_parent i fg
        })"

section \<open>The functions complete\<close>

text \<open>Sound fragments of an inode: a well-formed tree, and fragments of at most 24 bits.\<close>

definition frags_ok :: "'d inode_frags \<Rightarrow> bool" where
  "frags_ok i \<longleftrightarrow> ft_wf (dirfragtree i) \<and> omap_ok (dirfrags i) \<and> (\<forall>p\<in>fst ` set (dirfrags i). frag_ok p)"

lemma open_leaves_eq:
  "fst (open_leaves i ps) = list_all (\<lambda>p. get_dirfrag i p \<noteq> None) ps"
  "d \<in> set (snd (open_leaves i ps)) \<longleftrightarrow> (\<exists>p\<in>set ps. get_dirfrag i p = Some d)"
  by (induction ps) (auto simp: case_prod_beta split: option.split)

lemma force_open_Some:
  assumes "frags_ok i" "\<forall>p\<in>fst ` set ds. frag_ok p" "ft_wf tmp"
  shows "\<exists>tmp' ls. force_open i fg ds tmp = Some (tmp', ls) \<and> ft_wf tmp'
    \<and> (\<forall>d\<in>set ls. \<exists>p. (p, d) \<in> set ds \<and> ceph_frag_contains_frag fg p)"
  using assms(2,3)
proof (induction ds arbitrary: tmp)
  case (Cons x ds)
  obtain p d where x: "x = (p, d)" by fastforce
  have p: "frag_ok p" "ft_wf (dirfragtree i)" using Cons.prems assms(1) x by (auto simp: frags_ok_def)
  obtain tmp1 c where t1: "force_to_leaf tmp p = Some (tmp1, c)" "ft_wf tmp1"
    using force_to_leaf_forced [OF Cons.prems(2) p(1)] by (auto simp: forced_def)
  obtain l where l: "is_leaf (dirfragtree i) p = Some l" using is_leaf_eq [OF ft_wf_at [OF p(2)] p(1)] by blast
  obtain tmp' ls where "force_open i fg ds tmp1 = Some (tmp', ls)" "ft_wf tmp'"
    "\<forall>d\<in>set ls. \<exists>p. (p, d) \<in> set ds \<and> ceph_frag_contains_frag fg p"
    using Cons.IH [OF _ t1(2)] Cons.prems(1) by auto
  then show ?case using t1(1) l x by fastforce
qed simp

lemma get_dirfrags_under_Some:
  assumes "frags_ok i" "frag_ok fg"
  shows "\<exists>ls. get_dirfrags_under i fg
      = Some (\<forall>l\<in>set (ft_leaves (dirfragtree i) frag_root). ceph_frag_contains_frag fg l \<longrightarrow> get_dirfrag i l \<noteq> None, ls)
    \<and> (\<forall>d\<in>set ls. \<exists>p. get_dirfrag i p = Some d \<and> ceph_frag_contains_frag fg p)
    \<and> (\<forall>l d. l \<in> set (ft_leaves (dirfragtree i) frag_root) \<longrightarrow> ceph_frag_contains_frag fg l \<longrightarrow> get_dirfrag i l = Some d \<longrightarrow> d \<in> set ls)"
proof -
  have wf: "ft_wf (dirfragtree i)" using assms(1) by (simp add: frags_ok_def)
  obtain fgl where f: "get_leaves_under (dirfragtree i) fg = Some fgl"
    "set fgl = {l \<in> set (ft_leaves (dirfragtree i) frag_root). ceph_frag_contains_frag fg l}"
    using get_leaves_under_Some [OF ft_wf_at [OF wf] assms(2)] by blast
  obtain t1 c where t1: "force_to_leaf [] fg = Some (t1, c)" "ft_wf t1"
    using force_to_leaf_forced [OF ft_wf_empty assms(2)] by (auto simp: forced_def)
  obtain t2 ls2 where t2: "force_open i fg (dirfrags i) t1 = Some (t2, ls2)" "ft_wf t2"
    "\<forall>d\<in>set ls2. \<exists>p. (p, d) \<in> set (dirfrags i) \<and> ceph_frag_contains_frag fg p"
    using force_open_Some [OF assms(1) _ t1(2), where ds = "dirfrags i" and fg = fg] assms(1) by (auto simp: frags_ok_def)
  obtain more where m: "get_leaves_under t2 fg = Some more" using get_leaves_under_Some [OF ft_wf_at [OF t2(2)] assms(2)] by blast
  let ?all = "list_all (\<lambda>p. get_dirfrag i p \<noteq> None) fgl"
  obtain ls1 where o: "open_leaves i fgl = (?all, ls1)" "\<forall>d. d \<in> set ls1 \<longleftrightarrow> (\<exists>p\<in>set fgl. get_dirfrag i p = Some d)"
    using open_leaves_eq(1) [of i fgl] open_leaves_eq(2) [of _ i fgl] by (cases "open_leaves i fgl") simp
  have a: "?all \<longleftrightarrow> (\<forall>l\<in>set (ft_leaves (dirfragtree i) frag_root). ceph_frag_contains_frag fg l \<longrightarrow> get_dirfrag i l \<noteq> None)"
    using f(2) by (auto simp: list_all_iff)
  let ?ls = "if ?all then ls1 else ls1 @ ls2"
  have "get_dirfrags_under i fg = Some (?all, ?ls)"
    using f(1) o(1) t1(1) t2(1) m by (simp add: get_dirfrags_under_def)
  moreover have "\<exists>p. get_dirfrag i p = Some d \<and> ceph_frag_contains_frag fg p" if "d \<in> set ls2" for d
    using t2(3) that assms(1) map_of_is_SomeI [OF omap_ok_distinct] by (fastforce simp: get_dirfrag_def frags_ok_def)
  then have "\<forall>d\<in>set ?ls. \<exists>p. get_dirfrag i p = Some d \<and> ceph_frag_contains_frag fg p" using f(2) o(2) by auto
  moreover have "\<forall>l d. l \<in> set (ft_leaves (dirfragtree i) frag_root) \<longrightarrow> ceph_frag_contains_frag fg l \<longrightarrow> get_dirfrag i l = Some d \<longrightarrow> d \<in> set ?ls"
    using f(2) o(2) by auto
  ultimately show ?thesis unfolding a by blast
qed

lemma get_dirfrag_ok: "frags_ok i \<Longrightarrow> get_dirfrag i p = Some d \<Longrightarrow> frag_ok p"
  by (auto simp: frags_ok_def get_dirfrag_def dest!: map_of_SomeD)

lemma approx_parent_Some:
  assumes "frag_ok fg" "frags_ok i"
  shows "\<exists>r. approx_parent i fg = Some r \<and> (\<forall>d. r = Some d \<longrightarrow> (\<exists>p. get_dirfrag i p = Some d \<and> ceph_frag_contains_frag p fg))"
  using assms(1)
proof (induction "fbits fg" arbitrary: fg rule: less_induct)
  case less
  show ?case
  proof (cases "0 < fbits fg")
    case True
    note p = parent_bits [OF less.prems True]
    have c: "ceph_frag_contains_frag (ceph_frag_parent fg) fg" using contains_frag_parent [OF less.prems True] .
    show ?thesis
    proof (cases "get_dirfrag i (ceph_frag_parent fg)")
      case None
      obtain r where r: "approx_parent i (ceph_frag_parent fg) = Some r"
        "\<forall>d. r = Some d \<longrightarrow> (\<exists>p. get_dirfrag i p = Some d \<and> ceph_frag_contains_frag p (ceph_frag_parent fg))"
        using less.hyps [of "ceph_frag_parent fg"] p True by auto
      have "ceph_frag_contains_frag q fg" if "get_dirfrag i q = Some d" "ceph_frag_contains_frag q (ceph_frag_parent fg)" for q d
        using contains_frag_trans [OF get_dirfrag_ok [OF assms(2) that(1)] _ less.prems that(2) c] p by blast
      then have "\<forall>d. r = Some d \<longrightarrow> (\<exists>q. get_dirfrag i q = Some d \<and> ceph_frag_contains_frag q fg)" using r(2) by blast
      then show ?thesis
        using r(1) True None by (simp add: approx_parent.simps [of i fg] frag_parent_def word_less_nat_alt)
    next
      case (Some d)
      then show ?thesis using True c by (auto simp: approx_parent.simps [of i fg] frag_parent_def word_less_nat_alt)
    qed
  next
    case False
    then show ?thesis by (simp add: approx_parent.simps [of i fg] word_less_nat_alt)
  qed
qed

section \<open>Properties\<close>

definition sample_inode :: "nat inode_frags" where
  "sample_inode = \<lparr>dl_dir_hash = 2, dirfragtree = sample_tree, dirfrags = [(ceph_frag_make 1 0, 7)]\<rparr>"

lemma sample_inode_ok: "frags_ok sample_inode"
  using sample_tree_wf by (simp add: frags_ok_def sample_inode_def omap_ok_def)

text \<open>
  C24: on sound fragments \<^verbatim>\<open>get_dirfrags_under\<close> completes, with all the calls of \<^verbatim>\<open>force_to_leaf\<close> it makes. It reports that
  everything below a fragment is in the cache exactly when every leaf of the tree below it is. The second
  half of the function, which is to find that the open fragments cover the fragment even though they are no leaves, can never answer yes: the list of leaves is not cleared
  in between, so the leaf that was missing is found missing again.
\<close>

theorem get_dirfrags_under_complete:
  assumes "frags_ok i" "frag_ok fg"
  shows "\<exists>leaves ls. get_leaves (dirfragtree i) = Some leaves
    \<and> get_dirfrags_under i fg = Some (\<forall>l\<in>set leaves. ceph_frag_contains_frag fg l \<longrightarrow> get_dirfrag i l \<noteq> None, ls)
    \<and> (\<forall>d\<in>set ls. \<exists>p. get_dirfrag i p = Some d \<and> ceph_frag_contains_frag fg p)"
proof -
  have "ft_ok (dirfragtree i)" using assms(1) ft_wfD by (auto simp: frags_ok_def)
  then have "get_leaves (dirfragtree i) = Some (ft_leaves (dirfragtree i) frag_root)"
    using get_leaves_eq by (simp add: get_leaves_def)
  then show ?thesis using get_dirfrags_under_Some [OF assms] by blast
qed

text \<open>The open fragment is all of what is asked for, but no leaf.\<close>

theorem get_dirfrags_under_complete_witness:
  "\<exists>b ls. get_dirfrags_under sample_inode (ceph_frag_make 1 0) = Some (b, ls)
     \<and> (\<forall>d\<in>set ls. \<exists>p. get_dirfrag sample_inode p = Some d \<and> ceph_frag_contains_frag (ceph_frag_make 1 0) p)"
proof -
  have "frag_ok (ceph_frag_make 1 0)" by simp
  from get_dirfrags_under_complete [OF sample_inode_ok this] show ?thesis by auto
qed

text \<open>
  C23: \<^verbatim>\<open>pick_dirfrag\<close> assigns every name to a fragment: if the hash type of the directory is valid it is the one leaf that
  contains the hash of the name, also where the hash is not computed because the tree is empty.
\<close>

theorem pick_dirfrag_leaf:
  assumes "frags_ok i" "dl_dir_hash i \<in> {0, 1, 2}"
  shows "\<exists>h f leaves. hash_dentry_name i dn = Some h \<and> get_leaves (dirfragtree i) = Some leaves \<and> pick_dirfrag i dn = Some f
    \<and> {g \<in> set leaves. ceph_frag_contains_value g h} = {f}"
proof -
  obtain h where h: "hash_dentry_name i dn = Some h"
    using assms(2) by (auto simp: hash_dentry_name_def ceph_str_hash_valid_def CEPH_STR_HASH_LINUX_def CEPH_STR_HASH_RJENKINS_def)
  have ok: "ft_ok (dirfragtree i)" using assms(1) ft_wfD by (auto simp: frags_ok_def)
  obtain f ls where l: "fragtree_lookup (dirfragtree i) h = Some f" "get_leaves (dirfragtree i) = Some ls"
    "{g \<in> set ls. ceph_frag_contains_value g h} = {f}"
    using fragtree_lookup_only [OF ok] by blast
  have "f = frag_root" if "dirfragtree i = []"
    using l(1) that fragtree_lookup_iff [OF ok, of h frag_root] frag_root_node by (simp add: get_split_def)
  then have "pick_dirfrag i dn = Some f" using h l(1) by (simp add: pick_dirfrag_def)
  then show ?thesis using h l by blast
qed

theorem pick_dirfrag_leaf_witness:
  "\<exists>f. pick_dirfrag sample_inode [0x61, 0x62] = Some f"
  using pick_dirfrag_leaf [OF sample_inode_ok, of "[0x61, 0x62]"] by (auto simp: sample_inode_def)

end
