(* ===== verification/Balancer_Hit.thy ===== *)
theory Balancer_Hit
  imports Balancer_Export Dir_Frags
begin

text \<open>
  What a request does to the balancer, in \<^verbatim>\<open>src/mds/MDBalancer.cc\<close>: \<^verbatim>\<open>hit_inode\<close> and \<^verbatim>\<open>hit_dir\<close> with the counters of the
  directory and its ancestors, replication, the spreading of potential load, and the queues of fragments to split and to
  merge; \<^verbatim>\<open>subtract_export\<close> and \<^verbatim>\<open>add_import\<close>. The directory fragments are a store of records, so that the updates of
  shared objects are updates of the store.
\<close>

section \<open>The store\<close>

text \<open>
  A dentry is given by the inode of its primary linkage, if it has one, and whether its projected linkage is null.
  \<open>hd_subtree_size\<close> is what \<^verbatim>\<open>get_authsubtree_size_slow\<close> returns in the current epoch.
\<close>

record hdir =
  hd_ino :: nat
  hd_frag :: frag
  hd_auth :: bool
  hd_ambiguous :: bool
  hd_subtree_root :: bool
  hd_base :: bool
  hd_stray :: bool
  hd_frag_size :: int
  hd_num_head_null :: int
  hd_num_any :: nat
  hd_items :: "(nat option \<times> bool) list"
  hd_subtree_size :: int
  hd_rep :: bool
  hd_last_popularity_sample :: utime_t
  hd_pop_me :: dirfrag_load_vec_t
  hd_pop_nested :: dirfrag_load_vec_t
  hd_pop_auth_subtree :: dirfrag_load_vec_t
  hd_pop_auth_subtree_nested :: dirfrag_load_vec_t
  hd_pop_spread :: load_spread_t
  hd_pot_all :: dirfrag_pot_load_t
  hd_pot_auth :: dirfrag_pot_load_t
  hd_pot_cached :: dirfrag_pot_load_t

type_synonym dirfrag = "nat \<times> frag"

datatype frag_callback = Split_callback dirfrag | Merge_callback dirfrag

datatype hit_action =
    Queue_waiter frag_callback
  | Add_timer frag_callback
  | Send_dir_updates nat bool
  | Split_dir nat int
  | Merge_dir nat frag

record hit_state =
  hs_dirs :: "nat \<Rightarrow> hdir"
  hs_split_pending :: "dirfrag set"
  hs_merge_pending :: "dirfrag set"

record hit_conf =
  hc_mds_bal_frag :: bool
  mds_bal_fragment_interval :: int
  mds_bal_split_size :: int
  mds_bal_merge_size :: int
  mds_bal_split_bits :: int
  mds_bal_fragment_fast_factor :: real
  mds_bal_split_rd :: real
  mds_bal_split_wr :: real
  mds_bal_replicate_threshold :: real
  mds_bal_unreplicate_threshold :: real

text \<open>
  What the functions read besides: the inodes in the cache, the directories above a directory (nearest first), the
  decay rate, the balancer's epoch and last sample, and the cluster map.
\<close>

record hit_env =
  he_conf :: hit_conf
  he_inode :: "nat \<Rightarrow> nat inode_frags option"
  he_above :: "nat \<Rightarrow> nat list"
  he_rate :: decay_rate
  he_beat_epoch :: int
  he_last_sample :: utime_t
  he_num_in_mds :: nat
  he_allows_dirfrags :: bool

definition upd_dir :: "nat \<Rightarrow> (hdir \<Rightarrow> hdir) \<Rightarrow> hit_state \<Rightarrow> hit_state" where
  "upd_dir d f s = s\<lparr>hs_dirs := (hs_dirs s)(d := f (hs_dirs s d))\<rparr>"

definition dirfrag_of :: "hdir \<Rightarrow> dirfrag" where
  "dirfrag_of d = (hd_ino d, hd_frag d)"

definition petals :: "hit_env \<Rightarrow> nat \<Rightarrow> nat list" where
  "petals e ino = (case he_inode e ino of None \<Rightarrow> [] | Some i \<Rightarrow> map snd (dirfrags i))"

definition cache_get_dirfrag :: "hit_env \<Rightarrow> dirfrag \<Rightarrow> nat option" where
  "cache_get_dirfrag e df = he_inode e (fst df) \<bind> (\<lambda>i. get_dirfrag i (snd df))"

section \<open>Splitting and merging fragments\<close>

text \<open>The casts to \<^verbatim>\<open>int\<close> keep 32 bits of the size.\<close>

definition c_int :: "int \<Rightarrow> int" where
  "c_int x = signed_take_bit 31 x"

definition should_split :: "hit_conf \<Rightarrow> hdir \<Rightarrow> bool" where
  "should_split cf d \<longleftrightarrow> c_int (hd_frag_size d) > mds_bal_split_size cf"

definition should_merge :: "hit_conf \<Rightarrow> hdir \<Rightarrow> bool" where
  "should_merge cf d \<longleftrightarrow> c_int (hd_frag_size d) < mds_bal_merge_size cf"

definition should_split_fast :: "hit_conf \<Rightarrow> hdir \<Rightarrow> bool" where
  "should_split_fast cf d =
     (let fast_limit = c_trunc (real_of_int (mds_bal_split_size cf) * mds_bal_fragment_fast_factor cf) in
      if hd_frag_size d + hd_num_head_null d \<le> fast_limit then False
      else if hd_frag_size d > fast_limit then True
      else int (length (filter (\<lambda>it. \<not> snd it) (hd_items d))) > fast_limit)"

definition queue_split :: "hit_env \<Rightarrow> nat \<Rightarrow> bool \<Rightarrow> hit_state \<Rightarrow> (hit_state \<times> hit_action list) option" where
  "queue_split e d fast s = do {
     assert_that (he_allows_dirfrags e);
     let fr = dirfrag_of (hs_dirs s d);
     let is_new = (fr \<notin> hs_split_pending s);
     Some (s\<lparr>hs_split_pending := insert fr (hs_split_pending s)\<rparr>,
           if fast then [Queue_waiter (Split_callback fr)]
           else if is_new then [Add_timer (Split_callback fr)] else [])
   }"

definition queue_merge :: "nat \<Rightarrow> hit_state \<Rightarrow> hit_state \<times> hit_action list" where
  "queue_merge d s =
     (let fr = dirfrag_of (hs_dirs s d) in
      if fr \<notin> hs_merge_pending s
      then (s\<lparr>hs_merge_pending := insert fr (hs_merge_pending s)\<rparr>, [Add_timer (Merge_callback fr)])
      else (s, []))"

definition split_callback :: "hit_env \<Rightarrow> dirfrag \<Rightarrow> hit_state \<Rightarrow> hit_state \<times> hit_action list" where
  "split_callback e fr s =
     (if fr \<notin> hs_split_pending s then (s, [])
      else
        (let s1 = s\<lparr>hs_split_pending := hs_split_pending s - {fr}\<rparr> in
         case cache_get_dirfrag e fr of
           None \<Rightarrow> (s1, [])
         | Some d \<Rightarrow> if \<not> hd_auth (hs_dirs s1 d) then (s1, [])
                     else (s1, [Split_dir d (mds_bal_split_bits (he_conf e))])))"

text \<open>The loop of the merge callback, which climbs as long as the sibling may be merged.\<close>

partial_function (option) merge_climb :: "hit_env \<Rightarrow> hit_state \<Rightarrow> nat inode_frags \<Rightarrow> frag \<Rightarrow> frag option" where
  "merge_climb e s i fg =
     (if fg = frag_root then Some fg
      else frag_get_sibling fg \<bind> (\<lambda>sibfg. get_dirfrags_under i sibfg \<bind> (\<lambda>(complete, sibs).
        if \<not> complete then Some fg
        else if \<not> list_all (\<lambda>sib. hd_auth (hs_dirs s sib) \<and> should_merge (he_conf e) (hs_dirs s sib)) sibs then Some fg
        else frag_parent fg \<bind> merge_climb e s i)))"

definition merge_callback :: "hit_env \<Rightarrow> dirfrag \<Rightarrow> hit_state \<Rightarrow> (hit_state \<times> hit_action list) option" where
  "merge_callback e fr s = do {
     assert_that (snd fr \<noteq> frag_root);
     let s1 = s\<lparr>hs_merge_pending := hs_merge_pending s - {fr}\<rparr>;
     case cache_get_dirfrag e fr of
       None \<Rightarrow> Some (s1, [])
     | Some d \<Rightarrow> do {
         assert_that (dirfrag_of (hs_dirs s1 d) = fr);
         if \<not> hd_auth (hs_dirs s1 d) then Some (s1, [])
         else do {
           i \<leftarrow> he_inode e (hd_ino (hs_dirs s1 d));
           fg \<leftarrow> merge_climb e s1 i (hd_frag (hs_dirs s1 d));
           Some (s1, if fg \<noteq> hd_frag (hs_dirs s1 d) then [Merge_dir (hd_ino (hs_dirs s1 d)) fg] else [])
         }
       }
   }"

definition maybe_split :: "hit_env \<Rightarrow> nat \<Rightarrow> bool \<Rightarrow> hit_state \<Rightarrow> (hit_state \<times> hit_action list) option" where
  "maybe_split e d hot s =
     (let cf = he_conf e; dir = hs_dirs s d in
      if mds_bal_split_size cf > 0 \<and> he_allows_dirfrags e \<and> (should_split cf dir \<or> hot) then
        (if dirfrag_of dir \<notin> hs_split_pending s then queue_split e d False s
         else if should_split_fast cf dir then queue_split e d True s
         else Some (s, []))
      else Some (s, []))"

definition maybe_merge :: "hit_env \<Rightarrow> nat \<Rightarrow> hit_state \<Rightarrow> hit_state \<times> hit_action list" where
  "maybe_merge e d s =
     (let dir = hs_dirs s d in
      if hd_frag dir \<noteq> frag_root \<and> should_merge (he_conf e) dir \<and> dirfrag_of dir \<notin> hs_merge_pending s
      then queue_merge d s else (s, []))"

definition maybe_fragment :: "hit_env \<Rightarrow> nat \<Rightarrow> bool \<Rightarrow> hit_state \<Rightarrow> (hit_state \<times> hit_action list) option" where
  "maybe_fragment e d hot s =
     (let cf = he_conf e; dir = hs_dirs s d in
      if hc_mds_bal_frag cf \<and> mds_bal_fragment_interval cf > 0 \<and> \<not> hd_base dir \<and> hd_auth dir then do {
        (s1, a1) \<leftarrow> maybe_split e d hot s;
        let (s2, a2) = maybe_merge e d s1;
        Some (s2, a1 @ a2)
      } else Some (s, []))"

text \<open>
  \<^verbatim>\<open>dynamically_fragment\<close>, with the loads of the directory and of the fragments of its subdirectories, which \<^verbatim>\<open>get_load\<close>
  computes.
\<close>

definition dynamically_fragment ::
  "hit_env \<Rightarrow> nat \<Rightarrow> real \<Rightarrow> real \<Rightarrow> real list \<Rightarrow> hit_state \<Rightarrow> (hit_state \<times> hit_action list) option" where
  "dynamically_fragment e d amount dir_pop sub_pops s =
     (if amount \<le> 1 / 10 then Some (s, [])
      else if hd_stray (hs_dirs s d) \<or> \<not> hd_auth (hs_dirs s d) then Some (s, [])
      else if dir_pop > amount * (6 / 10) then
        (let file_hot_ratio = 1 - sum_list sub_pops / dir_pop in
         if file_hot_ratio \<ge> 1 / 2 then maybe_fragment e d True s else Some (s, []))
      else Some (s, []))"

section \<open>Potential load\<close>

text \<open>The share of a fragment in a potential load: half by dentries, half by fragment.\<close>

definition pot_share :: "real \<Rightarrow> nat \<Rightarrow> nat \<Rightarrow> nat \<Rightarrow> real" where
  "pot_share adj num_any brothers_count bro_dir_count =
     5 / 10 * real (1 + num_any) * (adj / real brothers_count) + 5 / 10 * (adj / real bro_dir_count)"

definition brothers_count :: "hit_state \<Rightarrow> nat list \<Rightarrow> nat" where
  "brothers_count s ps = 1 + sum_list (map (\<lambda>p. 1 + hd_num_any (hs_dirs s p)) ps)"

definition bro_dir_count :: "nat list \<Rightarrow> nat" where
  "bro_dir_count ps = 1 + length ps"

definition auth_petals :: "hit_state \<Rightarrow> nat list \<Rightarrow> nat list" where
  "auth_petals s ps = filter (\<lambda>p. hd_auth (hs_dirs s p)) ps"

definition pot_adjust_dir :: "int \<Rightarrow> real \<Rightarrow> real \<Rightarrow> hdir \<Rightarrow> hdir" where
  "pot_adjust_dir epoch adj_auth adj_all d =
     (let d1 = d\<lparr>hd_pot_all := pot_adjust adj_all epoch (hd_pot_all d)\<rparr>
      in if hd_auth d then d1\<lparr>hd_pot_auth := pot_adjust adj_auth epoch (hd_pot_auth d1)\<rparr> else d1)"

text \<open>
  \<^verbatim>\<open>update_dir_pot_recur\<close>. The size read for every dentry is that of the directory itself; \<^verbatim>\<open>brocount\<close> is the sum over the dentries.
  If that is 0 the quotient, NaN in the code, is 0 here.
\<close>

primrec update_dir_pot_recur :: "nat \<Rightarrow> hit_env \<Rightarrow> nat \<Rightarrow> real \<Rightarrow> real \<Rightarrow> hit_state \<Rightarrow> hit_state" where
  "update_dir_pot_recur 0 = (\<lambda>e d adj_auth_pot adj_all_pot s. upd_dir d (pot_adjust_dir (he_beat_epoch e) adj_auth_pot adj_all_pot) s)"
| "update_dir_pot_recur (Suc level) = (\<lambda>e d adj_auth_pot adj_all_pot s.
     let s1 = upd_dir d (pot_adjust_dir (he_beat_epoch e) adj_auth_pot adj_all_pot) s;
         dir = hs_dirs s1 d;
         my_subtree_size = real_of_int (hd_subtree_size dir);
         brocount = real_of_int (sum_list (map (\<lambda>_. hd_subtree_size dir) (hd_items dir)));
         my_adj_auth_pot = adj_auth_pot * my_subtree_size / brocount;
         my_adj_all_pot = adj_all_pot * my_subtree_size / brocount
     in fold (\<lambda>it s2.
          case fst it of
            None \<Rightarrow> s2
          | Some ino \<Rightarrow>
              (let ps = petals e ino;
                   bc = brothers_count s2 ps; bac = brothers_count s2 (auth_petals s2 ps);
                   dc = bro_dir_count ps; dac = bro_dir_count (auth_petals s2 ps)
               in fold (\<lambda>p s3. update_dir_pot_recur level e p
                    (pot_share my_adj_auth_pot (hd_num_any (hs_dirs s3 p)) bac dac)
                    (pot_share my_adj_all_pot (hd_num_any (hs_dirs s3 p)) bc dc) s3) ps s2))
          (hd_items dir) s1)"

text \<open>
  The closure \<^verbatim>\<open>update_dir_pot\<close>: it goes up at most \<open>level\<close> directories. The result says whether it went all the way and
  had collected enough.
\<close>

definition update_dir_pot :: "hit_env \<Rightarrow> nat \<Rightarrow> nat \<Rightarrow> hit_state \<Rightarrow> bool \<times> hit_state" where
  "update_dir_pot e d level s =
     (let i = min level (length (he_above e d));
          ret = (i = level);
          top = (d # he_above e d) ! i;
          ps = petals e (hd_ino (hs_dirs s top));
          bc = brothers_count s ps; bac = brothers_count s (auth_petals s ps);
          dc = bro_dir_count ps; dac = bro_dir_count (auth_petals s ps);
          s1 = upd_dir d (\<lambda>x. x\<lparr>hd_pot_cached := pot_inc (he_beat_epoch e) (hd_pot_cached x)\<rparr>) s;
          (cached_load, pc) = pot_load (he_beat_epoch e) True (hd_pot_cached (hs_dirs s1 d));
          s2 = upd_dir d (\<lambda>x. x\<lparr>hd_pot_cached := pc\<rparr>) s1
      in if cached_load < 100 then (False, s2)
         else
           (let s3 = upd_dir d (\<lambda>x. x\<lparr>hd_pot_cached := pot_clear (he_beat_epoch e) (hd_pot_cached x)\<rparr>) s2
            in (ret, fold (\<lambda>p s4. update_dir_pot_recur i e p
                       (pot_share cached_load (hd_num_any (hs_dirs s4 p)) bac dac)
                       (pot_share cached_load (hd_num_any (hs_dirs s4 p)) bc dc) s4) ps s3)))"

section \<open>Hits\<close>

definition hit_vec :: "utime_t \<Rightarrow> decay_rate \<Rightarrow> meta_pop \<Rightarrow> real \<Rightarrow> real \<Rightarrow> dirfrag_load_vec_t \<Rightarrow> dirfrag_load_vec_t" where
  "hit_vec now rate ty amount rd_adj v =
     (let v1 = lv_upd ty (\<lambda>c. snd (dc_hit now rate amount c)) v
      in if rd_adj \<noteq> 0 then lv_upd META_POP_IRD (dc_adjust_now now rate rd_adj) v1 else v1)"

text \<open>The loop over the directory and its ancestors; \<open>sub\<close> is \<^verbatim>\<open>hit_subtree\<close>, \<open>nst\<close> is \<^verbatim>\<open>hit_subtree_nested\<close>.\<close>

fun hit_up :: "hit_env \<Rightarrow> utime_t \<Rightarrow> meta_pop \<Rightarrow> real \<Rightarrow> real \<Rightarrow> bool \<Rightarrow> bool \<Rightarrow> nat list \<Rightarrow> hit_state \<Rightarrow> hit_state" where
  "hit_up e now ty amount rd_adj sub nst [] s = s"
| "hit_up e now ty amount rd_adj sub nst (d # ds) s =
     (let h = hit_vec now (he_rate e) ty amount rd_adj;
          s1 = upd_dir d (\<lambda>x. x\<lparr>hd_pop_nested := h (hd_pop_nested x)\<rparr>) s;
          s2 = (if sub then upd_dir d (\<lambda>x. x\<lparr>hd_pop_auth_subtree := h (hd_pop_auth_subtree x)\<rparr>) s1 else s1);
          s3 = (if nst then upd_dir d (\<lambda>x. x\<lparr>hd_pop_auth_subtree_nested := h (hd_pop_auth_subtree_nested x)\<rparr>) s2 else s2)
      in hit_up e now ty amount rd_adj (sub \<and> \<not> hd_subtree_root (hs_dirs s3 d)) nst ds s3)"

text \<open>Replication; the result is \<^verbatim>\<open>rd_adj\<close>.\<close>

definition hit_replicate :: "hit_env \<Rightarrow> utime_t \<Rightarrow> nat \<Rightarrow> hit_state \<Rightarrow> real \<times> hit_state \<times> hit_action list" where
  "hit_replicate e now d s =
     (if utime_lt (hd_last_popularity_sample (hs_dirs s d)) (he_last_sample e) then
        (let rate = he_rate e; cf = he_conf e;
             (dir_pop0, c) = dc_get now rate (lv_get META_POP_IRD (hd_pop_auth_subtree (hs_dirs s d)));
             (pop_sp, sp) = spread_get now rate (hd_pop_spread (hs_dirs s d));
             s1 = upd_dir d (\<lambda>x. x\<lparr>hd_pop_auth_subtree := lv_upd META_POP_IRD (\<lambda>_. c) (hd_pop_auth_subtree x),
                                   hd_last_popularity_sample := he_last_sample e, hd_pop_spread := sp\<rparr>) s;
             dir_pop = dir_pop0 + pop_sp * 10;
             dir = hs_dirs s1 d
         in if hd_auth dir \<and> \<not> hd_ambiguous dir then
              (let (rd_adj, s2, a2) =
                 (if \<not> hd_rep dir \<and> dir_pop \<ge> mds_bal_replicate_threshold cf then
                    (let (rdp, c) = dc_get now rate (lv_get META_POP_IRD (hd_pop_me dir));
                         rd_adj = (rdp / real (he_num_in_mds e) - rdp) / 2
                     in (rd_adj,
                         upd_dir d (\<lambda>x. x\<lparr>hd_rep := True,
                           hd_pop_me := lv_upd META_POP_IRD (\<lambda>_. dc_adjust rd_adj c) (hd_pop_me x),
                           hd_pop_auth_subtree := lv_upd META_POP_IRD (dc_adjust rd_adj) (hd_pop_auth_subtree x)\<rparr>) s1,
                         [Send_dir_updates d True]))
                  else (0, s1, []))
               in if hd_ino dir \<noteq> 1 \<and> hd_rep (hs_dirs s2 d) \<and> dir_pop < mds_bal_unreplicate_threshold cf
                  then (rd_adj, upd_dir d (\<lambda>x. x\<lparr>hd_rep := False\<rparr>) s2, a2 @ [Send_dir_updates d False])
                  else (rd_adj, s2, a2))
            else (0, s1, []))
      else (0, s, []))"

text \<open>The end of \<^verbatim>\<open>hit_dir\<close>: the potential load of a first hit.\<close>

definition hit_pot :: "hit_env \<Rightarrow> nat \<Rightarrow> hit_state \<Rightarrow> hit_state" where
  "hit_pot e d s =
     (case he_above e d of
        [] \<Rightarrow> snd (update_dir_pot e d 0 s)
      | p # ps \<Rightarrow>
          (let update_pot_auth = hd_auth (hs_dirs s d);
               (up, s1) = update_dir_pot e d 1 s
           in fold (\<lambda>x s2. upd_dir x (\<lambda>y.
                     (let y1 = (if update_pot_auth then y\<lparr>hd_pot_auth := pot_inc (he_beat_epoch e) (hd_pot_auth y)\<rparr> else y)
                      in y1\<lparr>hd_pot_all := pot_inc (he_beat_epoch e) (hd_pot_all y1)\<rparr>)) s2)
                (if up then ps else p # ps) s1))"

definition hit_dir ::
  "hit_env \<Rightarrow> utime_t \<Rightarrow> nat \<Rightarrow> meta_pop \<Rightarrow> int \<Rightarrow> real \<Rightarrow> int \<Rightarrow> hit_state \<Rightarrow> (hit_state \<times> hit_action list) option" where
  "hit_dir e now d ty who amount newold s =
     (let rate = he_rate e; cf = he_conf e;
          (v, c) = dc_hit now rate amount (lv_get ty (hd_pop_me (hs_dirs s d)));
          s1 = upd_dir d (\<lambda>x. x\<lparr>hd_pop_me := lv_upd ty (\<lambda>_. c) (hd_pop_me x)\<rparr>) s;
          hot = (v > mds_bal_split_rd cf \<and> ty = META_POP_IRD \<or> v > mds_bal_split_wr cf \<and> ty = META_POP_IWR)
      in do {
        (s2, a2) \<leftarrow> maybe_fragment e d hot s1;
        s3 \<leftarrow> (if ty = META_POP_IRD \<and> who \<ge> 0
               then map_option (\<lambda>(_, sp). upd_dir d (\<lambda>x. x\<lparr>hd_pop_spread := sp\<rparr>) s2)
                      (spread_hit now rate who (hd_pop_spread (hs_dirs s2 d)))
               else Some s2);
        let (rd_adj, s4, a4) = (if ty = META_POP_IRD then hit_replicate e now d s3 else (0, s3, []));
        let auth = hd_auth (hs_dirs s4 d);
        let s5 = hit_up e now ty amount rd_adj auth auth (d # he_above e d) s4;
        Some (if newold < 1 then s5 else hit_pot e d s5, a2 @ a4)
      })"

text \<open>
  \<^verbatim>\<open>hit_inode\<close>: an inode has counters for reads and writes only; \<^verbatim>\<open>get\<close> asserts the type. The hit history of the inode and
  of the inodes above it is that of \<^const>\<open>inode_hit\<close>.
\<close>

record inode_load_vec_t =
  il_ird :: decay_counter
  il_iwr :: decay_counter

fun il_upd :: "meta_pop \<Rightarrow> (decay_counter \<Rightarrow> decay_counter) \<Rightarrow> inode_load_vec_t \<Rightarrow> inode_load_vec_t option" where
  "il_upd META_POP_IRD f v = Some (v\<lparr>il_ird := f (il_ird v)\<rparr>)"
| "il_upd META_POP_IWR f v = Some (v\<lparr>il_iwr := f (il_iwr v)\<rparr>)"
| "il_upd _ f v = None"

definition hit_inode ::
  "hit_env \<Rightarrow> utime_t \<Rightarrow> nat option \<Rightarrow> meta_pop \<Rightarrow> int \<Rightarrow> inode_load_vec_t \<times> inode_hot \<times> inode_hot list \<Rightarrow> hit_state
    \<Rightarrow> ((inode_load_vec_t \<times> inode_hot \<times> inode_hot list) \<times> hit_state \<times> hit_action list) option" where
  "hit_inode e now parent ty who = (\<lambda>(pop, h, ancestors) s. do {
     pop' \<leftarrow> il_upd ty (\<lambda>c. snd (dc_hit now (he_rate e) 1 c)) pop;
     let (newold, h', ancestors') = inode_hit True (he_beat_epoch e) h ancestors;
     (s', acts) \<leftarrow> (case parent of None \<Rightarrow> Some (s, []) | Some d \<Rightarrow> hit_dir e now d ty who 1 newold s);
     Some ((pop', h', ancestors'), s', acts)
   })"

section \<open>Exports and imports\<close>

text \<open>
  The loop of both functions: it adds or subtracts (\<open>op\<close>) the load of the directory, a copy that decays on the way.
\<close>

definition nested_loop ::
  "(dirfrag_load_vec_t \<Rightarrow> dirfrag_load_vec_t \<Rightarrow> dirfrag_load_vec_t \<times> dirfrag_load_vec_t) \<Rightarrow> hit_env \<Rightarrow> nat \<Rightarrow> hit_state \<Rightarrow> hit_state" where
  "nested_loop op e d s =
     (let subload = hd_pop_auth_subtree (hs_dirs s d) in
      snd (fold (\<lambda>p (sl, s).
        (let (nested, sl1) = op (hd_pop_nested (hs_dirs s p)) sl;
             (auth_nested, sl2) = op (hd_pop_auth_subtree_nested (hs_dirs s p)) sl1
         in (sl2, upd_dir p (\<lambda>x. x\<lparr>hd_pop_nested := nested, hd_pop_auth_subtree_nested := auth_nested\<rparr>) s)))
        (he_above e d) (subload, s)))"

definition subtract_export :: "hit_env \<Rightarrow> utime_t \<Rightarrow> nat \<Rightarrow> hit_state \<Rightarrow> hit_state" where
  "subtract_export e now d s = nested_loop (lv_sub now (he_rate e)) e d s"

definition add_import :: "hit_env \<Rightarrow> utime_t \<Rightarrow> nat \<Rightarrow> hit_state \<Rightarrow> hit_state" where
  "add_import e now d s = nested_loop (lv_add now (he_rate e)) e d s"

section \<open>Updates of the store\<close>

lemma upd_dir_simps [simp]:
  "hs_dirs (upd_dir d f s) x = (if x = d then f (hs_dirs s d) else hs_dirs s x)"
  "hs_split_pending (upd_dir d f s) = hs_split_pending s" "hs_merge_pending (upd_dir d f s) = hs_merge_pending s"
  by (simp_all add: upd_dir_def)

lemma fold_upd_dir:
  "distinct ps \<Longrightarrow> hs_dirs (fold (\<lambda>p. upd_dir p f) ps s) x = (if x \<in> set ps then f (hs_dirs s x) else hs_dirs s x)"
  "hs_split_pending (fold (\<lambda>p. upd_dir p f) ps s) = hs_split_pending s"
  "hs_merge_pending (fold (\<lambda>p. upd_dir p f) ps s) = hs_merge_pending s"
  by (induction ps arbitrary: s) auto

section \<open>Exports and imports are inverse\<close>

definition nested_op ::
  "(dirfrag_load_vec_t \<Rightarrow> dirfrag_load_vec_t \<Rightarrow> dirfrag_load_vec_t \<times> dirfrag_load_vec_t) \<Rightarrow> dirfrag_load_vec_t \<Rightarrow> hdir \<Rightarrow> hdir" where
  "nested_op op sl x = x\<lparr>hd_pop_nested := fst (op (hd_pop_nested x) sl),
     hd_pop_auth_subtree_nested := fst (op (hd_pop_auth_subtree_nested x) sl)\<rparr>"

lemma upd_dir_cong: "f (hs_dirs s d) = g (hs_dirs s d) \<Longrightarrow> upd_dir d f s = upd_dir d g s"
  by (simp add: upd_dir_def)

lemma nested_loop_eq:
  assumes dec: "\<And>v r. snd (op v r) = dec r" and idem: "\<And>v r. fst (op v (dec r)) = fst (op v r)"
  shows "nested_loop op e d s = fold (\<lambda>p. upd_dir p (nested_op op (hd_pop_auth_subtree (hs_dirs s d)))) (he_above e d) s"
proof -
  let ?step = "\<lambda>p (sl, s). (let (nested, sl1) = op (hd_pop_nested (hs_dirs s p)) sl;
             (auth_nested, sl2) = op (hd_pop_auth_subtree_nested (hs_dirs s p)) sl1
         in (sl2, upd_dir p (\<lambda>x. x\<lparr>hd_pop_nested := nested, hd_pop_auth_subtree_nested := auth_nested\<rparr>) s))"
  have "?step p (sl, s) = (dec (dec sl), upd_dir p (nested_op op sl) s)" for p sl s
    by (simp add: case_prod_beta dec idem nested_op_def upd_dir_def)
  moreover have "nested_op op (dec (dec sl)) = nested_op op sl" for sl
    by (simp add: nested_op_def [abs_def] idem)
  ultimately have "snd (fold ?step ps (sl, s)) = fold (\<lambda>p. upd_dir p (nested_op op sl)) ps s" for ps sl s
    by (induction ps arbitrary: sl s) simp_all
  then show ?thesis by (simp add: nested_loop_def Let_def)
qed

lemma lv_ops_decay:
  "snd (lv_sub now rate v r) = lv_map (dc_decay now rate) r" "snd (lv_add now rate v r) = lv_map (dc_decay now rate) r"
  "fst (lv_sub now rate v (lv_map (dc_decay now rate) r)) = fst (lv_sub now rate v r)"
  "fst (lv_add now rate v (lv_map (dc_decay now rate) r)) = fst (lv_add now rate v r)"
  by (simp_all add: lv_sub_def lv_add_def lv_map2_def lv_map_def dc_get_def dc_decay_idem Let_def)

lemma lv_add_sub: "fst (lv_add now rate (fst (lv_sub now rate v r)) r) = v"
  by (simp add: lv_add_def lv_sub_def lv_map2_def dc_adjust_def)

lemmas export_eq = subtract_export_def nested_loop_eq [of "lv_sub now rate" "lv_map (dc_decay now rate)" for now rate, OF lv_ops_decay(1,3)]
lemmas import_eq = add_import_def nested_loop_eq [of "lv_add now rate" "lv_map (dc_decay now rate)" for now rate, OF lv_ops_decay(2,4)]

lemma add_import_subtract_export:
  assumes "distinct (he_above e d)"
  shows "add_import e now d (subtract_export e now d s) = s"
proof -
  let ?s1 = "subtract_export e now d s"
  have s1: "hs_dirs ?s1 x = (if x \<in> set (he_above e d)
      then nested_op (lv_sub now (he_rate e)) (hd_pop_auth_subtree (hs_dirs s d)) (hs_dirs s x) else hs_dirs s x)" for x
    using fold_upd_dir(1) [OF assms] by (simp add: export_eq)
  have sub: "hd_pop_auth_subtree (hs_dirs ?s1 d) = hd_pop_auth_subtree (hs_dirs s d)" unfolding s1 by (simp add: nested_op_def)
  have "nested_op (lv_add now (he_rate e)) sl (nested_op (lv_sub now (he_rate e)) sl x) = x" for sl x
    by (simp add: nested_op_def lv_add_sub)
  then have "hs_dirs (add_import e now d ?s1) = hs_dirs s"
    unfolding import_eq sub using fold_upd_dir(1) [OF assms] s1 by auto
  moreover have "hs_split_pending (add_import e now d ?s1) = hs_split_pending s" "hs_merge_pending (add_import e now d ?s1) = hs_merge_pending s"
    by (simp_all add: import_eq export_eq fold_upd_dir)
  ultimately show ?thesis by simp
qed

section \<open>The counters a hit reaches\<close>

lemma dc_hit_reads: "fst (dc_get now rate (snd (dc_hit now rate a c))) = fst (dc_get now rate c) + a"
proof -
  have "dc_decay now rate (c'\<lparr>dc_delta := x\<rparr>) = c'\<lparr>dc_delta := x\<rparr>" if "c' = dc_decay now rate c" for c' x
    using that by (auto simp: dc_decay_def Let_def utime_sub_self utime_zero_def split: if_split_asm)
  then show ?thesis by (simp add: dc_get_def dc_hit_def Let_def)
qed

text \<open>The part of a path up to the first root of a subtree.\<close>

fun auth_part :: "hit_state \<Rightarrow> nat list \<Rightarrow> nat list" where
  "auth_part s [] = []"
| "auth_part s (d # ds) = d # (if hd_subtree_root (hs_dirs s d) then [] else auth_part s ds)"

lemma auth_part_subset: "set (auth_part s ds) \<subseteq> set ds"
  by (induction ds) auto

lemma auth_part_cong: "(\<And>x. x \<in> set ds \<Longrightarrow> hd_subtree_root (hs_dirs s' x) = hd_subtree_root (hs_dirs s x)) \<Longrightarrow> auth_part s' ds = auth_part s ds"
  by (induction ds) auto

lemma hit_up_eq:
  fixes e :: hit_env and amount rd_adj :: real and ty :: meta_pop and now :: utime_t
  assumes "distinct ds"
  defines "h \<equiv> hit_vec now (he_rate e) ty amount rd_adj"
  shows "hs_dirs (hit_up e now ty amount rd_adj sub nst ds s) x =
    (if x \<notin> set ds then hs_dirs s x
     else (hs_dirs s x)\<lparr>hd_pop_nested := h (hd_pop_nested (hs_dirs s x)),
       hd_pop_auth_subtree := (if sub \<and> x \<in> set (auth_part s ds) then h (hd_pop_auth_subtree (hs_dirs s x))
                               else hd_pop_auth_subtree (hs_dirs s x)),
       hd_pop_auth_subtree_nested := (if nst then h (hd_pop_auth_subtree_nested (hs_dirs s x))
                                      else hd_pop_auth_subtree_nested (hs_dirs s x))\<rparr>)"
  using assms(1)
proof (induction ds arbitrary: sub s)
  case (Cons d ds)
  define s3 where "s3 = upd_dir d (\<lambda>x. x\<lparr>hd_pop_nested := h (hd_pop_nested x),
     hd_pop_auth_subtree := (if sub then h (hd_pop_auth_subtree x) else hd_pop_auth_subtree x),
     hd_pop_auth_subtree_nested := (if nst then h (hd_pop_auth_subtree_nested x) else hd_pop_auth_subtree_nested x)\<rparr>) s"
  have "hit_up e now ty amount rd_adj sub nst (d # ds) s
      = hit_up e now ty amount rd_adj (sub \<and> \<not> hd_subtree_root (hs_dirs s d)) nst ds s3"
    by (simp add: s3_def upd_dir_def h_def Let_def)
  moreover have "auth_part s3 ds = auth_part s ds" by (rule auth_part_cong) (simp add: s3_def)
  ultimately show ?case
    using Cons.IH [of "sub \<and> \<not> hd_subtree_root (hs_dirs s d)" s3] Cons.prems auth_part_subset [of s ds]
    by (auto simp: s3_def)
qed simp

definition pop_read :: "utime_t \<Rightarrow> decay_rate \<Rightarrow> meta_pop \<Rightarrow> dirfrag_load_vec_t \<Rightarrow> real" where
  "pop_read now rate ty v = fst (dc_get now rate (lv_get ty v))"

lemma lv_get_upd: "lv_get k (lv_upd ty f v) = (if k = ty then f (lv_get k v) else lv_get k v)"
  by (cases k; cases ty) simp_all

lemma maybe_split_Some: "\<exists>s' acts. maybe_split e d hot s = Some (s', acts) \<and> hs_dirs s' = hs_dirs s"
  by (simp add: maybe_split_def queue_split_def Let_def)

lemma maybe_merge_dirs: "maybe_merge e d s = (s', acts) \<Longrightarrow> hs_dirs s' = hs_dirs s"
  by (auto simp: maybe_merge_def queue_merge_def Let_def split: if_split_asm)

lemma maybe_fragment_Some:
  "\<exists>s' acts. maybe_fragment e d hot s = Some (s', acts) \<and> hs_dirs s' = hs_dirs s"
proof -
  obtain s1 a1 where s1: "maybe_split e d hot s = Some (s1, a1)" "hs_dirs s1 = hs_dirs s" using maybe_split_Some by blast
  obtain s2 a2 where s2: "maybe_merge e d s1 = (s2, a2)" by fastforce
  then show ?thesis using s1 maybe_merge_dirs [OF s2] by (simp add: maybe_fragment_def Let_def)
qed

lemma pop_read_hit: "pop_read now rate ty (hit_vec now rate ty amount 0 v) = pop_read now rate ty v + amount"
  by (simp add: pop_read_def hit_vec_def lv_get_upd dc_hit_reads Let_def)

section \<open>Callbacks in flight\<close>

definition callbacks :: "hit_action list \<Rightarrow> frag_callback multiset" where
  "callbacks acts = mset (concat (map (\<lambda>a. case a of Queue_waiter c \<Rightarrow> [c] | Add_timer c \<Rightarrow> [c] | _ \<Rightarrow> []) acts))"

text \<open>
  The state of the balancer and the callbacks in flight, in timers or in the queue of waiters. Every step may see another cache; other
  parts of the server change the directories in between.
\<close>

type_synonym frag_sys = "hit_state \<times> frag_callback multiset"

inductive frag_step :: "frag_sys \<Rightarrow> frag_sys \<Rightarrow> bool" where
  fs_fragment: "maybe_fragment e d hot s = Some (s', acts) \<Longrightarrow> frag_step (s, fl) (s', fl + callbacks acts)"
| fs_queue_split: "queue_split e d fast s = Some (s', acts) \<Longrightarrow> frag_step (s, fl) (s', fl + callbacks acts)"
| fs_queue_merge: "queue_merge d s = (s', acts) \<Longrightarrow> frag_step (s, fl) (s', fl + callbacks acts)"
| fs_split: "split_callback e fr s = (s', acts) \<Longrightarrow> frag_step (s, add_mset (Split_callback fr) fl) (s', fl)"
| fs_merge: "merge_callback e fr s = Some (s', acts) \<Longrightarrow> frag_step (s, add_mset (Merge_callback fr) fl) (s', fl)"
| fs_other: "frag_step (s, fl) (s\<lparr>hs_dirs := dirs\<rparr>, fl)"

definition frag_inv :: "frag_sys \<Rightarrow> bool" where
  "frag_inv = (\<lambda>(s, fl). (\<forall>fr\<in>hs_split_pending s. Split_callback fr \<in># fl)
     \<and> (\<forall>fr. count fl (Merge_callback fr) = of_bool (fr \<in> hs_merge_pending s)))"

lemma frag_inv_split:
  "queue_split e d fast s = Some (s', acts) \<Longrightarrow> frag_inv (s, fl) \<Longrightarrow> frag_inv (s', fl + callbacks acts)"
  by (auto simp: queue_split_def frag_inv_def callbacks_def Let_def split: if_split_asm)

lemma frag_inv_merge:
  "queue_merge d s = (s', acts) \<Longrightarrow> frag_inv (s, fl) \<Longrightarrow> frag_inv (s', fl + callbacks acts)"
  by (auto simp: queue_merge_def frag_inv_def callbacks_def Let_def split: if_split_asm)

lemma frag_inv_fragment:
  assumes "maybe_fragment e d hot s = Some (s', acts)" "frag_inv (s, fl)"
  shows "frag_inv (s', fl + callbacks acts)"
proof -
  have sp: "frag_inv (s1, fl + callbacks a1)" if "maybe_split e d hot s = Some (s1, a1)" for s1 a1
    using that assms(2) frag_inv_split by (auto simp: maybe_split_def Let_def callbacks_def split: if_split_asm)
  have "frag_inv (s2, fl' + callbacks a2)" if "maybe_merge e d s1 = (s2, a2)" "frag_inv (s1, fl')" for s1 s2 a2 fl'
    using that frag_inv_merge by (auto simp: maybe_merge_def Let_def callbacks_def split: if_split_asm)
  note mg = this
  obtain s1 a1 where s1: "maybe_split e d hot s = Some (s1, a1)" using maybe_split_Some by blast
  obtain s2 a2 where s2: "maybe_merge e d s1 = (s2, a2)" by fastforce
  have "(s', acts) = (s2, a1 @ a2) \<or> (s', acts) = (s, [])"
    using assms(1) s1 s2 by (auto simp: maybe_fragment_def Let_def split: if_split_asm)
  then show ?thesis
    using mg [OF s2 sp [OF s1]] assms(2) by (auto simp: callbacks_def ac_simps)
qed

lemma frag_inv_step: "frag_step x y \<Longrightarrow> frag_inv x \<Longrightarrow> frag_inv y"
proof (induction rule: frag_step.induct)
  case (fs_split e fr s s' acts fl)
  then show ?case by (auto simp: frag_inv_def split_callback_def Let_def split: if_split_asm option.split_asm)
next
  case (fs_merge e fr s s' acts fl)
  have s': "hs_merge_pending s' = hs_merge_pending s - {fr}" "hs_split_pending s' = hs_split_pending s"
    using fs_merge.hyps by (auto simp: merge_callback_def Let_def split: bind_splits option.split_asm if_split_asm)
  have c: "count (add_mset (Merge_callback fr) fl) (Merge_callback g) = of_bool (g \<in> hs_merge_pending s)" for g
    using fs_merge.prems unfolding frag_inv_def case_prod_conv by blast
  have "count fl (Merge_callback g) = of_bool (g \<in> hs_merge_pending s')" for g
    using c [of g] unfolding s'(1) by (cases "g = fr"; cases "g \<in> hs_merge_pending s") auto
  then show ?case using fs_merge.prems s'(2) by (auto simp: frag_inv_def)
next
  case (fs_other s fl dirs)
  then show ?case by (simp add: frag_inv_def)
qed (auto intro: frag_inv_fragment frag_inv_split frag_inv_merge)

definition frag_start :: "frag_sys \<Rightarrow> bool" where
  "frag_start = (\<lambda>(s, fl). hs_split_pending s = {} \<and> hs_merge_pending s = {} \<and> fl = {#})"

interpretation fq: transition_system frag_start frag_step frag_inv
proof unfold_locales
  show "frag_start s \<Longrightarrow> frag_inv s" for s by (auto simp: frag_start_def frag_inv_def)
qed (rule frag_inv_step)

section \<open>What a merge takes\<close>

lemma contains_sibling:
  assumes "frag_ok f" "0 < fbits f" "frag_ok l" "ceph_frag_contains_frag (ceph_frag_parent f) l" "l \<noteq> ceph_frag_parent f"
  shows "ceph_frag_contains_frag f l \<or> ceph_frag_contains_frag (ceph_frag_sibling f) l"
proof -
  note p = parent_bits [OF assms(1,2)] and s = sibling_bits [OF assms(1,2)]
  have "fbits (ceph_frag_parent f) \<noteq> fbits l" using contains_frag_eq [OF p(2) assms(3,4)] assms(5) by auto
  then have "fbits f \<le> fbits l" using contains_frag_iff [OF p(2) assms(3)] assms(2,4) p(1) by auto
  then show ?thesis
    using parent_contains [OF assms(1,2)] contains_frag_iff [OF p(2) assms(3)] assms(4) contains_frag_iff [OF assms(1,3)]
      contains_frag_iff [OF s(2) assms(3)] s(1) by auto
qed

definition mergeable :: "hit_env \<Rightarrow> hit_state \<Rightarrow> nat inode_frags \<Rightarrow> frag \<Rightarrow> bool" where
  "mergeable e s i l \<longleftrightarrow> (\<exists>d. get_dirfrag i l = Some d \<and> hd_auth (hs_dirs s d) \<and> should_merge (he_conf e) (hs_dirs s d))"

lemma merge_climb_Some:
  assumes "frags_ok i" "frag_ok fg" "f0 \<in> set (ft_leaves (dirfragtree i) frag_root)" "ceph_frag_contains_frag fg f0"
    "\<forall>l\<in>set (ft_leaves (dirfragtree i) frag_root). ceph_frag_contains_frag fg l \<longrightarrow> l \<noteq> f0 \<longrightarrow> mergeable e s i l"
  shows "\<exists>r. merge_climb e s i fg = Some r \<and> frag_ok r \<and> ceph_frag_contains_frag r f0
    \<and> (\<forall>l\<in>set (ft_leaves (dirfragtree i) frag_root). ceph_frag_contains_frag r l \<longrightarrow> l \<noteq> f0 \<longrightarrow> mergeable e s i l)"
  using assms(2,4,5)
proof (induction "fbits fg" arbitrary: fg rule: less_induct)
  case less
  let ?leaves = "set (ft_leaves (dirfragtree i) frag_root)"
  have t: "ft_ok (dirfragtree i)" using assms(1) ft_wfD by (auto simp: frags_ok_def)
  show ?case
  proof (cases "fg = frag_root")
    case True
    then have "merge_climb e s i fg = Some fg" by (simp add: merge_climb.simps [of e s i frag_root])
    then show ?thesis using less.prems by blast
  next
    case False
    then have pos: "0 < fbits fg" using frag_zero [OF less.prems(1)] by blast
    note p = parent_bits [OF less.prems(1) pos] and sb = sibling_bits [OF less.prems(1) pos]
    obtain ls where u: "get_dirfrags_under i (ceph_frag_sibling fg)
        = Some (\<forall>l\<in>?leaves. ceph_frag_contains_frag (ceph_frag_sibling fg) l \<longrightarrow> get_dirfrag i l \<noteq> None, ls)"
      "\<forall>l d. l \<in> ?leaves \<longrightarrow> ceph_frag_contains_frag (ceph_frag_sibling fg) l \<longrightarrow> get_dirfrag i l = Some d \<longrightarrow> d \<in> set ls"
      using get_dirfrags_under_Some [OF assms(1) sb(2)] by blast
    let ?c = "\<forall>l\<in>?leaves. ceph_frag_contains_frag (ceph_frag_sibling fg) l \<longrightarrow> get_dirfrag i l \<noteq> None"
    let ?m = "list_all (\<lambda>sib. hd_auth (hs_dirs s sib) \<and> should_merge (he_conf e) (hs_dirs s sib)) ls"
    have step: "merge_climb e s i fg = (if ?c \<and> ?m then merge_climb e s i (ceph_frag_parent fg) else Some fg)"
      using False pos u(1) by (auto simp: merge_climb.simps [of e s i fg] frag_get_sibling_def frag_parent_def word_less_nat_alt unat_eq_0)
    have pf0: "ceph_frag_contains_frag (ceph_frag_parent fg) f0"
      using contains_frag_trans [OF p(2) less.prems(1) _ contains_frag_parent [OF less.prems(1) pos] less.prems(2)]
        ft_leaves_within [OF t frag_root_ok(1) assms(3)] by blast
    show ?thesis
    proof (cases "?c \<and> ?m")
      case True
      have "mergeable e s i l" if l: "l \<in> ?leaves" "ceph_frag_contains_frag (ceph_frag_parent fg) l" "l \<noteq> f0" for l
      proof -
        have ok: "frag_ok l" using ft_leaves_within [OF t frag_root_ok(1) l(1)] by blast
        have n: "ft_node (dirfragtree i) l" "get_split (dirfragtree i) l = 0" "ft_node (dirfragtree i) f0"
          using l(1) assms(3) ft_leaves_nodes(1) [OF t] by blast+
        have "l \<noteq> ceph_frag_parent fg" using ft_node_contains [OF t n(1,3)] n(2) pf0 l(3) by blast
        then consider "ceph_frag_contains_frag fg l" | "ceph_frag_contains_frag (ceph_frag_sibling fg) l"
          using contains_sibling [OF less.prems(1) pos ok l(2)] by blast
        then show ?thesis
        proof cases
          case 2
          then obtain d where "get_dirfrag i l = Some d" using True l(1) by blast
          then show ?thesis using u(2) l(1) 2 True by (auto simp: mergeable_def list_all_iff)
        qed (use less.prems(3) l in blast)
      qed
      then show ?thesis using less.hyps [of "ceph_frag_parent fg"] p pf0 pos step True by auto
    qed (use step less.prems in auto)
  qed
qed

section \<open>Shares of the potential load\<close>

lemma sum_list_map_real: "real (sum_list (map f xs)) = (\<Sum>x\<leftarrow>xs. real (f x))"
  by (induction xs) simp_all

lemma pot_share_sum:
  fixes f :: "nat \<Rightarrow> nat"
  defines "n \<equiv> \<lambda>ps. sum_list (map (\<lambda>p. 1 + f p) ps)"
  shows "(\<Sum>p\<leftarrow>ps. pot_share adj (f p) bc dc)
    = 5 / 10 * (adj * real (n ps) / real bc) + 5 / 10 * (adj * real (length ps) / real dc)"
  unfolding n_def by (induction ps) (simp_all add: pot_share_def algebra_simps add_divide_distrib)

lemma pot_share_total:
  assumes "0 \<le> adj"
  shows "(\<Sum>p\<leftarrow>ps. pot_share adj (hd_num_any (hs_dirs s p)) (brothers_count s ps) (bro_dir_count ps)) \<le> adj"
proof -
  have h: "5 / 10 * (adj * real k / real (1 + k)) \<le> adj / 2" for k
    using assms by (simp add: divide_le_eq algebra_simps)
  show ?thesis
    unfolding pot_share_sum brothers_count_def bro_dir_count_def
    using add_mono [OF h [of "sum_list (map (\<lambda>p. 1 + hd_num_any (hs_dirs s p)) ps)"] h [of "length ps"]] unfolding field_sum_of_halves .
qed

section \<open>Properties\<close>

text \<open>A directory 7 below the directories 1 and 0, of which 1 is the root of a subtree.\<close>

definition sample_hdir :: "nat \<Rightarrow> hdir" where
  "sample_hdir d =
     (let v = dirfrag_load_vec utime_zero in
      \<lparr>hd_ino = 5, hd_frag = (if d = 7 then ceph_frag_make 2 0 else frag_root), hd_auth = True, hd_ambiguous = False,
       hd_subtree_root = (d = 1), hd_base = (d = 0), hd_stray = False, hd_frag_size = 3, hd_num_head_null = 0,
       hd_num_any = 3, hd_items = [(None, False)], hd_subtree_size = 3, hd_rep = False, hd_last_popularity_sample = utime_zero,
       hd_pop_me = v, hd_pop_nested = v, hd_pop_auth_subtree = v, hd_pop_auth_subtree_nested = v,
       hd_pop_spread = load_spread utime_zero, hd_pot_all = dirfrag_pot_load, hd_pot_auth = dirfrag_pot_load,
       hd_pot_cached = dirfrag_pot_load\<rparr>)"

definition sample_hit_state :: hit_state where
  "sample_hit_state = \<lparr>hs_dirs = sample_hdir, hs_split_pending = {}, hs_merge_pending = {}\<rparr>"

definition sample_frags :: "nat inode_frags" where
  "sample_frags = \<lparr>dl_dir_hash = 2, dirfragtree = sample_tree, dirfrags = [(ceph_frag_make 2 0, 7)]\<rparr>"

definition sample_hit_env :: hit_env where
  "sample_hit_env =
     \<lparr>he_conf = \<lparr>hc_mds_bal_frag = True, mds_bal_fragment_interval = 5, mds_bal_split_size = 10000, mds_bal_merge_size = 50,
        mds_bal_split_bits = 3, mds_bal_fragment_fast_factor = 3 / 2, mds_bal_split_rd = 25000, mds_bal_split_wr = 10000,
        mds_bal_replicate_threshold = 8000, mds_bal_unreplicate_threshold = 0\<rparr>,
      he_inode = (\<lambda>i. if i = 5 then Some sample_frags else None), he_above = (\<lambda>d. if d = 7 then [1, 0] else []),
      he_rate = decay_rate_default, he_beat_epoch = 1, he_last_sample = utime_zero, he_num_in_mds = 2,
      he_allows_dirfrags = True\<rparr>"

lemma sample_frags_ok: "frags_ok sample_frags"
  using sample_tree_wf by (simp add: frags_ok_def sample_frags_def omap_ok_def)

text \<open>
  C22: \<^verbatim>\<open>add_import\<close> undoes \<^verbatim>\<open>subtract_export\<close>: when an exported directory comes back at the same time, every counter of every ancestor,
  and everything else, is as before.
\<close>

theorem import_undoes_export:
  assumes "distinct (he_above e d)"
  shows "add_import e now d (subtract_export e now d s) = s"
  using assms by (rule add_import_subtract_export)

theorem import_undoes_export_witness:
  "add_import sample_hit_env utime_zero 7 (subtract_export sample_hit_env utime_zero 7 sample_hit_state) = sample_hit_state"
  by (rule import_undoes_export) (simp add: sample_hit_env_def)

text \<open>
  C19: a hit that is no read (so that no replication is considered) and no first hit completes and raises the right counters by its amount, read at the time of the hit:
  \<^verbatim>\<open>pop_nested\<close> of the directory and all its ancestors, and if the directory is authoritative also \<^verbatim>\<open>pop_auth_subtree_nested\<close> of all
  of them and \<^verbatim>\<open>pop_auth_subtree\<close> up to the first root of a subtree; no other directory changes.
\<close>

theorem hit_dir_counts:
  assumes "ty \<noteq> META_POP_IRD" "newold < 1" "distinct (d # he_above e d)"
  shows "\<exists>s' acts. hit_dir e now d ty who amount newold s = Some (s', acts)
    \<and> (\<forall>x. pop_read now (he_rate e) ty (hd_pop_nested (hs_dirs s' x)) = pop_read now (he_rate e) ty (hd_pop_nested (hs_dirs s x))
             + (if x \<in> set (d # he_above e d) then amount else 0)
         \<and> pop_read now (he_rate e) ty (hd_pop_auth_subtree (hs_dirs s' x)) = pop_read now (he_rate e) ty (hd_pop_auth_subtree (hs_dirs s x))
             + (if hd_auth (hs_dirs s d) \<and> x \<in> set (auth_part s (d # he_above e d)) then amount else 0)
         \<and> pop_read now (he_rate e) ty (hd_pop_auth_subtree_nested (hs_dirs s' x)) = pop_read now (he_rate e) ty (hd_pop_auth_subtree_nested (hs_dirs s x))
             + (if hd_auth (hs_dirs s d) \<and> x \<in> set (d # he_above e d) then amount else 0)
         \<and> (x \<notin> set (d # he_above e d) \<longrightarrow> hs_dirs s' x = hs_dirs s x))"
proof -
  let ?path = "d # he_above e d"
  obtain v c where c: "dc_hit now (he_rate e) amount (lv_get ty (hd_pop_me (hs_dirs s d))) = (v, c)" by fastforce
  define s1 where "s1 = upd_dir d (\<lambda>x. x\<lparr>hd_pop_me := lv_upd ty (\<lambda>_. c) (hd_pop_me x)\<rparr>) s"
  let ?hot = "v > mds_bal_split_rd (he_conf e) \<and> ty = META_POP_IRD \<or> v > mds_bal_split_wr (he_conf e) \<and> ty = META_POP_IWR"
  obtain s2 a2 where s2: "maybe_fragment e d ?hot s1 = Some (s2, a2)" "hs_dirs s2 = hs_dirs s1" using maybe_fragment_Some by blast
  let ?auth = "hd_auth (hs_dirs s d)"
  have auth: "hd_auth (hs_dirs s2 d) = ?auth" "auth_part s2 ?path = auth_part s ?path"
    using auth_part_cong [of ?path s2 s] by (simp_all add: s2(2) s1_def)
  have "hit_dir e now d ty who amount newold s = Some (hit_up e now ty amount 0 ?auth ?auth ?path s2, a2)"
    using c s2(1) assms(1,2) auth(1) by (simp add: hit_dir_def s1_def Let_def del: hit_up.simps)
  moreover have "hs_dirs (hit_up e now ty amount 0 ?auth ?auth ?path s2) x = hs_dirs s x" if "x \<notin> set ?path" for x
    using hit_up_eq [OF assms(3), of e now ty amount 0 ?auth ?auth s2 x] that by (simp add: s2(2) s1_def del: hit_up.simps)
  moreover note u = hit_up_eq [OF assms(3), of e now ty amount 0 ?auth ?auth s2, unfolded auth(2)]
  have "hd_pop_nested (hs_dirs s2 x) = hd_pop_nested (hs_dirs s x)" "hd_pop_auth_subtree (hs_dirs s2 x) = hd_pop_auth_subtree (hs_dirs s x)"
    "hd_pop_auth_subtree_nested (hs_dirs s2 x) = hd_pop_auth_subtree_nested (hs_dirs s x)" for x
    by (simp_all add: s2(2) s1_def)
  ultimately show ?thesis
    using auth_part_subset [of s ?path] by (simp add: u pop_read_hit del: hit_up.simps set_simps auth_part.simps) blast
qed

theorem hit_dir_counts_witness:
  "\<exists>s' acts. hit_dir sample_hit_env utime_zero 7 META_POP_IWR 0 1 0 sample_hit_state = Some (s', acts)
     \<and> pop_read utime_zero (he_rate sample_hit_env) META_POP_IWR (hd_pop_nested (hs_dirs s' 0))
       = pop_read utime_zero (he_rate sample_hit_env) META_POP_IWR (hd_pop_nested (hs_dirs sample_hit_state 0)) + 1"
proof -
  have a: "he_above sample_hit_env 7 = [1, 0]" by (simp add: sample_hit_env_def)
  show ?thesis
    using hit_dir_counts [of META_POP_IWR 0 7 sample_hit_env utime_zero 0 1 sample_hit_state, unfolded a] by (auto 0 3)
qed

text \<open>
  C20: the queues of fragments to split and to merge. Whatever order hits, requests and callbacks come in and however the cache changes in between,
  for every fragment that waits to be split a callback is in flight, so it is not forgotten, and
  for a fragment that waits to be merged there is exactly one callback, and none for any other fragment.
\<close>

theorem fragment_callbacks_in_flight:
  assumes "frag_start x" "frag_step\<^sup>*\<^sup>* x (s, fl)"
  shows "(\<forall>fr\<in>hs_split_pending s. Split_callback fr \<in># fl) \<and> (\<forall>fr. count fl (Merge_callback fr) = of_bool (fr \<in> hs_merge_pending s))"
  using fq.reach_inv [OF assms] by (simp add: frag_inv_def)

text \<open>Fragment 7 is queued to be split, and twice to be merged: one callback of each kind is in flight.\<close>

theorem fragment_callbacks_in_flight_witness:
  "\<exists>s1 a1 s2 a2 s3 a3. queue_split sample_hit_env 7 False sample_hit_state = Some (s1, a1)
     \<and> queue_merge 7 s1 = (s2, a2) \<and> queue_merge 7 s2 = (s3, a3)
     \<and> (5, ceph_frag_make 2 0) \<in> hs_split_pending s3 \<and> (5, ceph_frag_make 2 0) \<in> hs_merge_pending s3
     \<and> Split_callback (5, ceph_frag_make 2 0) \<in># callbacks a1 + callbacks a2 + callbacks a3
     \<and> count (callbacks a1 + callbacks a2 + callbacks a3) (Merge_callback (5, ceph_frag_make 2 0)) = 1"
proof -
  let ?fr = "(5, ceph_frag_make 2 0) :: dirfrag"
  obtain s1 a1 where q1: "queue_split sample_hit_env 7 False sample_hit_state = Some (s1, a1)"
    by (auto simp: queue_split_def sample_hit_env_def Let_def)
  obtain s2 a2 where q2: "queue_merge 7 s1 = (s2, a2)" by fastforce
  obtain s3 a3 where q3: "queue_merge 7 s2 = (s3, a3)" by fastforce
  have p: "?fr \<in> hs_split_pending s3" "?fr \<in> hs_merge_pending s3"
    using q1 q2 q3 by (auto simp: queue_split_def queue_merge_def sample_hit_env_def sample_hit_state_def sample_hdir_def dirfrag_of_def Let_def split: if_splits)
  have start: "frag_start (sample_hit_state, {#})" by (simp add: frag_start_def sample_hit_state_def)
  have "frag_step (sample_hit_state, {#}) (s1, {#} + callbacks a1)" "frag_step (s1, {#} + callbacks a1) (s2, {#} + callbacks a1 + callbacks a2)"
    "frag_step (s2, {#} + callbacks a1 + callbacks a2) (s3, {#} + callbacks a1 + callbacks a2 + callbacks a3)"
    using fs_queue_split [OF q1] fs_queue_merge [OF q2] fs_queue_merge [OF q3] by blast+
  then have "frag_step\<^sup>*\<^sup>* (sample_hit_state, {#}) (s3, {#} + callbacks a1 + callbacks a2 + callbacks a3)" by (meson converse_rtranclp_into_rtranclp rtranclp.rtrancl_refl)
  from fragment_callbacks_in_flight [OF start this] p
  have "Split_callback ?fr \<in># callbacks a1 + callbacks a2 + callbacks a3" "count (callbacks a1 + callbacks a2 + callbacks a3) (Merge_callback ?fr) = 1"
    by simp_all
  then show ?thesis using q1 q2 q3 p by blast
qed

text \<open>
  C21: the merge callback completes when the fragment is a leaf of a sound tree, and whatever it asks to merge is fit for it: the fragment itself is
  authoritative, and every other leaf below the merged fragment is in the cache, authoritative and small enough to be merged.
\<close>

theorem merge_callback_safe:
  assumes "he_inode e ino = Some i" "frags_ok i" "get_leaves (dirfragtree i) = Some leaves" "f \<in> set leaves" "f \<noteq> frag_root"
    and "get_dirfrag i f = Some d" "dirfrag_of (hs_dirs s d) = (ino, f)"
  shows "\<exists>s' acts. merge_callback e (ino, f) s = Some (s', acts)
    \<and> (\<forall>ino' fg. Merge_dir ino' fg \<in> set acts \<longrightarrow> ino' = ino \<and> hd_auth (hs_dirs s d) \<and> ceph_frag_contains_frag fg f
         \<and> (\<forall>l\<in>set leaves. ceph_frag_contains_frag fg l \<longrightarrow> l \<noteq> f \<longrightarrow>
              (\<exists>d. get_dirfrag i l = Some d \<and> hd_auth (hs_dirs s d) \<and> should_merge (he_conf e) (hs_dirs s d))))"
proof -
  have t: "ft_ok (dirfragtree i)" using assms(2) ft_wfD by (auto simp: frags_ok_def)
  have lv: "leaves = ft_leaves (dirfragtree i) frag_root" using assms(3) get_leaves_eq [OF t] by (simp add: get_leaves_def)
  have f: "f \<in> set (ft_leaves (dirfragtree i) frag_root)" "frag_ok f"
    using assms(4) lv ft_leaves_within [OF t frag_root_ok(1)] by blast+
  define s1 where "s1 = s\<lparr>hs_merge_pending := hs_merge_pending s - {(ino, f)}\<rparr>"
  have d: "hd_ino (hs_dirs s d) = ino" "hd_frag (hs_dirs s d) = f" using assms(7) by (simp_all add: dirfrag_of_def)
  have "l = f" if "l \<in> set (ft_leaves (dirfragtree i) frag_root)" "ceph_frag_contains_frag f l" for l
    using ft_node_contains [OF t _ _ that(2)] that(1) f(1) by (auto simp: ft_leaves_nodes(1) [OF t])
  then obtain r where r: "merge_climb e s1 i f = Some r" "ceph_frag_contains_frag r f"
    "\<forall>l\<in>set leaves. ceph_frag_contains_frag r l \<longrightarrow> l \<noteq> f \<longrightarrow> mergeable e s1 i l"
    unfolding lv using merge_climb_Some [OF assms(2) f(2,1) contains_frag_refl [OF f(2)], of e s1] by blast
  have "merge_callback e (ino, f) s
      = Some (s1, if hd_auth (hs_dirs s d) \<and> r \<noteq> f then [Merge_dir ino r] else [])"
    using assms(1,5-7) r(1) d by (simp add: merge_callback_def cache_get_dirfrag_def dirfrag_of_def s1_def Let_def)
  then show ?thesis using r(2,3) by (auto simp: mergeable_def s1_def)
qed

theorem merge_callback_safe_witness:
  "\<exists>s' acts. merge_callback sample_hit_env (5, ceph_frag_make 2 0) sample_hit_state = Some (s', acts)
     \<and> (\<forall>ino fg. Merge_dir ino fg \<in> set acts \<longrightarrow> ino = 5)"
proof -
  have l: "get_leaves (dirfragtree sample_frags) = Some (ft_leaves sample_tree frag_root)"
    using get_leaves_eq [OF sample_tree_wf(2)] by (simp add: get_leaves_def sample_frags_def)
  have c: "ceph_frag_make 2 0 = ceph_frag_make_child frag_root 2 0"
    by (simp add: ceph_frag_make_child_def frag_root_def ceph_frag_bits_def ceph_frag_value_def)
  have g: "get_split sample_tree frag_root = 2" "get_split sample_tree (ceph_frag_make 2 0) = 0"
    by (simp_all add: get_split_def sample_tree_def frag_root_def ceph_frag_make_def)
  have "ceph_frag_make 2 0 \<in> set (ft_leaves sample_tree (ceph_frag_make 2 0))"
    by (simp add: ft_leaves.simps [of sample_tree "ceph_frag_make 2 0"] g)
  then have f: "ceph_frag_make 2 0 \<in> set (ft_leaves sample_tree frag_root)"
    unfolding c by (simp add: ft_leaves.simps [of sample_tree frag_root] g) force
  have n: "ceph_frag_make 2 0 \<noteq> frag_root" "get_dirfrag sample_frags (ceph_frag_make 2 0) = Some 7"
    by (simp_all add: frag_root_def ceph_frag_make_def get_dirfrag_def sample_frags_def)
  show ?thesis
    using merge_callback_safe [of sample_hit_env 5 sample_frags _ "ceph_frag_make 2 0" 7 sample_hit_state, OF _ sample_frags_ok l]
      f n by (simp add: sample_hit_env_def sample_hit_state_def sample_hdir_def dirfrag_of_def Let_def) blast
qed

text \<open>
  The shares of the fragments of a directory in a potential load are not negative and add up to at most the load.
\<close>

lemma pot_shares_bounded:
  assumes "0 \<le> adj"
  shows "(\<forall>p\<in>set ps. 0 \<le> pot_share adj (hd_num_any (hs_dirs s p)) (brothers_count s ps) (bro_dir_count ps))
    \<and> (\<Sum>p\<leftarrow>ps. pot_share adj (hd_num_any (hs_dirs s p)) (brothers_count s ps) (bro_dir_count ps)) \<le> adj"
  using assms pot_share_total [OF assms] by (simp add: pot_share_def)

end
