(* ===== verification/Interval_Set.thy ===== *)
theory Interval_Set
  imports Ceph_Prelude
begin

text \<open>
  \<^verbatim>\<open>interval_set<T>\<close> of \<^verbatim>\<open>src/include/interval_set.h\<close>: a set of numbers kept as a map from the
  start of each interval to its length, with the number of elements cached in \<^verbatim>\<open>_size\<close>. The
  elements are natural numbers, so the end of an interval never wraps around; every user in the
  metadata server keeps its numbers below \<open>2 ^ 63\<close>. The map is the list of its entries in key
  order, an iterator is a split of this list into the entries before it and those from it on.

  An operation that can fail an assertion returns an option. The theory shows that each operation
  succeeds exactly when it should, keeps the representation invariant and computes the set
  operation it stands for.
\<close>

section \<open>Representation\<close>

type_synonym imap = "(nat \<times> nat) list"

record interval_set =
  is_m :: imap
  is_size :: int

definition iset_empty :: interval_set where
  "iset_empty = \<lparr>is_m = [], is_size = 0\<rparr>"

definition iset_of_map :: "imap \<Rightarrow> interval_set" where
  "iset_of_map other = \<lparr>is_m = other, is_size = sum_list (map (int \<circ> snd) other)\<rparr>"

definition lower_bound :: "nat \<Rightarrow> imap \<Rightarrow> imap \<times> imap" where
  "lower_bound start m = (takeWhile (\<lambda>p. fst p < start) m, dropWhile (\<lambda>p. fst p < start) m)"

definition find_inc :: "nat \<Rightarrow> imap \<Rightarrow> imap \<times> imap" where
  "find_inc start m =
     (let (pre, post) = lower_bound start m in
      if pre \<noteq> [] \<and> (post = [] \<or> fst (hd post) > start) then
        (let p = last pre in
         if fst p + snd p \<le> start then (pre, post) else (butlast pre, p # post))
      else (pre, post))"

definition find_adj :: "nat \<Rightarrow> imap \<Rightarrow> imap \<times> imap" where
  "find_adj start m =
     (let (pre, post) = lower_bound start m in
      if pre \<noteq> [] \<and> (post = [] \<or> fst (hd post) > start) then
        (let p = last pre in
         if fst p + snd p < start then (pre, post) else (butlast pre, p # post))
      else (pre, post))"

definition num_intervals :: "interval_set \<Rightarrow> int" where
  "num_intervals s = int (length (is_m s))"

section \<open>Queries\<close>

definition iset_eq :: "interval_set \<Rightarrow> interval_set \<Rightarrow> bool" where
  "iset_eq a b \<longleftrightarrow> is_size a = is_size b \<and> is_m a = is_m b"

definition iset_is_empty :: "interval_set \<Rightarrow> bool" where
  "iset_is_empty s \<longleftrightarrow> is_m s = []"

text \<open>\<^verbatim>\<open>contains(i, pstart, plen)\<close>: the interval that holds \<open>i\<close>, if there is one.\<close>

definition iset_contains_at :: "nat \<Rightarrow> interval_set \<Rightarrow> (nat \<times> nat) option" where
  "iset_contains_at i s =
     (case snd (find_inc i (is_m s)) of
        [] \<Rightarrow> None
      | (ps, pl) # _ \<Rightarrow>
          (if ps > i then None else if ps + pl \<le> i then None else Some (ps, pl)))"

definition iset_contains :: "nat \<Rightarrow> interval_set \<Rightarrow> bool" where
  "iset_contains i s \<longleftrightarrow> iset_contains_at i s \<noteq> None"

definition iset_contains_range :: "nat \<Rightarrow> nat \<Rightarrow> interval_set \<Rightarrow> bool" where
  "iset_contains_range start len s =
     (case snd (find_inc start (is_m s)) of
        [] \<Rightarrow> False
      | (ps, pl) # _ \<Rightarrow>
          (if ps > start then False else if ps + pl \<le> start then False
           else \<not> ps + pl < start + len))"

definition range_start :: "interval_set \<Rightarrow> nat option" where
  "range_start s = (case is_m s of [] \<Rightarrow> None | p # _ \<Rightarrow> Some (fst p))"

definition range_end :: "interval_set \<Rightarrow> nat option" where
  "range_end s =
     (if is_m s = [] then None else (let p = last (is_m s) in Some (fst p + snd p)))"

definition starts_after :: "nat \<Rightarrow> interval_set \<Rightarrow> bool option" where
  "starts_after i s =
     (if iset_contains i s then None else Some (snd (find_inc i (is_m s)) \<noteq> []))"

text \<open>\<^verbatim>\<open>start_after\<close> reads \<^verbatim>\<open>p->first\<close> without a test for the end: there it is undefined.\<close>

definition start_after :: "nat \<Rightarrow> interval_set \<Rightarrow> nat option" where
  "start_after i s =
     (if iset_contains i s then None
      else (case snd (find_inc i (is_m s)) of [] \<Rightarrow> None | p # _ \<Rightarrow> Some (fst p)))"

definition end_after :: "nat \<Rightarrow> interval_set \<Rightarrow> nat option" where
  "end_after start s =
     (if \<not> iset_contains start s then None
      else (case snd (find_inc start (is_m s)) of
              [] \<Rightarrow> None | p # _ \<Rightarrow> Some (fst p + snd p)))"

section \<open>Updates\<close>

text \<open>
  \<^verbatim>\<open>insert(start, len, pstart, plen)\<close>; the result also holds the interval that now contains the
  range, which the code stores through the two pointers.
\<close>

definition iset_insert_at :: "nat \<Rightarrow> nat \<Rightarrow> interval_set \<Rightarrow> (interval_set \<times> nat \<times> nat) option" where
  "iset_insert_at start len s =
     (if \<not> len > 0 then None
      else
        (let s1 = s\<lparr>is_size := is_size s + int len\<rparr>; m = is_m s in
         case find_adj start m of
           (pre, []) \<Rightarrow> Some (s1\<lparr>is_m := omap_set start len m\<rparr>, start, len)
         | (pre, (ps, pl) # post) \<Rightarrow>
             (if ps < start then
                (if ps + pl \<noteq> start then None
                 else
                   (case post of
                      [] \<Rightarrow> Some (s1\<lparr>is_m := pre @ [(ps, pl + len)]\<rparr>, ps, pl + len)
                    | (ns, nl) # post' \<Rightarrow>
                        (if start + len = ns
                         then Some (s1\<lparr>is_m := pre @ (ps, pl + len + nl) # post'\<rparr>, ps, pl + len + nl)
                         else Some (s1\<lparr>is_m := pre @ (ps, pl + len) # post\<rparr>, ps, pl + len))))
              else if start + len = ps
              then Some (s1\<lparr>is_m := omap_set start (len + pl) (pre @ post)\<rparr>, start, len + pl)
              else if ps > start + len
              then Some (s1\<lparr>is_m := omap_set start len m\<rparr>, start, len)
              else None)))"

definition iset_insert :: "nat \<Rightarrow> nat \<Rightarrow> interval_set \<Rightarrow> interval_set option" where
  "iset_insert start len s = map_option fst (iset_insert_at start len s)"

definition iset_insert_val :: "nat \<Rightarrow> interval_set \<Rightarrow> interval_set option" where
  "iset_insert_val val s = iset_insert val 1 s"

text \<open>\<^verbatim>\<open>erase(iterator)\<close>: the entry at position \<open>k\<close>.\<close>

definition iset_erase_iter :: "nat \<Rightarrow> interval_set \<Rightarrow> interval_set option" where
  "iset_erase_iter k s =
     (if k < length (is_m s) then
        (let sz = is_size s - int (snd (is_m s ! k)) in
         if sz \<ge> 0 then Some \<lparr>is_m = take k (is_m s) @ drop (Suc k) (is_m s), is_size = sz\<rparr> else None)
      else None)"

text \<open>\<^verbatim>\<open>erase(start, len, post_process)\<close>; \<open>pp\<close> is \<open>None\<close> for the empty function.\<close>

definition iset_erase_pp ::
  "(nat \<Rightarrow> nat \<Rightarrow> bool) option \<Rightarrow> nat \<Rightarrow> nat \<Rightarrow> interval_set \<Rightarrow> interval_set option" where
  "iset_erase_pp pp start len s =
     (let sz = is_size s - int len in
      case find_inc start (is_m s) of
        (pre, []) \<Rightarrow> None
      | (pre, (ps, pl) # post) \<Rightarrow>
          (if \<not> sz \<ge> 0 then None
           else if \<not> ps \<le> start then None
           else
             (let before = start - ps in
              if \<not> pl \<ge> before + len then None
              else
                (let after = pl - before - len;
                     keep = (\<lambda>a b. case pp of None \<Rightarrow> True | Some f \<Rightarrow> f a b);
                     m1 = (if before \<noteq> 0 \<and> keep ps before then pre @ (ps, before) # post
                           else pre @ post);
                     m2 = (if after \<noteq> 0 \<and> keep (start + len) after
                           then omap_set (start + len) after m1 else m1)
                 in Some \<lparr>is_m = m2, is_size = sz\<rparr>))))"

definition iset_erase :: "nat \<Rightarrow> nat \<Rightarrow> interval_set \<Rightarrow> interval_set option" where
  "iset_erase start len s = iset_erase_pp None start len s"

definition iset_erase_val :: "nat \<Rightarrow> interval_set \<Rightarrow> interval_set option" where
  "iset_erase_val val s = iset_erase val 1 s"

definition iset_subtract :: "interval_set \<Rightarrow> interval_set \<Rightarrow> interval_set option" where
  "iset_subtract a s = fold_opt (\<lambda>(start, len). iset_erase start len) (is_m a) s"

definition iset_insert_set :: "interval_set \<Rightarrow> interval_set \<Rightarrow> interval_set option" where
  "iset_insert_set a s = fold_opt (\<lambda>(start, len). iset_insert start len) (is_m a) s"

section \<open>Representation invariant and abstraction\<close>

text \<open>
  The intervals are non-empty, in order, and do not touch. \<open>iset_inv\<close> adds that the cached size
  is right.
\<close>

abbreviation iv :: "nat \<times> nat \<Rightarrow> nat set" where
  "iv p \<equiv> {fst p..<fst p + snd p}"

definition imap_ok :: "imap \<Rightarrow> bool" where
  "imap_ok m \<longleftrightarrow> (\<forall>p\<in>set m. 0 < snd p) \<and> sorted_wrt (\<lambda>p q. fst p + snd p < fst q) m"

definition imap_set :: "imap \<Rightarrow> nat set" where
  "imap_set m = (\<Union>p\<in>set m. iv p)"

definition iset_set :: "interval_set \<Rightarrow> nat set" where
  "iset_set s = imap_set (is_m s)"

definition iset_inv :: "interval_set \<Rightarrow> bool" where
  "iset_inv s \<longleftrightarrow> imap_ok (is_m s) \<and> is_size s = sum_list (map (int \<circ> snd) (is_m s))"

lemma imap_set_simps [simp]:
  "imap_set [] = {}"
  "imap_set (p # m) = iv p \<union> imap_set m"
  "imap_set (a @ b) = imap_set a \<union> imap_set b"
  by (auto simp: imap_set_def)

lemma imap_ok_simps [simp]:
  "imap_ok []"
  "imap_ok (p # m) \<longleftrightarrow> 0 < snd p \<and> (\<forall>q\<in>set m. fst p + snd p < fst q) \<and> imap_ok m"
  "imap_ok (a @ b) \<longleftrightarrow> imap_ok a \<and> imap_ok b \<and> (\<forall>p\<in>set a. \<forall>q\<in>set b. fst p + snd p < fst q)"
  by (auto simp: imap_ok_def sorted_wrt_append)

lemma imap_ok_pos: "imap_ok m \<Longrightarrow> p \<in> set m \<Longrightarrow> 0 < snd p"
  by (simp add: imap_ok_def)

lemma imap_set_iff: "x \<in> imap_set m \<longleftrightarrow> (\<exists>p\<in>set m. fst p \<le> x \<and> x < fst p + snd p)"
  by (auto simp: imap_set_def)

lemma imap_head_disjoint: "imap_ok (p # m) \<Longrightarrow> iv p \<inter> imap_set m = {}"
  by (fastforce simp: imap_set_iff)

lemma imap_set_finite [simp]: "finite (imap_set m)"
  by (simp add: imap_set_def)

text \<open>On a map that satisfies the invariant the two searches stop at the first interval that ends late enough.\<close>

lemma lower_bound_ok:
  assumes "lower_bound start m = (pre, post)" "imap_ok m"
  shows "m = pre @ post" "\<forall>p\<in>set pre. fst p < start" "\<forall>q\<in>set post. start \<le> fst q"
proof -
  show m: "m = pre @ post" using assms(1) by (auto simp: lower_bound_def)
  show "\<forall>p\<in>set pre. fst p < start"
    using assms(1) by (auto simp: lower_bound_def dest: set_takeWhileD)
  show "\<forall>q\<in>set post. start \<le> fst q"
  proof (cases post)
    case (Cons q post')
    then have "start \<le> fst q"
      using assms(1) hd_dropWhile [of "\<lambda>p. fst p < start" m] by (auto simp: lower_bound_def)
    then show ?thesis using assms(2) m Cons by force
  qed simp
qed

lemma find_inc_ok:
  assumes "find_inc start m = (pre, post)" "imap_ok m"
  shows "m = pre @ post" "\<forall>p\<in>set pre. fst p + snd p \<le> start" "\<forall>q\<in>set post. start < fst q + snd q"
proof -
  obtain A B where lb: "lower_bound start m = (A, B)" by fastforce
  note ok = lower_bound_ok [OF lb assms(2)]
  have "m = pre @ post \<and> (\<forall>p\<in>set pre. fst p + snd p \<le> start) \<and> (\<forall>q\<in>set post. start < fst q + snd q)"
  proof (cases A rule: rev_cases)
    case Nil
    then show ?thesis using assms ok lb imap_ok_pos [OF assms(2)] by (force simp: find_inc_def)
  next
    case (snoc A' p)
    then show ?thesis
      using assms ok lb by (cases B) (fastforce simp: find_inc_def Let_def split: if_splits)+
  qed
  then show "m = pre @ post" "\<forall>p\<in>set pre. fst p + snd p \<le> start"
    "\<forall>q\<in>set post. start < fst q + snd q" by auto
qed

lemma find_adj_ok:
  assumes "find_adj start m = (pre, post)" "imap_ok m"
  shows "m = pre @ post" "\<forall>p\<in>set pre. fst p + snd p < start" "\<forall>q\<in>set post. start \<le> fst q + snd q"
proof -
  obtain A B where lb: "lower_bound start m = (A, B)" by fastforce
  note ok = lower_bound_ok [OF lb assms(2)]
  have "m = pre @ post \<and> (\<forall>p\<in>set pre. fst p + snd p < start) \<and> (\<forall>q\<in>set post. start \<le> fst q + snd q)"
  proof (cases A rule: rev_cases)
    case Nil
    then show ?thesis using assms ok lb by (force simp: find_adj_def)
  next
    case (snoc A' p)
    then show ?thesis
      using assms ok lb by (cases B) (fastforce simp: find_adj_def Let_def split: if_splits)+
  qed
  then show "m = pre @ post" "\<forall>p\<in>set pre. fst p + snd p < start"
    "\<forall>q\<in>set post. start \<le> fst q + snd q" by auto
qed

section \<open>insert and erase\<close>

lemma imap_disjoint_iff:
  assumes "imap_ok m" "0 < len"
  shows "{start..<start + len} \<inter> imap_set m = {} \<longleftrightarrow>
    (\<forall>p\<in>set m. start + len \<le> fst p \<or> fst p + snd p \<le> start)" (is "?L \<longleftrightarrow> ?R")
proof
  assume L: ?L
  show ?R
  proof
    fix p assume p: "p \<in> set m"
    show "start + len \<le> fst p \<or> fst p + snd p \<le> start"
    proof (rule ccontr)
      assume "\<not> ?thesis"
      then have "max start (fst p) \<in> {start..<start + len} \<inter> imap_set m"
        using assms(2) imap_ok_pos [OF assms(1) p] by (auto simp: imap_set_iff intro!: bexI [OF _ p])
      with L show False by blast
    qed
  qed
qed (fastforce simp: imap_set_iff)

lemma iset_insert_ok:
  assumes inv: "iset_inv s" and len: "0 < len" and dis: "{start..<start + len} \<inter> iset_set s = {}"
  shows "\<exists>s'. iset_insert start len s = Some s' \<and> iset_inv s'
    \<and> iset_set s' = iset_set s \<union> {start..<start + len}"
proof -
  have ok: "imap_ok (is_m s)" using inv by (simp add: iset_inv_def)
  obtain pre post where f: "find_adj start (is_m s) = (pre, post)" by fastforce
  note fo = find_adj_ok [OF f ok]
  have d: "\<forall>p\<in>set (is_m s). start + len \<le> fst p \<or> fst p + snd p \<le> start"
    using dis imap_disjoint_iff [OF ok len] by (simp add: iset_set_def)
  have pre: "\<forall>p\<in>set pre. fst p < start" using fo(2) by fastforce
  show ?thesis
  proof (cases post)
    case Nil
    have "omap_set start len (is_m s) = pre @ [(start, len)]"
      using omap_set_between [of pre start "[]"] pre fo(1) Nil by simp
    then show ?thesis
      using inv len fo f Nil pre
      by (auto simp: iset_insert_def iset_insert_at_def iset_inv_def iset_set_def)
  next
    case (Cons p post')
    obtain ps pl where p: "p = (ps, pl)" by fastforce
    have m: "is_m s = pre @ (ps, pl) # post'" using fo(1) Cons p by simp
    have ps: "start \<le> ps + pl" "start + len \<le> ps \<or> ps + pl \<le> start" "0 < pl"
      and post': "\<forall>q\<in>set post'. ps + pl < fst q" "\<forall>q\<in>set post'. 0 < snd q"
      using fo(3) d ok imap_ok_pos [OF ok] m Cons p by auto
    show ?thesis
    proof (cases "ps < start")
      case True
      then have e: "ps + pl = start" using ps len by auto
      have nx: "start + len \<le> fst q" if "q \<in> set post'" for q
        using d m that post' e by force
      show ?thesis
      proof (cases "post' = [] \<or> start + len < fst (hd post')")
        case far: True
        have "start + len < fst q" if "q \<in> set post'" for q
        proof (cases post')
          case (Cons q' qs)
          then show ?thesis using far that ok m by force
        qed (use that in simp)
        then show ?thesis
          using inv len True e f Cons p m far
          by (cases post') (force simp: iset_insert_def iset_insert_at_def iset_inv_def iset_set_def)+
      next
        case False
        then obtain ns nl qs where q: "post' = (ns, nl) # qs" "start + len = ns"
          using nx by (cases post') fastforce+
        show ?thesis
          using inv len True e f Cons p m q
          by (force simp: iset_insert_def iset_insert_at_def iset_inv_def iset_set_def)
      qed
    next
      case False
      then have le: "start + len \<le> ps" using ps len by auto
      have s1: "omap_set start v (pre @ post') = pre @ (start, v) # post'"
        and s2: "omap_set start v (is_m s) = pre @ (start, v) # (ps, pl) # post'" for v
        using pre post' le len unfolding m by (fastforce intro!: omap_set_between)+
      show ?thesis
        using inv len False le f Cons p s1 s2 m fo(2)
        by (cases "start + len = ps")
          (force simp: iset_insert_def iset_insert_at_def iset_inv_def iset_set_def)+
    qed
  qed
qed

lemma imap_ok_cmp:
  "imap_ok m \<Longrightarrow> p \<in> set m \<Longrightarrow> q \<in> set m \<Longrightarrow>
     p = q \<or> fst p + snd p < fst q \<or> fst q + snd q < fst p"
  by (induction m) auto

lemma imap_range_iff:
  assumes "imap_ok m" "0 < len"
  shows "{start..<start + len} \<subseteq> imap_set m \<longleftrightarrow>
    (\<exists>p\<in>set m. fst p \<le> start \<and> start + len \<le> fst p + snd p)" (is "?L \<longleftrightarrow> ?R")
proof
  assume L: ?L
  then have "start \<in> imap_set m" using assms(2) by auto
  then obtain p where p: "p \<in> set m" "fst p \<le> start" "start < fst p + snd p"
    by (auto simp: imap_set_iff)
  have "start + len \<le> fst p + snd p"
  proof (rule ccontr)
    assume "\<not> ?thesis"
    then have "fst p + snd p \<in> imap_set m" using L p by auto
    then obtain q where q: "q \<in> set m" "fst q \<le> fst p + snd p" "fst p + snd p < fst q + snd q"
      by (auto simp: imap_set_iff)
    then show False using imap_ok_cmp [OF assms(1) p(1) q(1)] by auto
  qed
  then show ?R using p by blast
next
  assume ?R
  then obtain p where "p \<in> set m" "{start..<start + len} \<subseteq> iv p" by auto
  then show ?L by (auto simp: imap_set_def)
qed

lemma find_inc_hit:
  assumes "imap_ok m" "find_inc start m = (pre, post)" "p \<in> set m" "fst p \<le> start" "start < fst p + snd p"
  shows "\<exists>post'. post = p # post'"
proof -
  note fo = find_inc_ok [OF assms(2,1)]
  have "p \<in> set post" using fo(1,2) assms(3,5) by force
  then obtain q post' where q: "post = q # post'" "p = q \<or> p \<in> set post'" by (cases post) auto
  then have "p = q" using assms(1,4) fo(1,3) by fastforce
  then show ?thesis using q by simp
qed

lemma iset_contains_iff:
  assumes "iset_inv s"
  shows "iset_contains i s \<longleftrightarrow> i \<in> iset_set s"
proof -
  have ok: "imap_ok (is_m s)" using assms by (simp add: iset_inv_def)
  obtain pre post where f: "find_inc i (is_m s) = (pre, post)" by fastforce
  show ?thesis
  proof
    assume "iset_contains i s"
    then show "i \<in> iset_set s"
      using find_inc_ok(1) [OF f ok] f
      by (auto simp: iset_contains_def iset_contains_at_def iset_set_def split: list.splits if_splits)
  next
    assume "i \<in> iset_set s"
    then obtain p where p: "p \<in> set (is_m s)" "fst p \<le> i" "i < fst p + snd p"
      by (auto simp: iset_set_def imap_set_iff)
    then obtain post' where "post = p # post'" using find_inc_hit [OF ok f] by blast
    then show "iset_contains i s"
      using f p by (cases p) (simp add: iset_contains_def iset_contains_at_def)
  qed
qed

lemma iset_contains_range_iff:
  assumes "iset_inv s" "0 < len"
  shows "iset_contains_range start len s \<longleftrightarrow> {start..<start + len} \<subseteq> iset_set s"
proof -
  have ok: "imap_ok (is_m s)" using assms by (simp add: iset_inv_def)
  obtain pre post where f: "find_inc start (is_m s) = (pre, post)" by fastforce
  show ?thesis unfolding iset_set_def imap_range_iff [OF ok assms(2)]
  proof
    assume "iset_contains_range start len s"
    then show "\<exists>p\<in>set (is_m s). fst p \<le> start \<and> start + len \<le> fst p + snd p"
      using find_inc_ok(1) [OF f ok] f
      by (force simp: iset_contains_range_def split: list.splits if_splits)
  next
    assume "\<exists>p\<in>set (is_m s). fst p \<le> start \<and> start + len \<le> fst p + snd p"
    then show "iset_contains_range start len s"
      using find_inc_hit [OF ok f] f assms(2) by (force simp: iset_contains_range_def)
  qed
qed

lemma iset_erase_ok:
  assumes inv: "iset_inv s" and len: "0 < len" and sub: "{start..<start + len} \<subseteq> iset_set s"
  shows "\<exists>s'. iset_erase start len s = Some s' \<and> iset_inv s'
    \<and> iset_set s' = iset_set s - {start..<start + len}"
proof -
  have ok: "imap_ok (is_m s)" using inv by (simp add: iset_inv_def)
  obtain ps pl where p: "(ps, pl) \<in> set (is_m s)" "ps \<le> start" "start + len \<le> ps + pl"
    using sub imap_range_iff [OF ok len] by (auto simp: iset_set_def)
  obtain pre post where f: "find_inc start (is_m s) = (pre, post)" by fastforce
  obtain post' where post: "post = (ps, pl) # post'"
    using find_inc_hit [OF ok f p(1)] p len by auto
  have m: "is_m s = pre @ (ps, pl) # post'" using find_inc_ok(1) [OF f ok] post by simp
  have pre: "\<forall>q\<in>set pre. fst q < ps" and post': "\<forall>q\<in>set post'. ps + pl < fst q"
    using ok m by fastforce+
  have ins: "omap_set (start + len) v (pre @ post') = pre @ (start + len, v) # post'" for v
    using pre post' p by (fastforce intro!: omap_set_between)
  have "omap_set (start + len) v ((pre @ [(ps, start - ps)]) @ post')
      = (pre @ [(ps, start - ps)]) @ (start + len, v) # post'" for v
    using pre post' p len by (fastforce intro!: omap_set_between)
  then have ins': "omap_set (start + len) v (pre @ (ps, start - ps) # post')
      = pre @ (ps, start - ps) # (start + len, v) # post'" for v
    by simp
  have nn: "0 \<le> sum_list (map (int \<circ> snd) pre) + sum_list (map (int \<circ> snd) post')"
    by (intro add_nonneg_nonneg sum_list_nonneg) auto
  have out: "iset_set s - {start..<start + len}
      = imap_set pre \<union> {ps..<start} \<union> {start + len..<ps + pl} \<union> imap_set post'"
  proof -
    have "x < ps" if "x \<in> imap_set pre" for x
      using that ok unfolding m by (fastforce simp: imap_set_iff)
    moreover have "ps + pl \<le> x" if "x \<in> imap_set post'" for x
      using that post' by (fastforce simp: imap_set_iff)
    ultimately show ?thesis using p by (fastforce simp: m iset_set_def)
  qed
  define m2 where "m2 = pre @ (if ps < start then [(ps, start - ps)] else [])
    @ (if start + len < ps + pl then [(start + len, ps + pl - (start + len))] else []) @ post'"
  have "iset_erase start len s = Some \<lparr>is_m = m2, is_size = is_size s - int len\<rparr>"
    using f post p len nn inv m ins ins'
    by (auto simp: iset_erase_def iset_erase_pp_def m2_def Let_def iset_inv_def add.commute)
  moreover have "imap_ok m2"
    using ok p len post' unfolding m m2_def by auto
  moreover have "imap_set m2 = iset_set s - {start..<start + len}"
    using p len unfolding out by (auto simp: m2_def)
  moreover have "sum_list (map (int \<circ> snd) m2) = is_size s - int len"
    using inv p len by (auto simp: m2_def m iset_inv_def)
  ultimately show ?thesis by (simp add: iset_inv_def iset_set_def)
qed

lemma iset_erase_fail:
  assumes inv: "iset_inv s" and len: "0 < len" and e: "iset_erase start len s = Some s'"
  shows "{start..<start + len} \<subseteq> iset_set s"
proof -
  have ok: "imap_ok (is_m s)" using inv by (simp add: iset_inv_def)
  obtain pre post where f: "find_inc start (is_m s) = (pre, post)" by fastforce
  show ?thesis
    using e f find_inc_ok(1) [OF f ok] unfolding iset_set_def imap_range_iff [OF ok len]
    by (force simp: iset_erase_def iset_erase_pp_def Let_def split: list.splits if_splits)
qed

section \<open>The interface\<close>

text \<open>
  What a client of an interval set relies on. Ranges are inserted when they are disjoint from the
  set and erased when they lie in it; anything else is a failed assertion. The loops over another
  interval set, \<^verbatim>\<open>insert(const interval_set&)\<close> and \<^verbatim>\<open>subtract\<close>, follow from these laws.
\<close>

locale range_set =
  fixes ok :: "'s \<Rightarrow> bool"
    and elems :: "'s \<Rightarrow> nat set"
    and ins :: "nat \<Rightarrow> nat \<Rightarrow> 's \<Rightarrow> 's option"
    and era :: "nat \<Rightarrow> nat \<Rightarrow> 's \<Rightarrow> 's option"
  assumes ins_ok: "ok s \<Longrightarrow> 0 < n \<Longrightarrow> {a..<a + n} \<inter> elems s = {} \<Longrightarrow>
      \<exists>s'. ins a n s = Some s' \<and> ok s' \<and> elems s' = elems s \<union> {a..<a + n}"
    and era_ok: "ok s \<Longrightarrow> 0 < n \<Longrightarrow> {a..<a + n} \<subseteq> elems s \<Longrightarrow>
      \<exists>s'. era a n s = Some s' \<and> ok s' \<and> elems s' = elems s - {a..<a + n}"
    and era_sub: "ok s \<Longrightarrow> 0 < n \<Longrightarrow> era a n s = Some s' \<Longrightarrow> {a..<a + n} \<subseteq> elems s"
begin

lemma ins_all:
  "ok s \<Longrightarrow> imap_ok m \<Longrightarrow> imap_set m \<inter> elems s = {} \<Longrightarrow>
     \<exists>s'. fold_opt (\<lambda>(a, n). ins a n) m s = Some s' \<and> ok s' \<and> elems s' = elems s \<union> imap_set m"
proof (induction m arbitrary: s)
  case (Cons p m)
  obtain a n where p: "p = (a, n)" by fastforce
  obtain s1 where s1: "ins a n s = Some s1" "ok s1" "elems s1 = elems s \<union> {a..<a + n}"
    using ins_ok [of s n a] Cons.prems p by auto
  have "imap_set m \<inter> elems s1 = {}"
    using Cons.prems s1(3) p by (force simp: imap_set_iff)
  from Cons.IH [OF s1(2) _ this] show ?case using Cons.prems s1 p by auto
qed simp

lemma era_all:
  "ok s \<Longrightarrow> imap_ok m \<Longrightarrow> imap_set m \<subseteq> elems s \<Longrightarrow>
     \<exists>s'. fold_opt (\<lambda>(a, n). era a n) m s = Some s' \<and> ok s' \<and> elems s' = elems s - imap_set m"
proof (induction m arbitrary: s)
  case (Cons p m)
  obtain a n where p: "p = (a, n)" by fastforce
  obtain s1 where s1: "era a n s = Some s1" "ok s1" "elems s1 = elems s - {a..<a + n}"
    using era_ok [of s n a] Cons.prems p by auto
  have "imap_set m \<subseteq> elems s1"
    using Cons.prems s1(3) p by (force simp: imap_set_iff)
  from Cons.IH [OF s1(2) _ this] show ?case using Cons.prems s1 p by auto
qed simp

lemma era_all_sub:
  "ok s \<Longrightarrow> imap_ok m \<Longrightarrow> fold_opt (\<lambda>(a, n). era a n) m s = Some s' \<Longrightarrow> imap_set m \<subseteq> elems s"
proof (induction m arbitrary: s)
  case (Cons p m)
  obtain a n where p: "p = (a, n)" by fastforce
  obtain s1 where s1: "era a n s = Some s1" "fold_opt (\<lambda>(a, n). era a n) m s1 = Some s'"
    using Cons.prems p by (auto elim: bind_eq_SomeE)
  have sub: "{a..<a + n} \<subseteq> elems s" using era_sub [OF _ _ s1(1)] Cons.prems p by simp
  then have "ok s1" "elems s1 = elems s - {a..<a + n}"
    using era_ok [of s n a] Cons.prems p s1(1) by auto
  with Cons.IH [of s1] s1(2) Cons.prems sub p show ?case by auto
qed simp

end

interpretation iset: range_set iset_inv iset_set iset_insert iset_erase
  by unfold_locales (rule iset_insert_ok iset_erase_ok iset_erase_fail; assumption)+

lemma iset_inv_ok [dest]: "iset_inv s \<Longrightarrow> imap_ok (is_m s)"
  by (simp add: iset_inv_def)

lemma iset_insert_set_ok:
  "iset_inv s \<Longrightarrow> iset_inv a \<Longrightarrow> iset_set a \<inter> iset_set s = {} \<Longrightarrow>
     \<exists>s'. iset_insert_set a s = Some s' \<and> iset_inv s' \<and> iset_set s' = iset_set s \<union> iset_set a"
  using iset.ins_all [of s "is_m a"] by (simp add: iset_insert_set_def iset_set_def [of a] iset_inv_ok)

lemma iset_subtract_ok:
  "iset_inv s \<Longrightarrow> iset_inv a \<Longrightarrow> iset_set a \<subseteq> iset_set s \<Longrightarrow>
     \<exists>s'. iset_subtract a s = Some s' \<and> iset_inv s' \<and> iset_set s' = iset_set s - iset_set a"
  using iset.era_all [of s "is_m a"] by (simp add: iset_subtract_def iset_set_def [of a] iset_inv_ok)

lemma iset_subtract_sub:
  "iset_inv s \<Longrightarrow> iset_inv a \<Longrightarrow> iset_subtract a s = Some s' \<Longrightarrow> iset_set a \<subseteq> iset_set s"
  using iset.era_all_sub [of s "is_m a"] by (simp add: iset_subtract_def iset_set_def [of a] iset_inv_ok)

section \<open>Ends and sizes\<close>

lemma iset_empty_inv [simp]: "iset_inv iset_empty" "iset_set iset_empty = {}"
  by (simp_all add: iset_inv_def iset_empty_def iset_set_def)

lemma imap_set_empty_iff: "imap_ok m \<Longrightarrow> imap_set m = {} \<longleftrightarrow> m = []"
  by (cases m) auto

lemma range_start_Min:
  assumes "iset_inv s" "iset_set s \<noteq> {}"
  shows "range_start s = Some (Min (iset_set s))"
proof (cases "is_m s")
  case (Cons p m)
  have "fst p \<in> iset_set s"
    using assms(1) Cons by (auto simp: iset_set_def iset_inv_def)
  moreover have "fst p \<le> x" if "x \<in> iset_set s" for x
    using that assms(1) Cons by (fastforce simp: iset_set_def iset_inv_def imap_set_iff)
  ultimately have "Min (iset_set s) = fst p" by (intro Min_eqI) (auto simp: iset_set_def)
  then show ?thesis using Cons by (simp add: range_start_def)
qed (use assms in \<open>simp add: iset_set_def\<close>)

lemma card_imap_set: "imap_ok m \<Longrightarrow> int (card (imap_set m)) = sum_list (map (int \<circ> snd) m)"
proof (induction m)
  case (Cons p m)
  then have "iv p \<inter> imap_set m = {}" by (intro imap_head_disjoint)
  then show ?case using Cons by (simp add: card_Un_disjoint)
qed simp

lemma iset_size_card: "iset_inv s \<Longrightarrow> is_size s = int (card (iset_set s))"
  using card_imap_set [of "is_m s"] by (simp add: iset_inv_def iset_set_def)

lemma end_after_ok:
  assumes "iset_inv s" "i \<in> iset_set s"
  shows "\<exists>e. end_after i s = Some e \<and> i < e \<and> {i..<e} \<subseteq> iset_set s \<and> e \<notin> iset_set s"
proof -
  have ok: "imap_ok (is_m s)" using assms(1) by auto
  obtain p where p: "p \<in> set (is_m s)" "fst p \<le> i" "i < fst p + snd p"
    using assms(2) by (auto simp: iset_set_def imap_set_iff)
  obtain pre post where f: "find_inc i (is_m s) = (pre, post)" by fastforce
  obtain post' where "post = p # post'" using find_inc_hit [OF ok f p] by blast
  then have "end_after i s = Some (fst p + snd p)"
    using f assms by (simp add: end_after_def iset_contains_iff)
  moreover have "fst p + snd p \<notin> iset_set s"
    using imap_ok_cmp [OF ok p(1)] by (fastforce simp: iset_set_def imap_set_iff)
  moreover have "{i..<fst p + snd p} \<subseteq> iset_set s"
    using p by (auto simp: iset_set_def imap_set_iff intro!: bexI [OF _ p(1)])
  ultimately show ?thesis using p by blast
qed

text \<open>
  The representation is canonical: two interval sets that satisfy the invariant and hold the same
  elements are equal, so \<^verbatim>\<open>operator==\<close> decides equality of sets.
\<close>

lemma imap_ok_Cons_Min:
  assumes "imap_ok ((a, n) # m)"
  shows "a = Min (imap_set ((a, n) # m))" "a + n = (LEAST x. a \<le> x \<and> x \<notin> imap_set ((a, n) # m))"
proof -
  have m: "a + n < x" if "x \<in> imap_set m" for x
    using that assms by (fastforce simp: imap_set_iff)
  show "a = Min (imap_set ((a, n) # m))"
    using m assms by (intro Min_eqI [symmetric]) fastforce+
  show "a + n = (LEAST x. a \<le> x \<and> x \<notin> imap_set ((a, n) # m))"
    using m by (intro Least_equality [symmetric]) force+
qed

lemma imap_set_inj: "imap_ok m \<Longrightarrow> imap_ok m' \<Longrightarrow> imap_set m = imap_set m' \<Longrightarrow> m = m'"
proof (induction m arbitrary: m')
  case Nil
  then show ?case using imap_set_empty_iff [of m'] by simp
next
  case (Cons p m)
  obtain a n where p: "p = (a, n)" by fastforce
  have "m' \<noteq> []" using Cons.prems p by (auto simp: atLeastLessThan_empty_iff)
  then obtain a' n' m'' where m': "m' = (a', n') # m''" by (cases m') auto
  have ok: "imap_ok ((a, n) # m)" "imap_ok ((a', n') # m'')"
    and eq: "imap_set ((a, n) # m) = imap_set ((a', n') # m'')"
    using Cons.prems unfolding p m' by blast+
  have a: "a = a'"
    using imap_ok_Cons_Min(1) [OF ok(1)] imap_ok_Cons_Min(1) [OF ok(2)] unfolding eq by (rule trans [OF _ sym])
  have "a + n = a' + n'"
    using imap_ok_Cons_Min(2) [OF ok(1)] imap_ok_Cons_Min(2) [OF ok(2)] unfolding eq unfolding a by (rule trans [OF _ sym])
  then have n: "n = n'" using a by simp
  have "x \<in> imap_set m \<longleftrightarrow> x \<in> imap_set ((a, n) # m) \<and> a + n < x"
    "x \<in> imap_set m'' \<longleftrightarrow> x \<in> imap_set ((a', n') # m'') \<and> a' + n' < x" for x
    using ok by (fastforce simp: imap_set_iff)+
  then have "imap_set m = imap_set m''" using eq unfolding a n by blast
  then show ?case using Cons.IH [of m''] ok a n p m' by simp
qed

lemma iset_eq_iff:
  "iset_inv a \<Longrightarrow> iset_inv b \<Longrightarrow> iset_eq a b \<longleftrightarrow> iset_set a = iset_set b"
  using imap_set_inj [of "is_m a" "is_m b"]
  by (auto simp: iset_eq_def iset_set_def iset_inv_def)

end
