(* ===== verification/Interval_Ops.thy ===== *)
theory Interval_Ops
  imports Interval_Set
begin

text \<open>
  The operations of \<^verbatim>\<open>interval_set<T>\<close> on two sets: intersection, in the sequential variant and in
  the one that searches in the larger set, union, the subset tests, and the extraction of a range
  or of a number of elements.
\<close>

section \<open>Intersection\<close>

text \<open>\<^verbatim>\<open>mi = m.insert(mi, i); _size += i.second\<close>\<close>

definition iset_put :: "nat \<times> nat \<Rightarrow> interval_set \<Rightarrow> interval_set" where
  "iset_put p r = r\<lparr>is_m := omap_insert (fst p) (snd p) (is_m r), is_size := is_size r + int (snd p)\<rparr>"

text \<open>The inner loop over intervals that are the same in both sets.\<close>

fun isect_equal :: "imap \<Rightarrow> imap \<Rightarrow> interval_set \<Rightarrow> imap \<times> imap \<times> interval_set" where
  "isect_equal (x # pa) (y # pb) r =
     (if x = y then isect_equal pa pb (iset_put x r) else (x # pa, y # pb, r))"
| "isect_equal pa pb r = (pa, pb, r)"

lemma isect_equal_length:
  "isect_equal pa pb r = (pa', pb', r') \<Longrightarrow> length pa' \<le> length pa \<and> length pb' \<le> length pb"
  by (induction pa pb r rule: isect_equal.induct) (auto split: if_splits)

function isect_sym :: "imap \<Rightarrow> imap \<Rightarrow> interval_set \<Rightarrow> interval_set option" where
  "isect_sym ((sa, la) # pa) ((sb, lb) # pb) r =
     (if sa + la \<le> sb then isect_sym pa ((sb, lb) # pb) r
      else if sb + lb \<le> sa then isect_sym ((sa, la) # pa) pb r
      else if (sa, la) = (sb, lb) then
        (case isect_equal pa pb (iset_put (sa, la) r) of (pa', pb', r') \<Rightarrow> isect_sym pa' pb' r')
      else
        (let start = max sa sb; en = min (sa + la) (sb + lb) in
         if \<not> en > start then None
         else
           (let r' = iset_put (start, en - start) r in
            if sa + la > sb + lb then isect_sym ((sa, la) # pa) pb r'
            else isect_sym pa ((sb, lb) # pb) r')))"
| "isect_sym [] pb r = Some r"
| "isect_sym pa [] r = Some r"
  by pat_completeness auto
termination
  by (relation "measure (\<lambda>(pa, pb, _). length pa + length pb)")
    (auto split: prod.split dest: isect_equal_length)

text \<open>
  \<^verbatim>\<open>intersection_size_asym\<close>: \<open>l\<close> is the larger set, \<open>ps\<close> the rest of the smaller one. The loop of the
  code has no bound of its own; a run that does not end is \<open>None\<close>, like a failed assertion.
\<close>

partial_function (option) isect_asym ::
  "bool \<Rightarrow> nat \<Rightarrow> nat \<Rightarrow> imap \<Rightarrow> imap \<Rightarrow> interval_set \<Rightarrow> interval_set option" where
  "isect_asym first offset prev_offset l ps r =
     (if \<not> first \<and> \<not> offset > prev_offset then None
      else
        (case snd (find_inc offset l) of
           [] \<Rightarrow> Some r
         | (lf, ll) # pl \<Rightarrow>
             (case dropWhile (\<lambda>p. fst p + snd p \<le> lf) ps of
                [] \<Rightarrow> Some r
              | (sf, sl) # ps' \<Rightarrow>
                  (if lf + ll \<le> sf then isect_asym False sf offset l ((sf, sl) # ps') r
                   else if (sf, sl) = (lf, ll) then
                     (case isect_equal ps' pl (iset_put (sf, sl) r) of
                        ([], _, r') \<Rightarrow> Some r'
                      | ((s2, l2) # ps'', _, r') \<Rightarrow>
                          isect_asym False s2 offset l ((s2, l2) # ps'') r')
                   else if \<not> min (sf + sl) (lf + ll) > max sf lf then None
                   else if sf + sl \<le> lf + ll then
                     (case ps' of
                        [] \<Rightarrow> Some (iset_put (max sf lf, min (sf + sl) (lf + ll) - max sf lf) r)
                      | (s2, l2) # ps'' \<Rightarrow>
                          isect_asym False s2 offset l ps'
                            (iset_put (max sf lf, min (sf + sl) (lf + ll) - max sf lf) r))
                   else
                     isect_asym False (lf + ll) offset l ((sf, sl) # ps')
                       (iset_put (max sf lf, min (sf + sl) (lf + ll) - max sf lf) r)))))"

text \<open>\<^verbatim>\<open>intersection_of(a, b)\<close>; the result replaces the contents of the object.\<close>

definition intersection_of :: "interval_set \<Rightarrow> interval_set \<Rightarrow> interval_set option" where
  "intersection_of a b =
     (let (s, l) = (if is_size a < is_size b then (a, b) else (b, a)) in
      if is_size s = 0 then Some iset_empty
      else if is_size l div is_size s \<ge> 10 then
        (case is_m s of
           [] \<Rightarrow> None
         | (sf, sl) # _ \<Rightarrow> isect_asym True sf 0 (is_m l) (is_m s) iset_empty)
      else isect_sym (is_m a) (is_m b) iset_empty)"

definition iset_intersects :: "nat \<Rightarrow> nat \<Rightarrow> interval_set \<Rightarrow> bool option" where
  "iset_intersects start len s = do {
     a \<leftarrow> iset_insert start len iset_empty;
     i \<leftarrow> intersection_of s a;
     Some (\<not> iset_is_empty i)
   }"

definition union_of :: "interval_set \<Rightarrow> interval_set \<Rightarrow> interval_set option" where
  "union_of a b = do {
     ab \<leftarrow> intersection_of a b;
     m1 \<leftarrow> iset_subtract ab a;
     iset_insert_set b m1
   }"

text \<open>\<^verbatim>\<open>union_of(b)\<close> and \<^verbatim>\<open>union_insert\<close> on the object \<open>s\<close>.\<close>

definition union_insert :: "nat \<Rightarrow> nat \<Rightarrow> interval_set \<Rightarrow> interval_set option" where
  "union_insert off len s = do {
     a \<leftarrow> iset_insert off len iset_empty;
     union_of s a
   }"

section \<open>Correctness of the intersection\<close>

text \<open>
  The invariant of both loops: what has been put out so far, together with what the rest of the
  two lists has in common, is the goal \<open>G\<close>; and every interval put out lies strictly before the
  rest of one of the lists, so that the next one neither overlaps nor touches it.
\<close>

definition isect_rel :: "imap \<Rightarrow> imap \<Rightarrow> interval_set \<Rightarrow> nat set \<Rightarrow> bool" where
  "isect_rel pa pb r G \<longleftrightarrow>
     imap_ok pa \<and> imap_ok pb \<and> iset_inv r \<and>
     (\<forall>p\<in>set (is_m r). (\<forall>q\<in>set pa. fst p + snd p < fst q) \<or> (\<forall>q\<in>set pb. fst p + snd p < fst q)) \<and>
     iset_set r \<union> (imap_set pa \<inter> imap_set pb) = G"

lemma isect_rel_commute: "isect_rel pa pb r G \<longleftrightarrow> isect_rel pb pa r G"
  by (auto simp: isect_rel_def)

lemma iset_put_end:
  assumes "iset_inv r" "0 < n" "\<forall>p\<in>set (is_m r). fst p + snd p < a"
  shows "is_m (iset_put (a, n) r) = is_m r @ [(a, n)]" "iset_inv (iset_put (a, n) r)"
    "iset_set (iset_put (a, n) r) = iset_set r \<union> {a..<a + n}"
proof -
  show m: "is_m (iset_put (a, n) r) = is_m r @ [(a, n)]"
    using omap_insert_between [of "is_m r" a "[]" n] assms(3) by (fastforce simp: iset_put_def)
  show "iset_inv (iset_put (a, n) r)"
    using assms m by (auto simp: iset_inv_def) (simp add: iset_put_def)
  show "iset_set (iset_put (a, n) r) = iset_set r \<union> {a..<a + n}"
    using m by (simp add: iset_set_def)
qed

lemma isect_rel_filter:
  assumes "isect_rel pa pb r G" "\<forall>q\<in>set pb. \<not> P q \<longrightarrow> iv q \<inter> imap_set pa = {}"
  shows "isect_rel pa (filter P pb) r G"
proof -
  have "imap_set pa \<inter> imap_set (filter P pb) = imap_set pa \<inter> imap_set pb"
    using assms(2) by (fastforce simp: imap_set_def)
  moreover have "imap_ok (filter P pb)"
    using assms(1) by (auto simp: isect_rel_def imap_ok_def intro: sorted_wrt_filter)
  ultimately show ?thesis using assms(1) unfolding isect_rel_def by (metis filter_is_subset subsetD)
qed

lemma isect_rel_skip:
  assumes "isect_rel pa (b # pb) r G" "\<forall>q\<in>set pa. fst b + snd b \<le> fst q"
  shows "isect_rel pa pb r G"
proof -
  have "iv b \<inter> imap_set pa = {}" using assms(2) by (fastforce simp: imap_set_iff)
  then show ?thesis using assms(1) by (auto simp: isect_rel_def)
qed

lemma isect_rel_put:
  fixes sa la sb lb
  defines "st \<equiv> max sa sb" and "en \<equiv> min (sa + la) (sb + lb)"
  assumes rel: "isect_rel ((sa, la) # pa) ((sb, lb) # pb) r G"
    and ov: "st < en" and le: "sa + la \<le> sb + lb"
  shows "isect_rel pa ((sb, lb) # pb) (iset_put (st, en - st) r) G"
proof -
  have before: "\<forall>p\<in>set (is_m r). fst p + snd p < st"
    using rel by (force simp: isect_rel_def st_def)
  have inv: "iset_inv r" using rel by (simp add: isect_rel_def)
  note put = iset_put_end [OF inv _ before, of "en - st"]
  have rng: "{st..<st + (en - st)} = {sa..<sa + la} \<inter> {sb..<sb + lb}"
    using ov by (auto simp: st_def en_def)
  have far: "{sa..<sa + la} \<inter> imap_set pb = {}"
    using rel le by (fastforce simp: isect_rel_def imap_set_iff)
  have "en < fst q" if "q \<in> set pa" for q
    using rel that le by (force simp: isect_rel_def en_def)
  then show ?thesis
    using rel ov put far unfolding isect_rel_def rng by auto
qed

lemma isect_rel_equal:
  assumes "isect_rel (x # pa) (x # pb) r G"
  shows "isect_rel pa pb (iset_put x r) G"
proof -
  obtain a n where x: "x = (a, n)" by fastforce
  have "0 < n" using assms x by (simp add: isect_rel_def)
  then have "isect_rel pa (x # pb) (iset_put x r) G"
    using isect_rel_put [of a n pa a n pb r G] assms x by simp
  then show ?thesis
    by (rule isect_rel_skip) (use assms in \<open>auto simp: isect_rel_def\<close>)
qed

lemma isect_equal_rel:
  "isect_rel pa pb r G \<Longrightarrow> isect_equal pa pb r = (pa', pb', r') \<Longrightarrow> isect_rel pa' pb' r' G"
  by (induction pa pb r rule: isect_equal.induct) (auto split: if_splits dest: isect_rel_equal)

lemma isect_rel_done: "isect_rel [] pb r G \<Longrightarrow> iset_inv r \<and> iset_set r = G"
  by (auto simp: isect_rel_def)

lemma isect_sym_ok:
  "isect_rel pa pb r G \<Longrightarrow> \<exists>r'. isect_sym pa pb r = Some r' \<and> iset_inv r' \<and> iset_set r' = G"
proof (induction pa pb r rule: isect_sym.induct)
  case (1 sa la pa sb lb pb r)
  note rel = "1.prems" [THEN isect_rel_commute [THEN iffD1]]
  have ord: "\<forall>q\<in>set pa. sa < fst q" "\<forall>q\<in>set pb. sb < fst q"
    using "1.prems" by (force simp: isect_rel_def)+
  have pos: "0 < la" "0 < lb" using "1.prems" by (simp_all add: isect_rel_def)
  consider (a) "sa + la \<le> sb" | (b) "\<not> sa + la \<le> sb" "sb + lb \<le> sa"
    | (eq) "\<not> sa + la \<le> sb" "\<not> sb + lb \<le> sa" "(sa, la) = (sb, lb)"
    | (gt) "\<not> sa + la \<le> sb" "\<not> sb + lb \<le> sa" "(sa, la) \<noteq> (sb, lb)" "sa + la > sb + lb"
    | (le) "\<not> sa + la \<le> sb" "\<not> sb + lb \<le> sa" "(sa, la) \<noteq> (sb, lb)" "\<not> sa + la > sb + lb"
    by blast
  then show ?case
  proof cases
    case a
    then have "isect_rel pa ((sb, lb) # pb) r G"
      using isect_rel_skip [OF rel] ord by (fastforce simp: isect_rel_commute)
    then show ?thesis using "1.IH"(1) a by simp
  next
    case b
    then have "isect_rel ((sa, la) # pa) pb r G"
      using isect_rel_skip [OF "1.prems"] ord by fastforce
    then show ?thesis using "1.IH"(2) b by simp
  next
    case eq
    obtain pa' pb' r' where e: "isect_equal pa pb (iset_put (sa, la) r) = (pa', pb', r')"
      by (metis prod_cases3)
    have "isect_rel pa' pb' r' G"
      using isect_equal_rel [OF isect_rel_equal e] "1.prems" eq(3) by simp
    then show ?thesis using "1.IH"(3) eq e by simp
  next
    case gt
    have "isect_rel ((sa, la) # pa) pb (iset_put (max sa sb, min (sa + la) (sb + lb) - max sa sb) r) G"
      using isect_rel_put [OF rel] gt pos by (simp add: isect_rel_commute max.commute min.commute)
    then show ?thesis using "1.IH"(4) gt pos by (auto simp: Let_def)
  next
    case le
    have "isect_rel pa ((sb, lb) # pb) (iset_put (max sa sb, min (sa + la) (sb + lb) - max sa sb) r) G"
      using isect_rel_put [OF "1.prems"] le pos by simp
    then show ?thesis using "1.IH"(5) le pos by (auto simp: Let_def)
  qed
qed (auto simp: isect_rel_def)

text \<open>The searching variant: the entries of \<open>l\<close> that end after \<open>off\<close> are the rest of the larger set.\<close>

abbreviation ends_after :: "nat \<Rightarrow> imap \<Rightarrow> imap" where
  "ends_after off \<equiv> filter (\<lambda>q. off < fst q + snd q)"

lemma find_inc_ends_after: "imap_ok l \<Longrightarrow> snd (find_inc off l) = ends_after off l"
proof -
  assume ok: "imap_ok l"
  obtain pre post where f: "find_inc off l = (pre, post)" by fastforce
  note fo = find_inc_ok [OF f ok]
  have "ends_after off pre = []" "ends_after off post = post"
    using fo(2,3) by (auto simp: filter_empty_conv intro!: filter_True)
  then show ?thesis using fo(1) f by simp
qed

lemma ends_after_mono: "off \<le> off' \<Longrightarrow> ends_after off' l = ends_after off' (ends_after off l)"
  by (auto intro: filter_cong)

lemma dropWhile_imap: "imap_ok ps \<Longrightarrow> dropWhile (\<lambda>p. fst p + snd p \<le> x) ps = ends_after x ps"
proof (induction ps)
  case (Cons p ps)
  show ?case
  proof (cases "fst p + snd p \<le> x")
    case False
    then have "ends_after x ps = ps" using Cons.prems by (fastforce intro!: filter_True)
    then show ?thesis using False by simp
  qed (use Cons in simp)
qed simp

lemma isect_equal_split:
  "isect_equal pa pb r = (pa', pb', r') \<Longrightarrow> \<exists>xs. pa = xs @ pa' \<and> pb = xs @ pb'"
proof (induction pa pb r rule: isect_equal.induct)
  case (1 x pa y pb r)
  then show ?case by (cases "x = y") (auto intro: exI [of _ "y # xs" for xs])
qed auto

lemma isect_rel_from:
  assumes "isect_rel ((s2, l2) # ps) B r G"
  shows "isect_rel ((s2, l2) # ps) (ends_after s2 B) r G"
proof -
  have "iv q \<inter> imap_set ((s2, l2) # ps) = {}" if "\<not> s2 < fst q + snd q" for q
    using that assms by (fastforce simp: isect_rel_def imap_set_iff)
  then show ?thesis by (intro isect_rel_filter [OF assms]) blast
qed

lemma isect_rel_advance:
  assumes "isect_rel ((s2, l2) # ps) (ends_after off l) r G" "off \<le> s2"
  shows "isect_rel ((s2, l2) # ps) (ends_after s2 l) r G"
  unfolding ends_after_mono [OF assms(2), of l] by (rule isect_rel_from [OF assms(1)])

lemma isect_rel_ends_after:
  assumes "isect_rel ps ((lf, ll) # pl) r G"
  shows "isect_rel (ends_after lf ps) ((lf, ll) # pl) r G"
proof -
  have "iv q \<inter> imap_set ((lf, ll) # pl) = {}" if "\<not> lf < fst q + snd q" for q
    using that assms by (fastforce simp: isect_rel_def imap_set_iff)
  then have "isect_rel ((lf, ll) # pl) (ends_after lf ps) r G"
    using assms by (intro isect_rel_filter) (auto simp: isect_rel_commute [of ps])
  then show ?thesis by (simp only: isect_rel_commute [of "ends_after lf ps"])
qed

definition asym_ok :: "imap \<Rightarrow> nat \<Rightarrow> imap \<Rightarrow> interval_set \<Rightarrow> nat set \<Rightarrow> bool" where
  "asym_ok l off ps r G \<longleftrightarrow>
     imap_ok l \<and> isect_rel ps (ends_after off l) r G \<and> (\<forall>p\<in>set ps. off < fst p + snd p)"

lemma asym_ok_advance:
  assumes "imap_ok l" "isect_rel ((s2, l2) # ps) (ends_after off l) r G" "off \<le> s2"
  shows "asym_ok l s2 ((s2, l2) # ps) r G"
  using assms isect_rel_advance [OF assms(2,3)] by (force simp: asym_ok_def isect_rel_def)

lemma length_ends_after:
  assumes "off \<le> off'"
  shows "length (ends_after off' l) \<le> length (ends_after off l)"
  unfolding ends_after_mono [OF assms, of l] by (rule length_filter_le)

text \<open>One round, on the first interval \<open>(sf, sl)\<close> of the smaller set that ends after \<open>lf\<close>.\<close>

definition asym_next ::
  "imap \<Rightarrow> nat \<Rightarrow> imap \<Rightarrow> interval_set option \<Rightarrow> nat set \<Rightarrow> bool" where
  "asym_next l off ps res G \<longleftrightarrow>
     (\<exists>r. res = Some r \<and> iset_inv r \<and> iset_set r = G) \<or>
     (\<exists>off' ps' r. res = isect_asym False off' off l ps' r \<and> asym_ok l off' ps' r G \<and> off < off' \<and>
        length ps' + length (ends_after off' l) < length ps + length (ends_after off l))"

lemma asym_next_done: "isect_rel [] pb r G \<Longrightarrow> asym_next l off ps (Some r) G"
  by (simp add: asym_next_def isect_rel_done)

lemma asym_next_call:
  "asym_ok l off' ps' r G \<Longrightarrow> off < off' \<Longrightarrow>
     length ps' + length (ends_after off' l) < length ps + length (ends_after off l) \<Longrightarrow>
     asym_next l off ps (isect_asym False off' off l ps' r) G"
  by (auto simp: asym_next_def)

lemma asym_next_consumed:
  assumes "imap_ok l" "isect_rel ((s2, l2) # ps'') (ends_after off l) r G" "off < s2"
    "length ((s2, l2) # ps'') < length ps"
  shows "asym_next l off ps (isect_asym False s2 off l ((s2, l2) # ps'') r) G"
  using assms length_ends_after [of off s2 l]
  by (intro asym_next_call asym_ok_advance [OF assms(1,2)]) linarith+

lemma asym_step_equal:
  assumes ok: "imap_ok l" and B: "ends_after off l = x # pl" and off: "off < fst x + snd x"
    and rel: "isect_rel (x # ps') (x # pl) r G" and len: "length (x # ps') \<le> length ps"
  shows "asym_next l off ps
    (case isect_equal ps' pl (iset_put x r) of
       ([], _, r') \<Rightarrow> Some r'
     | ((s2, l2) # ps'', _, r') \<Rightarrow> isect_asym False s2 off l ((s2, l2) # ps'') r') G"
proof -
  obtain ps2 pl2 r2 where e: "isect_equal ps' pl (iset_put x r) = (ps2, pl2, r2)" by (metis prod_cases3)
  have rel2: "isect_rel ps2 pl2 r2 G" using isect_equal_rel [OF isect_rel_equal [OF rel] e] .
  obtain xs where xs: "ps' = xs @ ps2" "pl = xs @ pl2" using isect_equal_split [OF e] by blast
  show ?thesis
  proof (cases ps2)
    case Nil
    then show ?thesis using rel2 e by (auto intro: asym_next_done)
  next
    case (Cons q ps'')
    obtain s2 l2 where q: "q = (s2, l2)" by fastforce
    have lt: "fst y + snd y < s2" if "y \<in> set (x # xs)" for y
      using that rel xs Cons q by (auto simp: isect_rel_def)
    have "ends_after s2 l = ends_after s2 pl2"
    proof -
      have "ends_after s2 ((x # xs) @ pl2) = ends_after s2 pl2"
        using lt by (simp only: filter_append) (auto simp: filter_empty_conv dest: less_asym)
      then show ?thesis
        using ends_after_mono [of off s2 l] off lt [of x] B xs by simp
    qed
    then have "isect_rel ps2 (ends_after s2 l) r2 G"
      using isect_rel_from [of s2 l2 ps'' pl2 r2 G] rel2 Cons q by simp
    moreover from this have "\<forall>p\<in>set ps2. s2 < fst p + snd p"
      using Cons q by (fastforce simp: isect_rel_def)
    ultimately have "asym_ok l s2 ps2 r2 G" using ok by (simp add: asym_ok_def)
    then show ?thesis
      using e Cons q xs len lt [of x] off length_ends_after [of off s2 l]
      by (auto intro!: asym_next_call)
  qed
qed

lemma asym_step_overlap:
  fixes sf sl lf ll r
  defines "r' \<equiv> iset_put (max sf lf, min (sf + sl) (lf + ll) - max sf lf) r"
  assumes ok: "imap_ok l" and B: "ends_after off l = (lf, ll) # pl" and off: "off < sf + sl" "off < lf + ll"
    and rel: "isect_rel ((sf, sl) # ps') ((lf, ll) # pl) r G" and len: "length ((sf, sl) # ps') \<le> length ps"
    and ov: "lf < sf + sl" "sf < lf + ll"
  shows "asym_next l off ps
    (if \<not> min (sf + sl) (lf + ll) > max sf lf then None
     else if sf + sl \<le> lf + ll then
       (case ps' of [] \<Rightarrow> Some r' | (s2, l2) # ps'' \<Rightarrow> isect_asym False s2 off l ps' r')
     else isect_asym False (lf + ll) off l ((sf, sl) # ps') r') G"
proof -
  have pos: "0 < sl" "0 < ll" and after: "\<forall>q\<in>set ps'. sf + sl < fst q" "\<forall>q\<in>set pl. lf + ll < fst q"
    using rel by (simp_all add: isect_rel_def)
  have ov': "max sf lf < min (sf + sl) (lf + ll)" using ov pos by simp
  show ?thesis
  proof (cases "sf + sl \<le> lf + ll")
    case True
    have rel': "isect_rel ps' ((lf, ll) # pl) r' G"
      unfolding r'_def by (rule isect_rel_put [OF rel ov' True])
    show ?thesis
    proof (cases ps')
      case Nil
      then show ?thesis using rel' ov' True asym_next_done by auto
    next
      case (Cons q ps'')
      obtain s2 l2 where q: "q = (s2, l2)" by fastforce
      have "off < s2" using after(1) Cons q off by auto
      then show ?thesis
        using asym_next_consumed [of l s2 l2 ps'' off r' G ps] ok rel' B Cons q ov' True len by simp
    qed
  next
    case False
    have "isect_rel pl ((sf, sl) # ps') r' G"
      using isect_rel_put [of lf ll pl sf sl ps' r G] rel ov' False
      by (simp add: isect_rel_commute [of "(lf, ll) # pl"] r'_def max.commute min.commute)
    then have "isect_rel ((sf, sl) # ps') pl r' G" by (simp only: isect_rel_commute [of pl])
    moreover have "ends_after (lf + ll) ((lf, ll) # pl) = pl"
      using after(2) by (fastforce intro!: filter_True)
    moreover have "\<forall>p\<in>set ((sf, sl) # ps'). lf + ll < fst p + snd p" using after(1) False by auto
    ultimately have "asym_ok l (lf + ll) ((sf, sl) # ps') r' G" "ends_after (lf + ll) l = pl"
      using ends_after_mono [of off "lf + ll" l] off B ok by (simp_all add: asym_ok_def)
    then show ?thesis using False ov' off B len by (auto intro!: asym_next_call)
  qed
qed

lemma isect_asym_round:
  assumes aok: "asym_ok l off ps r G" and first: "first \<or> prev < off"
  shows "asym_next l off ps (isect_asym first off prev l ps r) G"
proof -
  have ok: "imap_ok l" and rel: "isect_rel ps (ends_after off l) r G"
    and ends: "\<forall>p\<in>set ps. off < fst p + snd p" and okps: "imap_ok ps"
    using aok by (auto simp: asym_ok_def isect_rel_def)
  have go: "(\<not> first \<and> \<not> prev < off) = False" using first by blast
  note unfold = isect_asym.simps [of first off prev l ps r] find_inc_ends_after [OF ok]
    dropWhile_imap [OF okps] go if_False
  show ?thesis
  proof (cases "ends_after off l")
    case Nil
    then show ?thesis
      using rel first asym_next_done [of ps r G] by (auto simp: unfold isect_rel_commute [of _ "[]"])
  next
    case (Cons b pl)
    then obtain lf ll where B: "ends_after off l = (lf, ll) # pl" by (cases b) auto
    have off: "off < lf + ll" using B by (auto simp: filter_eq_Cons_iff)
    have rel1: "isect_rel (ends_after lf ps) ((lf, ll) # pl) r G"
      using isect_rel_ends_after rel B by simp
    show ?thesis
    proof (cases "ends_after lf ps")
      case Nil
      then show ?thesis using rel1 first asym_next_done by (auto simp: unfold B)
    next
      case (Cons a ps')
      then obtain sf sl where A: "ends_after lf ps = (sf, sl) # ps'" by (cases a) auto
      have mem: "(sf, sl) \<in> set ps" "lf < sf + sl" using A by (auto simp: filter_eq_Cons_iff)
      have offs: "off < sf + sl" using ends mem by auto
      have rel2: "isect_rel ((sf, sl) # ps') ((lf, ll) # pl) r G" using rel1 A by simp
      have len: "length ((sf, sl) # ps') \<le> length ps" using A by (metis length_filter_le)
      show ?thesis
      proof (cases "lf + ll \<le> sf")
        case True
        have "length (ends_after sf l) < length (ends_after off l)"
          using True off ends_after_mono [of off sf l] B
          by (simp add: less_Suc_eq_le length_filter_le)
        moreover have "asym_ok l sf ((sf, sl) # ps') r G"
          using asym_ok_advance [OF ok, of sf sl ps' off r G] rel2 B True off by simp
        ultimately show ?thesis
          using first True off len by (auto simp: unfold B A intro!: asym_next_call)
      next
        case far: False
        show ?thesis
        proof (cases "(sf, sl) = (lf, ll)")
          case True
          then show ?thesis
            using asym_step_equal [OF ok B, of ps' r G ps] rel2 off far len by (simp add: unfold B A)
        next
          case False
          then have ne: "((sf, sl) = (lf, ll)) = False" by blast
          show ?thesis
            using asym_step_overlap [OF ok B offs off rel2 len] far mem
            by (simp add: unfold B A ne del: prod.inject)
        qed
      qed
    qed
  qed
qed

lemma isect_asym_ok:
  "asym_ok l off ps r G \<Longrightarrow> first \<or> prev < off \<Longrightarrow>
     \<exists>r'. isect_asym first off prev l ps r = Some r' \<and> iset_inv r' \<and> iset_set r' = G"
proof (induction "length ps + length (ends_after off l)" arbitrary: ps off r first prev rule: less_induct)
  case less
  from isect_asym_round [OF less.prems] show ?case
    unfolding asym_next_def using less.hyps by (elim disjE exE conjE) auto
qed

lemma isect_rel_start: "imap_ok a \<Longrightarrow> imap_ok b \<Longrightarrow> isect_rel a b iset_empty (imap_set a \<inter> imap_set b)"
  by (simp add: isect_rel_def) (simp add: iset_empty_def)

lemma intersection_of_ok:
  assumes "iset_inv a" "iset_inv b"
  shows "\<exists>r. intersection_of a b = Some r \<and> iset_inv r \<and> iset_set r = iset_set a \<inter> iset_set b"
proof -
  obtain s l where sl: "(if is_size a < is_size b then (a, b) else (b, a)) = (s, l)" by fastforce
  have inv: "iset_inv s" "iset_inv l" and set: "iset_set s \<inter> iset_set l = iset_set a \<inter> iset_set b"
    using sl assms by (auto split: if_splits)
  have ok: "imap_ok (is_m s)" "imap_ok (is_m l)" using inv by auto
  consider (zero) "is_size s = 0" | (asym) "is_size s \<noteq> 0" "is_size l div is_size s \<ge> 10"
    | (sym) "is_size s \<noteq> 0" "\<not> is_size l div is_size s \<ge> 10" by blast
  then show ?thesis
  proof cases
    case zero
    then have "iset_set s = {}" using iset_size_card [OF inv(1)] by (simp add: iset_set_def)
    then show ?thesis using zero sl set by (auto simp: intersection_of_def)
  next
    case asym
    then have "is_m s \<noteq> []" using inv(1) by (auto simp: iset_inv_def)
    then obtain sf sn ps where m: "is_m s = (sf, sn) # ps" by (cases "is_m s") auto
    have "isect_rel (is_m s) (ends_after sf (is_m l)) iset_empty (iset_set a \<inter> iset_set b)"
      using isect_rel_from [of sf sn ps "is_m l"] isect_rel_start [OF ok] m set by (simp add: iset_set_def)
    then have "asym_ok (is_m l) sf (is_m s) iset_empty (iset_set a \<inter> iset_set b)"
      using ok m by (auto simp: asym_ok_def)
    from isect_asym_ok [OF this, of True 0] show ?thesis
      using sl asym m by (simp add: intersection_of_def)
  next
    case sym
    have "isect_rel (is_m a) (is_m b) iset_empty (iset_set a \<inter> iset_set b)"
      using isect_rel_start assms by (auto simp: iset_set_def)
    from isect_sym_ok [OF this] show ?thesis using sl sym by (simp add: intersection_of_def)
  qed
qed

lemma union_of_ok:
  assumes "iset_inv a" "iset_inv b"
  shows "\<exists>r. union_of a b = Some r \<and> iset_inv r \<and> iset_set r = iset_set a \<union> iset_set b"
proof -
  obtain ab where ab: "intersection_of a b = Some ab" "iset_inv ab" "iset_set ab = iset_set a \<inter> iset_set b"
    using intersection_of_ok [OF assms] by blast
  obtain m1 where m1: "iset_subtract ab a = Some m1" "iset_inv m1" "iset_set m1 = iset_set a - iset_set ab"
    using iset_subtract_ok [OF assms(1) ab(2)] ab by auto
  obtain r where "iset_insert_set b m1 = Some r" "iset_inv r" "iset_set r = iset_set m1 \<union> iset_set b"
    using iset_insert_set_ok [OF m1(2) assms(2)] m1(3) ab(3) by auto
  then show ?thesis using ab m1 by (auto simp: union_of_def)
qed

section \<open>Subset tests\<close>

fun drop_equal :: "imap \<Rightarrow> imap \<Rightarrow> imap \<times> imap" where
  "drop_equal (x # pa) (y # pb) = (if x = y then drop_equal pa pb else (x # pa, y # pb))"
| "drop_equal pa pb = (pa, pb)"

lemma drop_equal_split: "drop_equal pa pb = (pa', pb') \<Longrightarrow> \<exists>xs. pa = xs @ pa' \<and> pb = xs @ pb'"
proof (induction pa pb rule: drop_equal.induct)
  case (1 x pa y pb)
  then show ?case by (cases "x = y") (auto intro: exI [of _ "y # xs" for xs])
qed auto

function subset_size_sym :: "imap \<Rightarrow> imap \<Rightarrow> bool" where
  "subset_size_sym [] pb = True"
| "subset_size_sym (a # pa) pb =
     (case dropWhile (\<lambda>q. fst q + snd q \<le> fst a) pb of
        [] \<Rightarrow> False
      | b # pb' \<Rightarrow>
          (if a = b then (case drop_equal pa pb' of (pa', pb'') \<Rightarrow> subset_size_sym pa' pb'')
           else if fst a < fst b then False
           else if fst a + snd a > fst b + snd b then False
           else subset_size_sym pa (b # pb')))"
  by pat_completeness auto
termination
  by (relation "measure (\<lambda>(pa, _). length pa)") (auto split: prod.split dest: drop_equal_split)

declare subset_size_sym.simps(2) [simp del]

definition subset_of :: "interval_set \<Rightarrow> interval_set \<Rightarrow> bool option" where
  "subset_of a big =
     (if is_size a = 0 then Some True
      else if is_size a > is_size big then Some False
      else do {
        ea \<leftarrow> range_end a;
        eb \<leftarrow> range_end big;
        if ea > eb then Some False
        else if is_size big div is_size a < 10 then Some (subset_size_sym (is_m a) (is_m big))
        else Some (list_all (\<lambda>(start, len). iset_contains_range start len big) (is_m a))
      })"

lemma subset_ends_after:
  assumes "imap_ok (a # pa)"
  shows "imap_set (a # pa) \<subseteq> imap_set pb \<longleftrightarrow> imap_set (a # pa) \<subseteq> imap_set (ends_after (fst a) pb)"
proof -
  have "fst a \<le> x" if "x \<in> imap_set (a # pa)" for x
    using that assms by (fastforce simp: imap_set_iff)
  moreover have "x \<in> imap_set pb \<longleftrightarrow> x \<in> imap_set (ends_after (fst a) pb)" if "fst a \<le> x" for x
  proof
    assume "x \<in> imap_set pb"
    then obtain q where "q \<in> set pb" "x \<in> iv q" by (auto simp: imap_set_def)
    moreover from this have "q \<in> set (ends_after (fst a) pb)" using that by simp
    ultimately show "x \<in> imap_set (ends_after (fst a) pb)" unfolding imap_set_def by blast
  qed (unfold imap_set_def, erule subsetD [OF UN_mono [OF filter_is_subset subset_refl]])
  ultimately show ?thesis unfolding subset_iff by metis
qed

lemma subset_prefix:
  "imap_ok (xs @ pa) \<Longrightarrow> imap_ok (xs @ pb) \<Longrightarrow>
     imap_set (xs @ pa) \<subseteq> imap_set (xs @ pb) \<longleftrightarrow> imap_set pa \<subseteq> imap_set pb"
proof (induction xs)
  case (Cons x xs)
  have "iv x \<inter> imap_set (xs @ pa) = {}" using Cons.prems(1) imap_head_disjoint [of x "xs @ pa"] by simp
  then have "imap_set ((x # xs) @ pa) \<subseteq> imap_set ((x # xs) @ pb) \<longleftrightarrow> imap_set (xs @ pa) \<subseteq> imap_set (xs @ pb)"
    by auto
  then show ?case using Cons by simp
qed simp

lemma subset_head:
  assumes "imap_ok (a # pa)" "imap_ok (b # pb)" "fst a < fst b + snd b"
  shows "imap_set (a # pa) \<subseteq> imap_set (b # pb) \<longleftrightarrow>
    fst b \<le> fst a \<and> fst a + snd a \<le> fst b + snd b \<and> imap_set pa \<subseteq> imap_set (b # pb)"
proof -
  have "iv a \<subseteq> imap_set (b # pb) \<longleftrightarrow> fst b \<le> fst a \<and> fst a + snd a \<le> fst b + snd b"
  proof -
    have "\<forall>p\<in>set pb. \<not> fst p \<le> fst a" using assms by fastforce
    then show ?thesis using assms(1) imap_range_iff [OF assms(2), of "snd a" "fst a"] by simp
  qed
  then show ?thesis by simp
qed

lemma subset_size_sym_iff:
  "imap_ok pa \<Longrightarrow> imap_ok pb \<Longrightarrow> subset_size_sym pa pb \<longleftrightarrow> imap_set pa \<subseteq> imap_set pb"
proof (induction pa pb rule: subset_size_sym.induct)
  case (2 a pa pb)
  have dw: "dropWhile (\<lambda>q. fst q + snd q \<le> fst a) pb = ends_after (fst a) pb"
    by (rule dropWhile_imap [OF "2.prems"(2)])
  note step = subset_size_sym.simps(2) [of a pa pb, unfolded dw]
    and sub = subset_ends_after [OF "2.prems"(1), of pb]
  have mem: "fst a \<in> imap_set (a # pa)" using "2.prems"(1) by simp
  show ?case
  proof (cases "ends_after (fst a) pb")
    case Nil
    then show ?thesis using sub step mem by auto
  next
    case (Cons b pb')
    have ok: "imap_ok (b # pb')"
      using "2.prems"(2) Cons by (metis dw dropWhile_eq_drop imap_ok_simps(3) append_take_drop_id)
    have hd: "fst a < fst b + snd b" using Cons by (auto simp: filter_eq_Cons_iff)
    obtain pa' pb'' where e: "drop_equal pa pb' = (pa', pb'')" by fastforce
    obtain xs where xs: "pa = xs @ pa'" "pb' = xs @ pb''" using drop_equal_split [OF e] by blast
    show ?thesis
    proof (cases "a = b")
      case True
      have "subset_size_sym pa' pb'' \<longleftrightarrow> imap_set pa' \<subseteq> imap_set pb''"
        using "2.prems" ok xs by (intro "2.IH"(1) [OF Cons [folded dw] True e [symmetric]]) auto
      also have "\<dots> \<longleftrightarrow> imap_set (a # pa) \<subseteq> imap_set (b # pb')"
        using subset_prefix [of "a # xs" pa' pb''] "2.prems" ok xs True by simp
      finally show ?thesis using sub Cons step True e by simp
    next
      case False
      have "subset_size_sym pa (b # pb') \<longleftrightarrow> imap_set pa \<subseteq> imap_set (b # pb')"
        if "\<not> fst a < fst b" "\<not> fst a + snd a > fst b + snd b"
        using "2.prems" ok that by (intro "2.IH"(2) [OF Cons [folded dw] False]) auto
      then show ?thesis
        unfolding sub unfolding Cons subset_head [OF "2.prems"(1) ok hd] step
        using False by auto
    qed
  qed
qed simp

lemma range_end_Max:
  assumes "iset_inv s" "iset_set s \<noteq> {}"
  shows "range_end s = Some (Suc (Max (iset_set s)))"
proof (cases "is_m s" rule: rev_cases)
  case (snoc m p)
  have "fst p + snd p - 1 \<in> iset_set s"
    using assms(1) snoc by (auto simp: iset_set_def iset_inv_def)
  moreover have "x \<le> fst p + snd p - 1" if "x \<in> iset_set s" for x
    using that assms(1) snoc by (fastforce simp: iset_set_def iset_inv_def imap_set_iff)
  ultimately have "Max (iset_set s) = fst p + snd p - 1" by (intro Max_eqI) (auto simp: iset_set_def)
  moreover have "0 < snd p" using assms(1) snoc by (simp add: iset_inv_def)
  ultimately show ?thesis using snoc by (simp add: range_end_def)
qed (use assms in \<open>simp add: iset_set_def\<close>)

lemma subset_of_ok:
  assumes "iset_inv a" "iset_inv b"
  shows "subset_of a b = Some (iset_set a \<subseteq> iset_set b)"
proof -
  have fin: "finite (iset_set a)" "finite (iset_set b)" by (simp_all add: iset_set_def)
  consider (empty) "is_size a = 0" | (big) "is_size a \<noteq> 0" "is_size a > is_size b"
    | (cmp) "is_size a \<noteq> 0" "\<not> is_size a > is_size b" by blast
  then show ?thesis
  proof cases
    case empty
    then show ?thesis using iset_size_card [OF assms(1)] fin by (simp add: subset_of_def)
  next
    case big
    then have "\<not> iset_set a \<subseteq> iset_set b"
      using iset_size_card assms card_mono [OF fin(2), of "iset_set a"] by auto
    then show ?thesis using big by (simp add: subset_of_def)
  next
    case cmp
    then have ne: "iset_set a \<noteq> {}" "iset_set b \<noteq> {}"
      using iset_size_card [OF assms(1)] iset_size_card [OF assms(2)] by auto
    have ends: "\<not> iset_set a \<subseteq> iset_set b" if "Max (iset_set a) > Max (iset_set b)"
      using that Max_mono [OF _ ne(1) fin(2)] by fastforce
    have "list_all (\<lambda>(start, len). iset_contains_range start len b) (is_m a) \<longleftrightarrow> iset_set a \<subseteq> iset_set b"
    proof -
      have "(case p of (start, len) \<Rightarrow> iset_contains_range start len b) \<longleftrightarrow> iv p \<subseteq> iset_set b"
        if "p \<in> set (is_m a)" for p
        using iset_contains_range_iff [OF assms(2), of "snd p" "fst p"]
          imap_ok_pos [OF iset_inv_ok [OF assms(1)] that] by (simp add: case_prod_beta)
      then show ?thesis by (simp add: list_all_iff iset_set_def [of a] imap_set_def UN_subset_iff)
    qed
    moreover have "subset_size_sym (is_m a) (is_m b) \<longleftrightarrow> iset_set a \<subseteq> iset_set b"
      using subset_size_sym_iff assms by (auto simp: iset_set_def)
    ultimately show ?thesis
      using cmp ends range_end_Max [OF assms(1) ne(1)] range_end_Max [OF assms(2) ne(2)]
      by (auto simp: subset_of_def)
  qed
qed

section \<open>Extracting a range or a number of elements\<close>

text \<open>\<^verbatim>\<open>subset_of(other, start, end)\<close>; \<open>subset_range_loop\<close> is its loop, \<open>en\<close> the parameter \<^verbatim>\<open>end\<close>.\<close>

fun subset_range_loop :: "nat \<Rightarrow> nat \<Rightarrow> imap \<Rightarrow> interval_set \<Rightarrow> interval_set option" where
  "subset_range_loop start en [] r = Some r"
| "subset_range_loop start en ((pf, pn) # ps) r =
     (if \<not> pf \<ge> start then None
      else if pf \<ge> en then Some r
      else if pf + pn \<ge> en then iset_insert pf (en - pf) r
      else iset_insert pf pn r \<bind> subset_range_loop start en ps)"

definition subset_of_range :: "interval_set \<Rightarrow> nat \<Rightarrow> nat \<Rightarrow> interval_set option" where
  "subset_of_range other start en =
     (if \<not> en \<ge> start then None
      else if en = start then Some iset_empty
      else
        (case snd (find_inc start (is_m other)) of
           [] \<Rightarrow> Some iset_empty
         | (pf, pn) # ps \<Rightarrow>
             (if pf < start then
                (if pf + pn \<ge> en then iset_insert start (en - start) iset_empty
                 else iset_insert start (pf + pn - start) iset_empty
                        \<bind> subset_range_loop start en ps)
              else subset_range_loop start en ((pf, pn) # ps) iset_empty)))"

fun span_loop :: "nat \<Rightarrow> imap \<Rightarrow> interval_set \<Rightarrow> interval_set option" where
  "span_loop len [] r = Some r"
| "span_loop len ((pf, pn) # ps) r =
     (if \<not> len > 0 then Some r
      else if pn < len then iset_insert pf pn r \<bind> span_loop (len - pn) ps
      else iset_insert pf len r)"

definition span_of :: "interval_set \<Rightarrow> nat \<Rightarrow> nat \<Rightarrow> interval_set option" where
  "span_of other start len =
     (case snd (find_inc start (is_m other)) of
        [] \<Rightarrow> Some iset_empty
      | (pf, pn) # ps \<Rightarrow>
          (if pf < start then
             (if pf + pn < start then Some iset_empty
              else if pf + pn < start + len then
                (let howmuch = pn - (start - pf) in
                 iset_insert start howmuch iset_empty \<bind> span_loop (len - howmuch) ps)
              else iset_insert start len iset_empty)
           else span_loop len ((pf, pn) # ps) iset_empty))"

lemma subset_range_loop_ok:
  "imap_ok ps \<Longrightarrow> \<forall>p\<in>set ps. start \<le> fst p \<Longrightarrow> iset_inv r \<Longrightarrow> iset_set r \<inter> imap_set ps = {} \<Longrightarrow>
     \<exists>r'. subset_range_loop start en ps r = Some r' \<and> iset_inv r'
       \<and> iset_set r' = iset_set r \<union> (imap_set ps \<inter> {..<en})"
proof (induction start en ps r rule: subset_range_loop.induct)
  case (2 start en pf pn ps r)
  have after: "\<forall>x\<in>imap_set ps. pf + pn < x" using "2.prems"(1) by (fastforce simp: imap_set_iff)
  have pn: "0 < pn" using "2.prems"(1) by simp
  consider (stop) "en \<le> pf" | (cut) "pf < en" "en \<le> pf + pn" | (whole) "pf + pn < en" by linarith
  then show ?case
  proof cases
    case stop
    then have "imap_set ((pf, pn) # ps) \<inter> {..<en} = {}" using after by fastforce
    then show ?thesis using stop "2.prems" by auto
  next
    case cut
    have "{pf..<pf + (en - pf)} \<inter> iset_set r = {}" using "2.prems"(4) cut by auto
    from iset_insert_ok [OF "2.prems"(3) _ this] obtain r' where
      "iset_insert pf (en - pf) r = Some r'" "iset_inv r'" "iset_set r' = iset_set r \<union> {pf..<en}"
      using cut by auto
    moreover have "imap_set ((pf, pn) # ps) \<inter> {..<en} = {pf..<en}" using after cut by fastforce
    ultimately show ?thesis using cut "2.prems" by auto
  next
    case whole
    have "{pf..<pf + pn} \<inter> iset_set r = {}" using "2.prems"(4) by auto
    from iset_insert_ok [OF "2.prems"(3) pn this] obtain r1 where
      r1: "iset_insert pf pn r = Some r1" "iset_inv r1" "iset_set r1 = iset_set r \<union> {pf..<pf + pn}"
      by blast
    have "iset_set r1 \<inter> imap_set ps = {}" using "2.prems"(4) r1(3) after by fastforce
    with "2.IH" [of r1] "2.prems" whole r1 show ?thesis by auto
  qed
qed simp

lemma find_inc_rest:
  assumes "iset_inv s"
  shows "snd (find_inc start (is_m s)) = [] \<Longrightarrow> iset_set s \<inter> {start..} = {}"
    and "snd (find_inc start (is_m s)) = (pf, pn) # ps \<Longrightarrow>
      imap_ok ((pf, pn) # ps) \<and> start < pf + pn \<and> (\<forall>x\<in>imap_set ps. pf + pn < x) \<and>
      iset_set s \<inter> {start..} = {max start pf..<pf + pn} \<union> imap_set ps"
proof -
  obtain pre post where f: "find_inc start (is_m s) = (pre, post)" by fastforce
  have ok: "imap_ok (is_m s)" using assms by auto
  note fo = find_inc_ok [OF f ok]
  have low: "imap_set pre \<inter> {start..} = {}" using fo(2) by (fastforce simp: imap_set_iff)
  show "iset_set s \<inter> {start..} = {}" if "snd (find_inc start (is_m s)) = []"
    using that low fo(1) f by (simp add: iset_set_def)
  show "imap_ok ((pf, pn) # ps) \<and> start < pf + pn \<and> (\<forall>x\<in>imap_set ps. pf + pn < x) \<and>
      iset_set s \<inter> {start..} = {max start pf..<pf + pn} \<union> imap_set ps"
    if "snd (find_inc start (is_m s)) = (pf, pn) # ps"
  proof -
    have post: "post = (pf, pn) # ps" using that f by simp
    have okp: "imap_ok ((pf, pn) # ps)" and st: "start < pf + pn" using ok fo post by auto
    have after: "\<forall>x\<in>imap_set ps. pf + pn < x" using okp by (fastforce simp: imap_set_iff)
    have "iset_set s \<inter> {start..} = ({pf..<pf + pn} \<union> imap_set ps) \<inter> {start..}"
      using low fo(1) post by (auto simp: iset_set_def)
    also have "\<dots> = {max start pf..<pf + pn} \<union> imap_set ps" using after st by force
    finally show ?thesis using okp st after by blast
  qed
qed

lemma subset_of_range_ok:
  assumes inv: "iset_inv other" and le: "start \<le> en"
  shows "\<exists>r. subset_of_range other start en = Some r \<and> iset_inv r
    \<and> iset_set r = iset_set other \<inter> {start..<en}"
proof -
  have cut: "iset_set other \<inter> {start..<en} = iset_set other \<inter> {start..} \<inter> {..<en}" by auto
  show ?thesis
  proof (cases "snd (find_inc start (is_m other))")
    case Nil
    then show ?thesis using find_inc_rest(1) [OF inv Nil] cut le by (simp add: subset_of_range_def)
  next
    case (Cons p ps)
    obtain pf pn where p: "p = (pf, pn)" by fastforce
    note c = Cons [unfolded p]
    have okp: "imap_ok ((pf, pn) # ps)" and st: "start < pf + pn"
      and after: "\<forall>x\<in>imap_set ps. pf + pn < x"
      and rest: "iset_set other \<inter> {start..} = {max start pf..<pf + pn} \<union> imap_set ps"
      using find_inc_rest(2) [OF inv c] by blast+
    have ge: "\<forall>q\<in>set ps. start \<le> fst q" using okp st by fastforce
    show ?thesis
    proof (cases "pf < start")
      case True
      have head: "\<exists>r. iset_insert start n iset_empty = Some r \<and> iset_inv r \<and> iset_set r = {start..<start + n}"
        if "0 < n" for n using iset_insert_ok [of iset_empty n start] that by simp
      obtain r1 where r1: "iset_insert start (pf + pn - start) iset_empty = Some r1" "iset_inv r1"
          "iset_set r1 = {start..<pf + pn}"
        using head [of "pf + pn - start"] st by auto
      have "iset_set r1 \<inter> imap_set ps = {}" using r1(3) after by fastforce
      from subset_range_loop_ok [OF _ ge r1(2) this, of en] okp obtain r where
        r: "subset_range_loop start en ps r1 = Some r" "iset_inv r"
          "iset_set r = {start..<pf + pn} \<union> imap_set ps \<inter> {..<en}" using r1 by auto
      have e1: "({start..<pf + pn} \<union> imap_set ps) \<inter> {..<en} = {start..<en}" if "en \<le> pf + pn"
        using that after by fastforce
      have e2: "({start..<pf + pn} \<union> imap_set ps) \<inter> {..<en} = iset_set r" if "pf + pn < en"
        using that r(3) by auto
      have "max start pf = start" using True by simp
      note goal = cut [unfolded rest this]
      consider "en = start" | "start < en" "en \<le> pf + pn" | "start < en" "pf + pn < en"
        using le by linarith
      then show ?thesis
      proof cases
        case 1
        then show ?thesis unfolding goal using e1 st by (simp add: subset_of_range_def)
      next
        case 2
        then show ?thesis unfolding goal using e1 True c head [of "en - start"] by (simp add: subset_of_range_def)
      next
        case 3
        then show ?thesis unfolding goal using e2 True c r r1 by (simp add: subset_of_range_def)
      qed
    next
      case False
      obtain r where "subset_range_loop start en ((pf, pn) # ps) iset_empty = Some r" "iset_inv r"
          "iset_set r = imap_set ((pf, pn) # ps) \<inter> {..<en}"
        using subset_range_loop_ok [OF okp _ iset_empty_inv(1), of start en] ge False by auto
      moreover have "imap_set ((pf, pn) # ps) \<inter> {..<start} = {}"
        using False after by fastforce
      moreover have "max start pf = pf" using False by simp
      ultimately show ?thesis
        unfolding cut rest using False c le
        by (cases "en = start") (simp_all add: subset_of_range_def)
    qed
  qed
qed

text \<open>\<open>initial_part n A T\<close>: \<open>T\<close> holds the \<open>n\<close> smallest elements of \<open>A\<close>, or all if there are fewer.\<close>

definition initial_part :: "nat \<Rightarrow> nat set \<Rightarrow> nat set \<Rightarrow> bool" where
  "initial_part n A T \<longleftrightarrow> T \<subseteq> A \<and> card T = min n (card A) \<and> (\<forall>x\<in>T. \<forall>y\<in>A. y < x \<longrightarrow> y \<in> T)"

lemma initial_part_Un:
  assumes "initial_part n A T" "finite A" "finite B" "\<forall>x\<in>B. \<forall>y\<in>A. x < y"
  shows "initial_part (card B + n) (B \<union> A) (B \<union> T)"
proof -
  have sub: "T \<subseteq> A" using assms(1) by (simp add: initial_part_def)
  have "B \<inter> A = {}" using assms(4) by blast
  moreover from this sub have "B \<inter> T = {}" by blast
  moreover have "finite T" by (rule finite_subset [OF sub assms(2)])
  ultimately have "card (B \<union> T) = min (card B + n) (card (B \<union> A))"
    using assms(1-3) by (simp add: initial_part_def card_Un_disjoint)
  moreover have "y \<in> B \<union> T" if "x \<in> B \<union> T" "y \<in> B \<union> A" "y < x" for x y
  proof (cases "x \<in> B")
    case True
    then have "y \<notin> A" using that(3) assms(4) by (meson less_asym)
    then show ?thesis using that(2) by blast
  next
    case False
    then show ?thesis using that assms(1) by (auto simp: initial_part_def)
  qed
  moreover have "B \<union> T \<subseteq> B \<union> A" using sub by blast
  ultimately show ?thesis unfolding initial_part_def by metis
qed

lemma initial_part_range:
  assumes "a + n \<le> b" "finite A" "\<forall>y\<in>A. b \<le> y"
  shows "initial_part n ({a..<b} \<union> A) {a..<a + n}"
proof -
  have "card {a..<b} \<le> card ({a..<b} \<union> A)" using assms(2) by (intro card_mono) auto
  then show ?thesis using assms by (auto simp: initial_part_def)
qed

lemma span_loop_ok:
  "imap_ok ps \<Longrightarrow> iset_inv r \<Longrightarrow> iset_set r \<inter> imap_set ps = {} \<Longrightarrow>
     \<exists>r' T. span_loop len ps r = Some r' \<and> iset_inv r' \<and> iset_set r' = iset_set r \<union> T
       \<and> initial_part len (imap_set ps) T"
proof (induction len ps r rule: span_loop.induct)
  case (2 len pf pn ps r)
  have after: "\<forall>x\<in>imap_set ps. pf + pn < x" using "2.prems"(1) by (fastforce simp: imap_set_iff)
  have dis: "{pf..<pf + pn} \<inter> iset_set r = {}" and pn: "0 < pn" using "2.prems" by auto
  consider (stop) "len = 0" | (whole) "0 < len" "pn < len" | (cut) "0 < len" "len \<le> pn" by linarith
  then show ?case
  proof cases
    case whole
    from iset_insert_ok [OF "2.prems"(2) pn dis] obtain r1 where
      r1: "iset_insert pf pn r = Some r1" "iset_inv r1" "iset_set r1 = iset_set r \<union> {pf..<pf + pn}"
      by blast
    have "{pf..<pf + pn} \<inter> imap_set ps = {}" using imap_head_disjoint [OF "2.prems"(1)] by simp
    then have "iset_set r1 \<inter> imap_set ps = {}" using "2.prems"(3) r1(3) by auto
    then obtain r' T where r': "span_loop (len - pn) ps r1 = Some r'" "iset_inv r'"
        "iset_set r' = iset_set r1 \<union> T" "initial_part (len - pn) (imap_set ps) T"
      using "2.IH" [of r1, OF _ whole(2) r1(1) _ r1(2)] "2.prems"(1) whole(1) by auto
    have "\<forall>x\<in>{pf..<pf + pn}. \<forall>y\<in>imap_set ps. x < y" using after by (auto intro: less_trans)
    from initial_part_Un [OF r'(4) imap_set_finite finite_atLeastLessThan this] whole
    have "initial_part len ({pf..<pf + pn} \<union> imap_set ps) ({pf..<pf + pn} \<union> T)" by simp
    then show ?thesis
      using whole r1 r' by (intro exI [of _ r'] exI [of _ "{pf..<pf + pn} \<union> T"]) (simp add: Un_assoc)
  next
    case cut
    have "{pf..<pf + len} \<subseteq> {pf..<pf + pn}" using cut by auto
    then have "{pf..<pf + len} \<inter> iset_set r = {}" using dis by blast
    from iset_insert_ok [OF "2.prems"(2) cut(1) this] obtain r' where
      r': "iset_insert pf len r = Some r'" "iset_inv r'" "iset_set r' = iset_set r \<union> {pf..<pf + len}" by blast
    have "initial_part len ({pf..<pf + pn} \<union> imap_set ps) {pf..<pf + len}"
      using cut after by (intro initial_part_range) (auto intro: less_imp_le)
    then show ?thesis using cut r' by (intro exI [of _ r'] exI [of _ "{pf..<pf + len}"]) simp
  next
    case stop
    then show ?thesis
      using "2.prems" by (intro exI [of _ r] exI [of _ "{}"]) (simp add: initial_part_def)
  qed
qed (simp add: initial_part_def)

lemma span_of_ok:
  assumes inv: "iset_inv other" and len: "0 < len"
  shows "\<exists>r. span_of other start len = Some r \<and> iset_inv r
    \<and> initial_part len (iset_set other \<inter> {start..}) (iset_set r)"
proof (cases "snd (find_inc start (is_m other))")
  case Nil
  then show ?thesis
    using find_inc_rest(1) [OF inv Nil] by (simp add: span_of_def initial_part_def)
next
  case (Cons p ps)
  obtain pf pn where p: "p = (pf, pn)" by fastforce
  note c = Cons [unfolded p]
  have okp: "imap_ok ((pf, pn) # ps)" and st: "start < pf + pn"
    and after: "\<forall>x\<in>imap_set ps. pf + pn < x"
    and rest: "iset_set other \<inter> {start..} = {max start pf..<pf + pn} \<union> imap_set ps"
    using find_inc_rest(2) [OF inv c] by blast+
  consider (mid) "pf < start" "pf + pn < start + len" | (inside) "pf < start" "start + len \<le> pf + pn"
    | (whole) "start \<le> pf" by linarith
  then show ?thesis
  proof cases
    case mid
    define n where "n = pf + pn - start"
    have n: "0 < n" "start + n = pf + pn" "pn - (start - pf) = n" "n \<le> len" using st mid by (auto simp: n_def)
    obtain r1 where r1: "iset_insert start n iset_empty = Some r1" "iset_inv r1" "iset_set r1 = {start..<pf + pn}"
      using iset_insert_ok [of iset_empty n start] n by auto
    have "iset_set r1 \<inter> imap_set ps = {}" using r1(3) after by fastforce
    from span_loop_ok [OF _ r1(2) this, of "len - n"] okp obtain r T where
      r: "span_loop (len - n) ps r1 = Some r" "iset_inv r" "iset_set r = iset_set r1 \<union> T"
        "initial_part (len - n) (imap_set ps) T" by auto
    have "\<forall>x\<in>{start..<pf + pn}. \<forall>y\<in>imap_set ps. x < y" using after by (auto intro: less_trans)
    from initial_part_Un [OF r(4) imap_set_finite finite_atLeastLessThan this] n
    have "initial_part len ({start..<pf + pn} \<union> imap_set ps) ({start..<pf + pn} \<union> T)" by (simp add: n_def)
    then show ?thesis using mid c r r1 n st unfolding rest by (simp add: span_of_def max_def)
  next
    case inside
    have "initial_part len ({start..<pf + pn} \<union> imap_set ps) {start..<start + len}"
      using inside after by (intro initial_part_range) (auto intro: less_imp_le)
    then show ?thesis
      using iset_insert_ok [of iset_empty len start] inside len c st unfolding rest
      by (auto simp: span_of_def max_def)
  next
    case whole
    obtain r where "span_loop len ((pf, pn) # ps) iset_empty = Some r" "iset_inv r"
        "initial_part len (imap_set ((pf, pn) # ps)) (iset_set r)"
      using span_loop_ok [OF okp iset_empty_inv(1), of len] by auto
    moreover have "max start pf = pf" using whole by simp
    ultimately show ?thesis using whole c unfolding rest by (simp add: span_of_def)
  qed
qed

section \<open>Properties\<close>

text \<open>
  C36: \<^verbatim>\<open>insert\<close> of a range disjoint from the set never fails an assertion; it adds exactly the range,
  keeps the intervals ordered, non-empty and separate, and \<^verbatim>\<open>_size\<close> counts the elements.
\<close>

theorem interval_insert_correct:
  assumes "iset_inv s" "0 < len" "{start..<start + len} \<inter> iset_set s = {}"
  shows "\<exists>s'. iset_insert start len s = Some s' \<and> iset_inv s'
    \<and> iset_set s' = iset_set s \<union> {start..<start + len} \<and> is_size s' = int (card (iset_set s'))"
  using iset.ins_ok [OF assms] iset_size_card by blast

theorem interval_insert_correct_witness:
  "\<exists>s'. iset_insert 5 2 (iset_of_map [(0, 5), (7, 3)]) = Some s' \<and> iset_inv s'
    \<and> iset_set s' = {0..<10} \<and> is_size s' = 10"
proof -
  let ?s = "iset_of_map [(0, 5), (7, 3)]"
  have e: "iset_set ?s = {0..<5} \<union> {7..<10}" by (auto simp: iset_of_map_def iset_set_def)
  have "iset_inv ?s" by (simp add: iset_inv_def iset_of_map_def)
  moreover have "{5..<5 + 2} \<inter> iset_set ?s = {}" unfolding e by auto
  ultimately obtain s' where s': "iset_insert 5 2 ?s = Some s'" "iset_inv s'"
      "iset_set s' = iset_set ?s \<union> {5..<5 + 2}" "is_size s' = int (card (iset_set s'))"
    using interval_insert_correct [of ?s 2 5] by auto
  have "iset_set s' = {0..<10}" unfolding s'(3) e by auto
  then show ?thesis using s' by auto
qed

text \<open>
  \<^verbatim>\<open>erase\<close> of a non-empty range succeeds exactly when the whole range is in the set, and then removes
  exactly the range; otherwise an assertion fails.
\<close>

lemma interval_erase_correct:
  assumes "iset_inv s" "0 < len"
  shows "(iset_erase start len s \<noteq> None \<longleftrightarrow> {start..<start + len} \<subseteq> iset_set s)
    \<and> (\<forall>s'. iset_erase start len s = Some s' \<longrightarrow>
          iset_inv s' \<and> iset_set s' = iset_set s - {start..<start + len})"
  using iset.era_ok [OF assms, of start] iset.era_sub [OF assms, of start] by fastforce

text \<open>
  C35: \<^verbatim>\<open>intersection_of\<close> computes the intersection, whichever of its two algorithms the size ratio selects;
  no assertion fails and the searching loop ends. \<^verbatim>\<open>union_of\<close>, which is built on it, computes the union.
\<close>

theorem interval_intersection_union_correct:
  assumes "iset_inv a" "iset_inv b"
  shows "(\<exists>r. intersection_of a b = Some r \<and> iset_inv r \<and> iset_set r = iset_set a \<inter> iset_set b)
    \<and> (\<exists>r. union_of a b = Some r \<and> iset_inv r \<and> iset_set r = iset_set a \<union> iset_set b)"
  using intersection_of_ok [OF assms] union_of_ok [OF assms] by blast

theorem interval_intersection_union_correct_witness:
  "\<exists>r. intersection_of (iset_of_map [(3, 40), (50, 10)]) (iset_of_map [(1, 4)]) = Some r \<and> iset_set r = {3..<5}"
proof -
  let ?a = "iset_of_map [(3, 40), (50, 10)]" and ?b = "iset_of_map [(1, 4)]"
  have "iset_inv ?a" "iset_inv ?b" by (simp_all add: iset_inv_def iset_of_map_def)
  moreover have "iset_set ?a \<inter> iset_set ?b = {3..<5}" by (auto simp: iset_of_map_def iset_set_def)
  ultimately show ?thesis using interval_intersection_union_correct [of ?a ?b] by metis
qed

text \<open>The two algorithms behind \<^verbatim>\<open>subset_of\<close> and its early exits on sizes and ends decide inclusion.\<close>

lemma interval_subset_correct:
  assumes "iset_inv a" "iset_inv b"
  shows "subset_of a b = Some (iset_set a \<subseteq> iset_set b)"
  by (rule subset_of_ok [OF assms])

text \<open>
  \<^verbatim>\<open>subset_of(other, start, end)\<close> is the part of the set in the range, and \<^verbatim>\<open>span_of(other, start, len)\<close> the
  first \<open>len\<close> elements from \<open>start\<close> on, or all of them if there are fewer.
\<close>

lemma interval_extract_correct:
  assumes "iset_inv s" "start \<le> en" "0 < len"
  shows "(\<exists>r. subset_of_range s start en = Some r \<and> iset_inv r \<and> iset_set r = iset_set s \<inter> {start..<en})
    \<and> (\<exists>r. span_of s start len = Some r \<and> iset_inv r
          \<and> initial_part len (iset_set s \<inter> {start..}) (iset_set r))"
  using subset_of_range_ok [OF assms(1,2)] span_of_ok [OF assms(1,3)] by blast

text \<open>
  \<^verbatim>\<open>insert\<close> does not notice every overlap. A range that starts where an interval ends is appended to
  it, and only equality with the start of the next interval is tested: inserting 5~10 into [0~5,7~2]
  succeeds, leaves overlapping intervals and a size of 17 for 15 elements.
\<close>

lemma interval_insert_overlap_unnoticed:
  "iset_insert 5 10 (iset_of_map [(0, 5), (7, 2)]) = Some \<lparr>is_m = [(0, 15), (7, 2)], is_size = 17\<rparr>
    \<and> \<not> iset_inv \<lparr>is_m = [(0, 15), (7, 2)], is_size = 17\<rparr>
    \<and> card (iset_set \<lparr>is_m = [(0, 15), (7, 2)], is_size = 17\<rparr>) = 15"
proof -
  have "imap_set [(0, 15), (7, 2)] = {0..<15}" by auto
  then have "card (iset_set \<lparr>is_m = [(0, 15), (7, 2)], is_size = 17\<rparr>) = 15" by (simp add: iset_set_def)
  moreover have "iset_insert 5 10 (iset_of_map [(0, 5), (7, 2)]) = Some \<lparr>is_m = [(0, 15), (7, 2)], is_size = 17\<rparr>"
    by (simp add: iset_insert_def iset_insert_at_def iset_of_map_def find_adj_def lower_bound_def)
  ultimately show ?thesis by (simp add: iset_inv_def)
qed

end
