(* ===== verification/Ino_Table.thy ===== *)
theory Ino_Table
  imports Interval_Ops
begin

text \<open>
  The inode number allocator of a rank, \<^verbatim>\<open>src/mds/InoTable.cc\<close> and \<^verbatim>\<open>InoTable.h\<close>, as a client of the
  interval sets. Every change is first projected, then journaled, then applied: \<^verbatim>\<open>projected_free\<close> and
  \<^verbatim>\<open>projected_version\<close> run ahead of \<^verbatim>\<open>free\<close> and \<^verbatim>\<open>version\<close>. The replay operations change both at once.
\<close>

section \<open>State and operations\<close>

record ino_table =
  it_active :: bool
  it_free :: interval_set
  it_projected_free :: interval_set
  it_version :: nat
  it_projected_version :: nat

text \<open>\<^verbatim>\<open>reset_state\<close>: the range of a rank starts at \<open>(rank + 1) \<cdot> 2 ^ 40\<close> and has \<open>2 ^ 40\<close> numbers.\<close>

definition reset_state :: "nat \<Rightarrow> ino_table \<Rightarrow> ino_table option" where
  "reset_state rank t = do {
     f \<leftarrow> iset_insert ((rank + 1) * 2 ^ 40) (2 ^ 40) iset_empty;
     Some (t\<lparr>it_free := f, it_projected_free := f\<rparr>)
   }"

definition project_alloc_id :: "nat \<Rightarrow> ino_table \<Rightarrow> (nat \<times> ino_table) option" where
  "project_alloc_id i t = do {
     assert_that (it_active t);
     ino \<leftarrow> (if i = 0 then range_start (it_projected_free t) else Some i);
     pf \<leftarrow> iset_erase_val ino (it_projected_free t);
     Some (ino, t\<lparr>it_projected_free := pf, it_projected_version := it_projected_version t + 1\<rparr>)
   }"

definition apply_alloc_id :: "nat \<Rightarrow> ino_table \<Rightarrow> ino_table option" where
  "apply_alloc_id i t = do {
     f \<leftarrow> iset_erase_val i (it_free t);
     Some (t\<lparr>it_free := f, it_version := it_version t + 1\<rparr>)
   }"

lemma end_after_gt: "end_after start s = Some e \<Longrightarrow> start < e"
  by (auto simp: end_after_def iset_contains_def iset_contains_at_def split: if_splits list.splits)

text \<open>The loop of \<^verbatim>\<open>project_alloc_ids\<close>: free intervals are taken from the lowest on.\<close>

function alloc_ids_loop ::
  "nat \<Rightarrow> interval_set \<Rightarrow> interval_set \<Rightarrow> (interval_set \<times> interval_set) option" where
  "alloc_ids_loop want pf ids =
     (if want = 0 then Some (pf, ids)
      else
        (case range_start pf of
           None \<Rightarrow> None
         | Some start \<Rightarrow>
             (case end_after start pf of
                None \<Rightarrow> None
              | Some en \<Rightarrow>
                  (let num = (if en - start > want then want else en - start) in
                   case iset_erase start num pf of
                     None \<Rightarrow> None
                   | Some pf' \<Rightarrow>
                       (case iset_insert start num ids of
                          None \<Rightarrow> None
                        | Some ids' \<Rightarrow> alloc_ids_loop (want - num) pf' ids')))))"
  by pat_completeness auto
termination
  by (relation "measure (\<lambda>(want, _, _). want)") (auto dest: end_after_gt)

declare alloc_ids_loop.simps [simp del]

definition project_alloc_ids ::
  "interval_set \<Rightarrow> int \<Rightarrow> ino_table \<Rightarrow> (interval_set \<times> ino_table) option" where
  "project_alloc_ids ids want t = do {
     assert_that (it_active t);
     (pf, ids') \<leftarrow> alloc_ids_loop (nat want) (it_projected_free t) ids;
     Some (ids', t\<lparr>it_projected_free := pf, it_projected_version := it_projected_version t + 1\<rparr>)
   }"

definition apply_alloc_ids :: "interval_set \<Rightarrow> ino_table \<Rightarrow> ino_table option" where
  "apply_alloc_ids ids t = do {
     f \<leftarrow> iset_subtract ids (it_free t);
     Some (t\<lparr>it_free := f, it_version := it_version t + 1\<rparr>)
   }"

definition project_release_ids :: "interval_set \<Rightarrow> ino_table \<Rightarrow> ino_table option" where
  "project_release_ids ids t = do {
     pf \<leftarrow> iset_insert_set ids (it_projected_free t);
     Some (t\<lparr>it_projected_free := pf, it_projected_version := it_projected_version t + 1\<rparr>)
   }"

definition apply_release_ids :: "interval_set \<Rightarrow> ino_table \<Rightarrow> ino_table option" where
  "apply_release_ids ids t = do {
     f \<leftarrow> iset_insert_set ids (it_free t);
     Some (t\<lparr>it_free := f, it_version := it_version t + 1\<rparr>)
   }"

text \<open>The replay operations; the messages to the cluster log have no effect on the table.\<close>

abbreviation bump_both :: "ino_table \<Rightarrow> ino_table" where
  "bump_both t \<equiv> t\<lparr>it_version := it_version t + 1, it_projected_version := it_version t + 1\<rparr>"

definition replay_alloc_id :: "nat \<Rightarrow> ino_table \<Rightarrow> ino_table option" where
  "replay_alloc_id i t =
     (if iset_contains i (it_free t) then do {
        f \<leftarrow> iset_erase_val i (it_free t);
        pf \<leftarrow> iset_erase_val i (it_projected_free t);
        Some (bump_both (t\<lparr>it_free := f, it_projected_free := pf\<rparr>))
      } else Some (bump_both t))"

definition replay_alloc_ids :: "interval_set \<Rightarrow> ino_table \<Rightarrow> ino_table option" where
  "replay_alloc_ids ids t = do {
     is \<leftarrow> intersection_of (it_free t) ids;
     (f, pf) \<leftarrow>
       (if iset_eq is ids then do {
          f \<leftarrow> iset_subtract ids (it_free t);
          pf \<leftarrow> iset_subtract ids (it_projected_free t);
          Some (f, pf)
        } else do {
          f \<leftarrow> iset_subtract is (it_free t);
          pf \<leftarrow> iset_subtract is (it_projected_free t);
          Some (f, pf)
        });
     Some (bump_both (t\<lparr>it_free := f, it_projected_free := pf\<rparr>))
   }"

definition replay_release_ids :: "interval_set \<Rightarrow> ino_table \<Rightarrow> ino_table option" where
  "replay_release_ids ids t = do {
     f \<leftarrow> iset_insert_set ids (it_free t);
     pf \<leftarrow> iset_insert_set ids (it_projected_free t);
     Some (bump_both (t\<lparr>it_free := f, it_projected_free := pf\<rparr>))
   }"

definition skip_inos :: "nat \<Rightarrow> ino_table \<Rightarrow> ino_table option" where
  "skip_inos i t = do {
     first \<leftarrow> range_start (it_free t);
     s \<leftarrow> iset_insert first i iset_empty;
     s' \<leftarrow> intersection_of s (it_free t);
     f \<leftarrow> iset_subtract s' (it_free t);
     Some (bump_both (t\<lparr>it_free := f, it_projected_free := f\<rparr>))
   }"

definition replay_reset :: "ino_table \<Rightarrow> ino_table option" where
  "replay_reset t = do {
     t1 \<leftarrow> skip_inos 10000000 t;
     Some (bump_both (t1\<lparr>it_projected_free := it_free t1\<rparr>))
   }"

definition is_marked_free :: "nat \<Rightarrow> ino_table \<Rightarrow> bool" where
  "is_marked_free i t \<longleftrightarrow> iset_contains i (it_free t) \<or> iset_contains i (it_projected_free t)"

definition intersects_free :: "interval_set \<Rightarrow> ino_table \<Rightarrow> (bool \<times> interval_set) option" where
  "intersects_free other t = do {
     i \<leftarrow> intersection_of (it_free t) other;
     Some (\<not> iset_is_empty i, i)
   }"

definition repair :: "nat \<Rightarrow> ino_table \<Rightarrow> (bool \<times> ino_table) option" where
  "repair i t =
     (if it_projected_version t \<noteq> it_version t then Some (False, t)
      else do {
        assert_that (is_marked_free i t);
        f \<leftarrow> iset_erase_val i (it_free t);
        pf \<leftarrow> iset_erase_val i (it_projected_free t);
        Some (True, bump_both (t\<lparr>it_free := f, it_projected_free := pf\<rparr>))
      })"

definition force_consume :: "nat \<Rightarrow> ino_table \<Rightarrow> (bool \<times> ino_table) option" where
  "force_consume ino t =
     (if iset_contains ino (it_free t) then do {
        f \<leftarrow> iset_erase_val ino (it_free t);
        Some (True, t\<lparr>it_free := f\<rparr>)
      } else Some (False, t))"

definition force_consume_to :: "nat \<Rightarrow> ino_table \<Rightarrow> (bool \<times> ino_table) option" where
  "force_consume_to ino t =
     (if iset_contains ino (it_free t) then do {
        mn \<leftarrow> range_start (it_free t);
        f \<leftarrow> iset_erase mn (ino - mn + 1) (it_free t);
        Some (True, bump_both (t\<lparr>it_free := f, it_projected_free := f\<rparr>))
      } else Some (False, t))"

section \<open>Allocation\<close>

lemma iset_erase_val_ok:
  "iset_inv s \<Longrightarrow> i \<in> iset_set s \<Longrightarrow>
     \<exists>s'. iset_erase_val i s = Some s' \<and> iset_inv s' \<and> iset_set s' = iset_set s - {i}"
  using iset.era_ok [of s 1 i] by (simp add: iset_erase_val_def)

lemma iset_erase_valD:
  assumes "iset_inv s" "iset_erase_val i s = Some s'"
  shows "i \<in> iset_set s" "iset_inv s'" "iset_set s' = iset_set s - {i}"
  using assms iset.era_sub [of s 1 i s'] iset_erase_val_ok [of s i] by (auto simp: iset_erase_val_def)

text \<open>One round of the loop: the range \<open>a\<close> up to \<open>a + n\<close> moves from the lowest free interval to \<open>ids\<close>.\<close>

lemma alloc_round:
  assumes inv: "iset_inv pf" "iset_inv ids" and dis: "iset_set ids \<inter> iset_set pf = {}"
    and ne: "iset_set pf \<noteq> {}" and want: "0 < want"
  obtains a n e pf1 ids1 where "range_start pf = Some a" "end_after a pf = Some e"
    "n = (if e - a > want then want else e - a)" "iset_erase a n pf = Some pf1" "iset_insert a n ids = Some ids1"
    "iset_inv pf1" "iset_inv ids1" "0 < n" "n \<le> want" "{a..<a + n} \<subseteq> iset_set pf" "\<forall>x\<in>iset_set pf. a \<le> x"
    "iset_set pf1 = iset_set pf - {a..<a + n}" "iset_set ids1 = iset_set ids \<union> {a..<a + n}"
    "iset_set ids1 \<inter> iset_set pf1 = {}" "card (iset_set pf1) = card (iset_set pf) - n"
proof -
  define a where "a = Min (iset_set pf)"
  have rs: "range_start pf = Some a" and a: "a \<in> iset_set pf" "\<forall>x\<in>iset_set pf. a \<le> x"
    using range_start_Min [OF inv(1) ne] ne by (auto simp: a_def iset_set_def)
  obtain e where e: "end_after a pf = Some e" "a < e" "{a..<e} \<subseteq> iset_set pf"
    using end_after_ok [OF inv(1) a(1)] by blast
  define n where "n = (if e - a > want then want else e - a)"
  have "{a..<a + n} \<subseteq> {a..<e}" by (auto simp: n_def)
  then have n: "0 < n" "n \<le> want" "{a..<a + n} \<subseteq> iset_set pf"
    using want e by (auto simp: n_def)
  obtain pf1 where pf1: "iset_erase a n pf = Some pf1" "iset_inv pf1" "iset_set pf1 = iset_set pf - {a..<a + n}"
    using iset.era_ok [OF inv(1) n(1,3)] by blast
  have "{a..<a + n} \<inter> iset_set ids = {}" using n(3) dis by blast
  then obtain ids1 where ids1: "iset_insert a n ids = Some ids1" "iset_inv ids1"
      "iset_set ids1 = iset_set ids \<union> {a..<a + n}"
    using iset.ins_ok [OF inv(2) n(1)] by blast
  have "iset_set ids1 \<inter> iset_set pf1 = {}" unfolding pf1(3) ids1(3) using dis by blast
  moreover have "card (iset_set pf1) = card (iset_set pf) - n"
    unfolding pf1(3) using n(3) by (simp add: card_Diff_subset)
  ultimately show ?thesis using that rs e(1) n_def pf1 ids1 n a(2) by blast
qed

lemma alloc_ids_loop_ok:
  "iset_inv pf \<Longrightarrow> iset_inv ids \<Longrightarrow> iset_set ids \<inter> iset_set pf = {} \<Longrightarrow> want \<le> card (iset_set pf) \<Longrightarrow>
     \<exists>pf' ids' A. alloc_ids_loop want pf ids = Some (pf', ids') \<and> iset_inv pf' \<and> iset_inv ids'
       \<and> initial_part want (iset_set pf) A \<and> iset_set pf' = iset_set pf - A \<and> iset_set ids' = iset_set ids \<union> A"
proof (induction want pf ids rule: alloc_ids_loop.induct)
  case (1 want pf ids)
  show ?case
  proof (cases "want = 0")
    case True
    then show ?thesis
      using "1.prems" by (intro exI [of _ pf] exI [of _ ids] exI [of _ "{}"])
        (simp add: alloc_ids_loop.simps initial_part_def)
  next
    case False
    then have ne: "iset_set pf \<noteq> {}" "0 < want" using "1.prems"(4) by auto
    obtain a n e pf1 ids1 where s: "range_start pf = Some a" "end_after a pf = Some e"
      "n = (if e - a > want then want else e - a)" "iset_erase a n pf = Some pf1" "iset_insert a n ids = Some ids1"
      "iset_inv pf1" "iset_inv ids1" "0 < n" "n \<le> want" "{a..<a + n} \<subseteq> iset_set pf" "\<forall>x\<in>iset_set pf. a \<le> x"
      "iset_set pf1 = iset_set pf - {a..<a + n}" "iset_set ids1 = iset_set ids \<union> {a..<a + n}"
      "iset_set ids1 \<inter> iset_set pf1 = {}" "card (iset_set pf1) = card (iset_set pf) - n"
      using alloc_round [OF "1.prems"(1-3) ne] by metis
    have "want - n \<le> card (iset_set pf1)" using s(15) "1.prems"(4) by simp
    from "1.IH" [OF False s(1-7,14) this] obtain pf' ids' A where
      r: "alloc_ids_loop (want - n) pf1 ids1 = Some (pf', ids')" "iset_inv pf'" "iset_inv ids'"
        "initial_part (want - n) (iset_set pf1) A" "iset_set pf' = iset_set pf1 - A" "iset_set ids' = iset_set ids1 \<union> A"
      by blast
    have lt: "\<forall>x\<in>{a..<a + n}. \<forall>y\<in>iset_set pf1. x < y" using s(11,12) by auto
    have "{a..<a + n} \<union> iset_set pf1 = iset_set pf" using s(10,12) by auto
    then have "initial_part want (iset_set pf) ({a..<a + n} \<union> A)"
      using initial_part_Un [OF r(4) _ _ lt] s(9) by (simp add: iset_set_def)
    moreover have "alloc_ids_loop want pf ids = Some (pf', ids')"
      using False s(1,2,4,5) r(1) by (subst alloc_ids_loop.simps) (simp add: Let_def flip: s(3))
    ultimately show ?thesis
      using r(2,3,5,6) s(12,13)
      by (intro exI [of _ pf'] exI [of _ ids'] exI [of _ "{a..<a + n} \<union> A"]) auto
  qed
qed

lemma alloc_ids_loop_fail:
  "iset_inv pf \<Longrightarrow> iset_inv ids \<Longrightarrow> iset_set ids \<inter> iset_set pf = {} \<Longrightarrow> card (iset_set pf) < want \<Longrightarrow>
     alloc_ids_loop want pf ids = None"
proof (induction want pf ids rule: alloc_ids_loop.induct)
  case (1 want pf ids)
  then have want: "0 < want" "want \<noteq> 0" by auto
  show ?case
  proof (cases "iset_set pf = {}")
    case True
    then have "is_m pf = []" using imap_set_empty_iff "1.prems"(1) by (auto simp: iset_set_def)
    then show ?thesis using want by (subst alloc_ids_loop.simps) (simp add: range_start_def)
  next
    case False
    obtain a n e pf1 ids1 where s: "range_start pf = Some a" "end_after a pf = Some e"
      "n = (if e - a > want then want else e - a)" "iset_erase a n pf = Some pf1" "iset_insert a n ids = Some ids1"
      "iset_inv pf1" "iset_inv ids1" "{a..<a + n} \<subseteq> iset_set pf"
      "iset_set ids1 \<inter> iset_set pf1 = {}" "card (iset_set pf1) = card (iset_set pf) - n"
      using alloc_round [OF "1.prems"(1-3) False want(1)] by metis
    have "n \<le> card (iset_set pf)" using card_mono [OF _ s(8)] by (simp add: iset_set_def)
    then have "card (iset_set pf1) < want - n" using s(10) "1.prems"(4) by linarith
    from "1.IH" [OF want(2) s(1-7,9) this] show ?thesis
      using want s(1,2,4,5) by (subst alloc_ids_loop.simps) (simp add: Let_def flip: s(3))
  qed
qed

section \<open>Projecting and applying\<close>

text \<open>
  The protocol of the callers: a change is projected, its journal entry written, and when the entry is
  safe the change is applied; entries become safe in the order in which they were written. The state of
  this system is the table, the queue of changes projected but not applied, and the set of numbers handed
  out and not given back, which exists in the model only.
\<close>

datatype ino_op = Alloc_id nat | Alloc_ids interval_set | Release_ids interval_set

fun apply_op :: "ino_op \<Rightarrow> ino_table \<Rightarrow> ino_table option" where
  "apply_op (Alloc_id i) t = apply_alloc_id i t"
| "apply_op (Alloc_ids ids) t = apply_alloc_ids ids t"
| "apply_op (Release_ids ids) t = apply_release_ids ids t"

record ino_sys =
  sys_table :: ino_table
  sys_pending :: "ino_op list"
  sys_used :: "nat set"

inductive ino_step :: "ino_sys \<Rightarrow> ino_sys \<Rightarrow> bool" where
  alloc_id: "project_alloc_id i (sys_table s) = Some (ino, t) \<Longrightarrow>
    ino_step s (s\<lparr>sys_table := t, sys_pending := sys_pending s @ [Alloc_id ino],
      sys_used := insert ino (sys_used s)\<rparr>)"
| alloc_ids: "project_alloc_ids iset_empty want (sys_table s) = Some (ids, t) \<Longrightarrow>
    ino_step s (s\<lparr>sys_table := t, sys_pending := sys_pending s @ [Alloc_ids ids],
      sys_used := sys_used s \<union> iset_set ids\<rparr>)"
| release_ids: "iset_inv ids \<Longrightarrow> iset_set ids \<subseteq> sys_used s \<Longrightarrow>
    project_release_ids ids (sys_table s) = Some t \<Longrightarrow>
    ino_step s (s\<lparr>sys_table := t, sys_pending := sys_pending s @ [Release_ids ids],
      sys_used := sys_used s - iset_set ids\<rparr>)"
| apply_oldest: "sys_pending s = op # ops \<Longrightarrow> apply_op op (sys_table s) = Some t \<Longrightarrow>
    ino_step s (s\<lparr>sys_table := t, sys_pending := ops\<rparr>)"

text \<open>The states that can be reached after \<^verbatim>\<open>reset_state\<close> on an active table with equal versions.\<close>

inductive ino_start :: "nat \<Rightarrow> ino_sys \<Rightarrow> bool" for rank where
  start: "reset_state rank t0 = Some t \<Longrightarrow> it_active t0 \<Longrightarrow> it_projected_version t0 = it_version t0 \<Longrightarrow>
    ino_start rank \<lparr>sys_table = t, sys_pending = [], sys_used = {}\<rparr>"

definition ino_reach :: "nat \<Rightarrow> ino_sys \<Rightarrow> bool" where
  "ino_reach rank s \<longleftrightarrow> (\<exists>s0. ino_start rank s0 \<and> ino_step\<^sup>*\<^sup>* s0 s)"

fun op_effect :: "ino_op \<Rightarrow> nat set \<Rightarrow> nat set" where
  "op_effect (Alloc_id i) F = F - {i}"
| "op_effect (Alloc_ids ids) F = F - iset_set ids"
| "op_effect (Release_ids ids) F = F \<union> iset_set ids"

fun op_ok :: "ino_op \<Rightarrow> nat set \<Rightarrow> bool" where
  "op_ok (Alloc_id i) F \<longleftrightarrow> i \<in> F"
| "op_ok (Alloc_ids ids) F \<longleftrightarrow> iset_inv ids \<and> iset_set ids \<subseteq> F"
| "op_ok (Release_ids ids) F \<longleftrightarrow> iset_inv ids \<and> iset_set ids \<inter> F = {}"

fun pending_ok :: "ino_op list \<Rightarrow> nat set \<Rightarrow> bool" where
  "pending_ok [] F \<longleftrightarrow> True"
| "pending_ok (op # ops) F \<longleftrightarrow> op_ok op F \<and> pending_ok ops (op_effect op F)"

lemma pending_ok_snoc:
  "pending_ok (ops @ [op]) F \<longleftrightarrow> pending_ok ops F \<and> op_ok op (fold op_effect ops F)"
  by (induction ops arbitrary: F) auto

definition rank_range :: "nat \<Rightarrow> nat set" where
  "rank_range rank = {(rank + 1) * 2 ^ 40..<(rank + 1) * 2 ^ 40 + 2 ^ 40}"

definition ino_inv :: "nat \<Rightarrow> ino_sys \<Rightarrow> bool" where
  "ino_inv rank s \<longleftrightarrow>
     (let t = sys_table s; F = iset_set (it_free t); PF = iset_set (it_projected_free t) in
      it_active t \<and> iset_inv (it_free t) \<and> iset_inv (it_projected_free t) \<and>
      pending_ok (sys_pending s) F \<and> PF = fold op_effect (sys_pending s) F \<and>
      sys_used s \<inter> PF = {} \<and> sys_used s \<union> PF = rank_range rank \<and>
      it_projected_version t = it_version t + length (sys_pending s))"

lemma apply_op_ok:
  assumes "iset_inv (it_free t)" "op_ok op (iset_set (it_free t))"
  shows "\<exists>f. apply_op op t = Some (t\<lparr>it_free := f, it_version := it_version t + 1\<rparr>) \<and> iset_inv f
    \<and> iset_set f = op_effect op (iset_set (it_free t))"
proof (cases op)
  case (Alloc_id i)
  then show ?thesis
    using iset_erase_val_ok [OF assms(1), of i] assms(2) by (auto simp: apply_alloc_id_def)
next
  case (Alloc_ids ids)
  then show ?thesis
    using iset_subtract_ok [OF assms(1), of ids] assms(2) by (auto simp: apply_alloc_ids_def)
next
  case (Release_ids ids)
  then show ?thesis
    using iset_insert_set_ok [OF assms(1), of ids] assms(2) by (auto simp: apply_release_ids_def)
qed

lemma project_alloc_idD:
  assumes "project_alloc_id i t = Some (ino, t')" "iset_inv (it_projected_free t)"
  shows "\<exists>pf. t' = t\<lparr>it_projected_free := pf, it_projected_version := it_projected_version t + 1\<rparr>
    \<and> iset_inv pf \<and> ino \<in> iset_set (it_projected_free t) \<and> iset_set pf = iset_set (it_projected_free t) - {ino}"
  using assms by (auto simp: project_alloc_id_def dest: iset_erase_valD elim!: bind_eq_SomeE split: if_splits)

lemma project_alloc_idsD:
  assumes "project_alloc_ids iset_empty want t = Some (ids, t')" "iset_inv (it_projected_free t)"
  shows "\<exists>pf. t' = t\<lparr>it_projected_free := pf, it_projected_version := it_projected_version t + 1\<rparr>
    \<and> iset_inv pf \<and> iset_inv ids \<and> initial_part (nat want) (iset_set (it_projected_free t)) (iset_set ids)
    \<and> iset_set pf = iset_set (it_projected_free t) - iset_set ids"
proof (cases "nat want \<le> card (iset_set (it_projected_free t))")
  case True
  then obtain pf' ids' A where "alloc_ids_loop (nat want) (it_projected_free t) iset_empty = Some (pf', ids')"
      "iset_inv pf'" "iset_inv ids'" "initial_part (nat want) (iset_set (it_projected_free t)) A"
      "iset_set pf' = iset_set (it_projected_free t) - A" "iset_set ids' = A"
    using alloc_ids_loop_ok [OF assms(2) iset_empty_inv(1)] by fastforce
  then show ?thesis using assms(1) by (auto simp: project_alloc_ids_def split: if_splits)
next
  case False
  then show ?thesis
    using alloc_ids_loop_fail [OF assms(2) iset_empty_inv(1)] assms(1)
    by (auto simp: project_alloc_ids_def split: if_splits)
qed

lemma ino_inv_start:
  assumes "reset_state rank t0 = Some t" "it_active t0" "it_projected_version t0 = it_version t0"
  shows "ino_inv rank \<lparr>sys_table = t, sys_pending = [], sys_used = {}\<rparr>"
proof -
  obtain f where "iset_insert ((rank + 1) * 2 ^ 40) (2 ^ 40) iset_empty = Some f" "iset_inv f"
      "iset_set f = rank_range rank"
    using iset.ins_ok [OF iset_empty_inv(1), of "2 ^ 40" "(rank + 1) * 2 ^ 40"] by (auto simp: rank_range_def)
  then show ?thesis using assms by (auto simp: reset_state_def ino_inv_def)
qed

lemma ino_inv_step:
  assumes "ino_step s s'" "ino_inv rank s"
  shows "ino_inv rank s'"
  using assms(1)
proof cases
  case 1: (alloc_id i ino t)
  have inv: "iset_inv (it_projected_free (sys_table s))" using assms(2) by (simp add: ino_inv_def Let_def)
  from project_alloc_idD [OF 1(2) inv] assms(2) 1(1) show ?thesis
    by (auto simp: ino_inv_def Let_def pending_ok_snoc)
next
  case 2: (alloc_ids want ids t)
  have inv: "iset_inv (it_projected_free (sys_table s))" using assms(2) by (simp add: ino_inv_def Let_def)
  from project_alloc_idsD [OF 2(2) inv] assms(2) 2(1) show ?thesis
    by (auto simp: ino_inv_def Let_def pending_ok_snoc initial_part_def)
next
  case 3: (release_ids ids t)
  have inv: "iset_inv (it_projected_free (sys_table s))" using assms(2) by (simp add: ino_inv_def Let_def)
  have "iset_set ids \<inter> iset_set (it_projected_free (sys_table s)) = {}"
    using 3(3) assms(2) by (auto simp: ino_inv_def Let_def)
  from iset_insert_set_ok [OF inv 3(2) this] obtain pf where
    pf: "iset_insert_set ids (it_projected_free (sys_table s)) = Some pf" "iset_inv pf"
      "iset_set pf = iset_set (it_projected_free (sys_table s)) \<union> iset_set ids" by blast
  then have t: "t = (sys_table s)\<lparr>it_projected_free := pf,
      it_projected_version := it_projected_version (sys_table s) + 1\<rparr>"
    using 3(4) by (simp add: project_release_ids_def)
  show ?thesis
    using assms(2) 3(2,3) pf(2,3) unfolding 3(1) t
    by (simp add: ino_inv_def Let_def pending_ok_snoc) blast
next
  case 4: (apply_oldest op ops t)
  have "iset_inv (it_free (sys_table s))" "op_ok op (iset_set (it_free (sys_table s)))"
    using assms(2) 4(2) by (simp_all add: ino_inv_def Let_def)
  from apply_op_ok [OF this] 4 assms(2) show ?thesis by (auto simp: ino_inv_def Let_def)
qed

interpretation ino: transition_system "ino_start rank" ino_step "ino_inv rank" for rank
  by unfold_locales (auto elim: ino_start.cases intro: ino_inv_start ino_inv_step)

lemma ino_reach_inv: "ino_reach rank s \<Longrightarrow> ino_inv rank s"
  unfolding ino_reach_def by (blast intro: ino.reach_inv)

section \<open>Properties\<close>

text \<open>
  C33: no inode number is handed out twice. In every state reached from \<^verbatim>\<open>reset_state\<close> by projecting,
  releasing and applying in journal order, \<^verbatim>\<open>project_alloc_id\<close> and \<^verbatim>\<open>project_alloc_ids\<close> return only numbers
  of the rank's own range that are not in use.
\<close>

theorem ino_alloc_not_in_use:
  assumes "ino_reach rank s"
  shows "(project_alloc_id i (sys_table s) = Some (ino, t) \<longrightarrow> ino \<in> rank_range rank - sys_used s)
    \<and> (project_alloc_ids iset_empty want (sys_table s) = Some (ids, t) \<longrightarrow>
         iset_set ids \<subseteq> rank_range rank - sys_used s)"
proof -
  have inv: "ino_inv rank s" by (rule ino_reach_inv [OF assms])
  then have pf: "iset_inv (it_projected_free (sys_table s))"
    and free: "iset_set (it_projected_free (sys_table s)) = rank_range rank - sys_used s"
    by (auto simp: ino_inv_def Let_def)
  show ?thesis
    using project_alloc_idD [OF _ pf, of i ino t] project_alloc_idsD [OF _ pf, of want ids t]
    unfolding free by (auto simp: initial_part_def)
qed

definition sample_ino_table :: ino_table where
  "sample_ino_table = \<lparr>it_active = True, it_free = iset_empty, it_projected_free = iset_empty,
     it_version = 0, it_projected_version = 0\<rparr>"

lemma sample_reset:
  "reset_state 0 sample_ino_table = Some (sample_ino_table\<lparr>
     it_free := \<lparr>is_m = [(2 ^ 40, 2 ^ 40)], is_size = 2 ^ 40\<rparr>,
     it_projected_free := \<lparr>is_m = [(2 ^ 40, 2 ^ 40)], is_size = 2 ^ 40\<rparr>\<rparr>)"
  by (simp add: reset_state_def sample_ino_table_def iset_insert_def iset_insert_at_def iset_empty_def
      find_adj_def lower_bound_def)

definition sample_sys :: ino_sys where
  "sample_sys = \<lparr>sys_table = the (reset_state 0 sample_ino_table), sys_pending = [], sys_used = {}\<rparr>"

lemma sample_sys_table:
  "it_active (sys_table sample_sys)" "it_version (sys_table sample_sys) = 0"
  "it_free (sys_table sample_sys) = \<lparr>is_m = [(2 ^ 40, 2 ^ 40)], is_size = 2 ^ 40\<rparr>"
  "it_projected_free (sys_table sample_sys) = \<lparr>is_m = [(2 ^ 40, 2 ^ 40)], is_size = 2 ^ 40\<rparr>"
  unfolding sample_sys_def sample_reset by (simp_all add: sample_ino_table_def)

lemma sample_sys_reach: "ino_reach 0 sample_sys"
proof -
  have "ino_start 0 sample_sys"
    unfolding sample_sys_def
    by (rule ino_start.start [of _ sample_ino_table]) (simp_all add: sample_reset, simp_all add: sample_ino_table_def)
  then show ?thesis unfolding ino_reach_def by blast
qed

lemma sample_sys_alloc: "\<exists>t. project_alloc_id 0 (sys_table sample_sys) = Some (2 ^ 40, t)"
  by (simp add: sample_sys_table project_alloc_id_def range_start_def iset_erase_val_def
      iset_erase_def iset_erase_pp_def find_inc_def lower_bound_def)

theorem ino_alloc_not_in_use_witness:
  "\<exists>t. project_alloc_id 0 (sys_table sample_sys) = Some (2 ^ 40, t) \<and> 2 ^ 40 \<in> rank_range 0"
  using sample_sys_alloc ino_alloc_not_in_use [OF sample_sys_reach, of 0 "2 ^ 40" _ 0 iset_empty] by blast

text \<open>
  C34: applying never fails. In every reachable state the oldest projected change can be applied without a
  failed assertion, and once all changes are applied the table is settled: \<^verbatim>\<open>free\<close> and \<^verbatim>\<open>projected_free\<close> are
  the same set and the versions agree.
\<close>

theorem ino_apply_never_aborts:
  assumes "ino_reach rank s"
  shows "(case sys_pending s of
      [] \<Rightarrow> iset_eq (it_free (sys_table s)) (it_projected_free (sys_table s))
        \<and> it_version (sys_table s) = it_projected_version (sys_table s)
    | op # ops \<Rightarrow> apply_op op (sys_table s) \<noteq> None)"
proof -
  have inv: "ino_inv rank s" by (rule ino_reach_inv [OF assms])
  show ?thesis
    using inv apply_op_ok [of "sys_table s"]
    by (force simp: ino_inv_def Let_def iset_eq_iff split: list.split)
qed

theorem ino_apply_never_aborts_witness:
  "\<exists>t t'. project_alloc_id 0 (sys_table sample_sys) = Some (2 ^ 40, t) \<and> apply_op (Alloc_id (2 ^ 40)) t = Some t'"
proof -
  obtain t where t: "project_alloc_id 0 (sys_table sample_sys) = Some (2 ^ 40, t)"
    using sample_sys_alloc by blast
  have "ino_reach 0 (sample_sys\<lparr>sys_table := t, sys_pending := sys_pending sample_sys @ [Alloc_id (2 ^ 40)],
      sys_used := insert (2 ^ 40) (sys_used sample_sys)\<rparr>)"
    using sample_sys_reach ino_step.alloc_id [OF t] unfolding ino_reach_def by (meson rtranclp.rtrancl_into_rtrancl)
  from ino_apply_never_aborts [OF this] show ?thesis using t by (simp add: sample_sys_def)
qed

text \<open>
  \<^verbatim>\<open>project_alloc_ids\<close> takes exactly the \<open>want\<close> smallest free numbers and terminates; it fails its
  assertion exactly when fewer than \<open>want\<close> numbers are free.
\<close>

lemma project_alloc_ids_exact:
  assumes "it_active t" "iset_inv (it_projected_free t)"
  shows "if nat want \<le> card (iset_set (it_projected_free t))
    then \<exists>ids t'. project_alloc_ids iset_empty want t = Some (ids, t') \<and> iset_inv ids
      \<and> initial_part (nat want) (iset_set (it_projected_free t)) (iset_set ids)
      \<and> iset_set (it_projected_free t') = iset_set (it_projected_free t) - iset_set ids
    else project_alloc_ids iset_empty want t = None"
proof (cases "nat want \<le> card (iset_set (it_projected_free t))")
  case True
  then obtain pf' ids' where "alloc_ids_loop (nat want) (it_projected_free t) iset_empty = Some (pf', ids')"
    using alloc_ids_loop_ok [OF assms(2) iset_empty_inv(1)] by fastforce
  then have p: "\<exists>t'. project_alloc_ids iset_empty want t = Some (ids', t')"
    using assms(1) by (simp add: project_alloc_ids_def)
  then show ?thesis using True project_alloc_idsD [OF _ assms(2)] by fastforce
next
  case False
  then show ?thesis
    using alloc_ids_loop_fail [OF assms(2) iset_empty_inv(1)] assms(1) by (simp add: project_alloc_ids_def)
qed

text \<open>
  Replaying an allocation from the journal has the same effect as projecting and applying it. On a
  settled table, for numbers that are all free, \<^verbatim>\<open>replay_alloc_ids\<close> removes exactly these from both sets and
  keeps the versions equal; for other numbers it removes those that are free and goes on.
\<close>

lemma replay_alloc_ids_correct:
  assumes "iset_inv (it_free t)" "iset_inv (it_projected_free t)" "iset_inv ids"
    and "iset_set (it_projected_free t) = iset_set (it_free t)"
  shows "\<exists>t'. replay_alloc_ids ids t = Some t' \<and> iset_inv (it_free t') \<and> iset_inv (it_projected_free t')
    \<and> iset_set (it_free t') = iset_set (it_free t) - iset_set ids
    \<and> iset_set (it_projected_free t') = iset_set (it_free t')
    \<and> it_version t' = it_version t + 1 \<and> it_projected_version t' = it_version t'"
proof -
  obtain r where r: "intersection_of (it_free t) ids = Some r" "iset_inv r"
      "iset_set r = iset_set (it_free t) \<inter> iset_set ids"
    using intersection_of_ok [OF assms(1,3)] by blast
  define u where "u = (if iset_eq r ids then ids else r)"
  have u: "iset_inv u" "iset_set u = iset_set (it_free t) \<inter> iset_set ids"
    using r assms(3) iset_eq_iff [OF r(2) assms(3)] by (auto simp: u_def)
  obtain f where f: "iset_subtract u (it_free t) = Some f" "iset_inv f" "iset_set f = iset_set (it_free t) - iset_set u"
    using iset_subtract_ok [OF assms(1) u(1)] u(2) by auto
  obtain pf where pf: "iset_subtract u (it_projected_free t) = Some pf" "iset_inv pf"
      "iset_set pf = iset_set (it_free t) - iset_set u"
    using iset_subtract_ok [OF assms(2) u(1)] u(2) assms(4) by auto
  have "replay_alloc_ids ids t = Some (bump_both (t\<lparr>it_free := f, it_projected_free := pf\<rparr>))"
    using r f pf by (auto simp: replay_alloc_ids_def u_def split: if_splits)
  then show ?thesis using f pf u by auto
qed

text \<open>
  C38: \<^verbatim>\<open>force_consume_to\<close> is documented to consume all numbers up to the given one, but does so only in one of three cases.
  If the given number is not free it does nothing and returns false. If every number from the smallest
  free one up to it is free, exactly these are removed and the version is raised. If a number in between is not free, it
  fails an assertion, because it erases the range as one piece.
\<close>

theorem force_consume_to_exact:
  fixes ino :: nat and t :: ino_table
  assumes "iset_inv (it_free t)"
  defines "F \<equiv> iset_set (it_free t)"
  shows "if ino \<notin> F then force_consume_to ino t = Some (False, t)
    else if {Min F..ino} \<subseteq> F
    then \<exists>f. force_consume_to ino t = Some (True, t\<lparr>it_free := f, it_projected_free := f,
             it_version := it_version t + 1, it_projected_version := it_version t + 1\<rparr>)
           \<and> iset_inv f \<and> iset_set f = {i \<in> F. ino < i}
    else force_consume_to ino t = None"
proof (cases "ino \<in> F")
  case True
  have fin: "finite F" by (simp add: F_def iset_set_def)
  then have rs: "range_start (it_free t) = Some (Min F)" "Min F \<le> ino"
    using range_start_Min [OF assms(1)] True by (auto simp: F_def)
  then have r: "{Min F..<Min F + (ino - Min F + 1)} = {Min F..ino}" by auto
  have "F - {Min F..ino} = {i \<in> F. ino < i}" using fin True by (auto simp: not_le dest: Min_le)
  then show ?thesis
    using True rs(1) iset.era_ok [OF assms(1), of "ino - Min F + 1" "Min F"] iset.era_sub [OF assms(1), of "ino - Min F + 1" "Min F"]
    unfolding r F_def [symmetric]
    by (cases "iset_erase (Min F) (ino - Min F + 1) (it_free t)") (auto simp: force_consume_to_def iset_contains_iff [OF assms(1)] F_def)
next
  case False
  then show ?thesis using assms(1) by (simp add: force_consume_to_def iset_contains_iff F_def)
qed

theorem force_consume_to_exact_witness:
  "force_consume_to 8 (sample_ino_table\<lparr>it_free := iset_of_map [(1, 4), (7, 3)]\<rparr>) = None"
proof -
  let ?t = "sample_ino_table\<lparr>it_free := iset_of_map [(1, 4), (7, 3)]\<rparr>"
  have e: "iset_set (it_free ?t) = {1..<5} \<union> {7..<10}" by (auto simp: iset_of_map_def iset_set_def)
  have "Min (iset_set (it_free ?t)) = 1" unfolding e by (intro Min_eqI) auto
  moreover have "iset_inv (it_free ?t)" by (simp add: iset_inv_def iset_of_map_def)
  moreover have "(5 :: nat) \<in> {1..8}" "(5 :: nat) \<notin> {1..<5} \<union> {7..<10}" by auto
  then have "\<not> {1..8 :: nat} \<subseteq> {1..<5} \<union> {7..<10}" by blast
  ultimately show ?thesis using force_consume_to_exact [of ?t 8] unfolding e by simp
qed

end
