(* ===== verification/Flock.thy ===== *)
theory Flock
  imports Ceph_Prelude
begin

text \<open>
  Advisory file locks, in \<^verbatim>\<open>src/mds/flock.h\<close> and \<^verbatim>\<open>src/mds/flock.cc\<close>: the locks held and awaited on one file (\<^verbatim>\<open>ceph_lock_state_t\<close>),
  setting, testing and removing locks, the search for deadlocks over all files, and the part of the request handlers that
  uses them.
\<close>

unbundle bit_operations_syntax

section \<open>Locks\<close>

record ceph_filelock =
  fl_start :: u64
  fl_length :: u64
  fl_client :: u64
  fl_owner :: u64
  fl_pid :: u64
  fl_type :: u8

definition CEPH_LOCK_FCNTL :: int where "CEPH_LOCK_FCNTL = 1"
definition CEPH_LOCK_FLOCK :: int where "CEPH_LOCK_FLOCK = 2"
definition CEPH_LOCK_FCNTL_INTR :: int where "CEPH_LOCK_FCNTL_INTR = 3"
definition CEPH_LOCK_FLOCK_INTR :: int where "CEPH_LOCK_FLOCK_INTR = 4"

definition CEPH_LOCK_SHARED :: u8 where "CEPH_LOCK_SHARED = 1"
definition CEPH_LOCK_EXCL :: u8 where "CEPH_LOCK_EXCL = 2"
definition CEPH_LOCK_UNLOCK :: u8 where "CEPH_LOCK_UNLOCK = 4"

definition ceph_filelock_owner_equal :: "ceph_filelock \<Rightarrow> ceph_filelock \<Rightarrow> bool" where
  "ceph_filelock_owner_equal l r =
     (if fl_client l \<noteq> fl_client r \<or> fl_owner l \<noteq> fl_owner r then False
      else if fl_owner l AND push_bit 63 1 \<noteq> 0 then True
      else fl_pid l = fl_pid r)"

definition ceph_filelock_owner_compare :: "ceph_filelock \<Rightarrow> ceph_filelock \<Rightarrow> int" where
  "ceph_filelock_owner_compare l r =
     (if fl_client l \<noteq> fl_client r then (if fl_client l > fl_client r then 1 else - 1)
      else if fl_owner l \<noteq> fl_owner r then (if fl_owner l > fl_owner r then 1 else - 1)
      else if fl_owner l AND push_bit 63 1 \<noteq> 0 then 0
      else if fl_pid l \<noteq> fl_pid r then (if fl_pid l > fl_pid r then 1 else - 1)
      else 0)"

definition ceph_filelock_compare :: "ceph_filelock \<Rightarrow> ceph_filelock \<Rightarrow> int" where
  "ceph_filelock_compare l r =
     (let ret = ceph_filelock_owner_compare l r in
      if ret \<noteq> 0 then ret
      else if fl_start l \<noteq> fl_start r then (if fl_start l > fl_start r then 1 else - 1)
      else if fl_length l \<noteq> fl_length r then (if fl_length l > fl_length r then 1 else - 1)
      else if fl_type l \<noteq> fl_type r then (if fl_type l > fl_type r then 1 else - 1)
      else 0)"

section \<open>The state\<close>

text \<open>
  The entries of \<^verbatim>\<open>held_locks\<close> in the order of the multimap, each with a number that stands for its node, so that
  an iterator is the number of its node. The key of an entry is the start of its lock: every insertion passes it and no
  stored start is ever changed.
\<close>

type_synonym node = "nat \<times> ceph_filelock"

record lock_state =
  ls_type :: int
  held_locks :: "node list"
  ls_next :: nat
  waiting_locks :: "ceph_filelock list"
  client_held_lock_counts :: "u64 \<rightharpoonup> int"
  client_waiting_lock_counts :: "u64 \<rightharpoonup> int"

definition ceph_lock_state :: "int \<Rightarrow> lock_state" where
  "ceph_lock_state ty = \<lparr>ls_type = ty, held_locks = [], ls_next = 0, waiting_locks = [],
     client_held_lock_counts = Map.empty, client_waiting_lock_counts = Map.empty\<rparr>"

text \<open>All the lock states, by address, and the static map of the locks awaited on any file.\<close>

record flock_sys =
  fs_state :: "nat \<Rightarrow> lock_state"
  global_waiting_locks :: "(ceph_filelock \<times> nat) list"

definition set_state :: "nat \<Rightarrow> lock_state \<Rightarrow> flock_sys \<Rightarrow> flock_sys" where
  "set_state p s sys = sys\<lparr>fs_state := (fs_state sys)(p := s)\<rparr>"

text \<open>Insertion into a multimap, after the entries with an equal key.\<close>

fun insert_after :: "('a \<Rightarrow> 'a \<Rightarrow> bool) \<Rightarrow> 'a \<Rightarrow> 'a list \<Rightarrow> 'a list" where
  "insert_after lt x [] = [x]"
| "insert_after lt x (y # ys) = (if lt x y then x # y # ys else y # insert_after lt x ys)"

text \<open>\<^verbatim>\<open>m[c] += d\<close> and \<^verbatim>\<open>if (!m[c]) m.erase(c)\<close>.\<close>

definition count_of :: "(u64 \<rightharpoonup> int) \<Rightarrow> u64 \<Rightarrow> int" where
  "count_of m c = (case m c of None \<Rightarrow> 0 | Some n \<Rightarrow> n)"

definition count_add :: "u64 \<Rightarrow> int \<Rightarrow> (u64 \<rightharpoonup> int) \<Rightarrow> (u64 \<rightharpoonup> int)" where
  "count_add c d m = m(c \<mapsto> count_of m c + d)"

definition count_drop_zero :: "u64 \<Rightarrow> (u64 \<rightharpoonup> int) \<Rightarrow> (u64 \<rightharpoonup> int)" where
  "count_drop_zero c m = (if count_of m c = 0 then m(c := None) else m)"

text \<open>The changes of \<^verbatim>\<open>held_locks\<close>, with the counts changed beside them.\<close>

definition insert_held :: "ceph_filelock \<Rightarrow> lock_state \<Rightarrow> lock_state" where
  "insert_held l s =
     s\<lparr>held_locks := insert_after (\<lambda>x y. fl_start (snd x) < fl_start (snd y)) (ls_next s, l) (held_locks s),
       ls_next := ls_next s + 1,
       client_held_lock_counts := count_add (fl_client l) 1 (client_held_lock_counts s)\<rparr>"

definition erase_held :: "nat \<Rightarrow> u64 \<Rightarrow> lock_state \<Rightarrow> lock_state" where
  "erase_held i c s =
     s\<lparr>held_locks := filter (\<lambda>x. fst x \<noteq> i) (held_locks s),
       client_held_lock_counts := count_add c (- 1) (client_held_lock_counts s)\<rparr>"

definition set_length :: "nat \<Rightarrow> u64 \<Rightarrow> lock_state \<Rightarrow> lock_state" where
  "set_length i n s =
     s\<lparr>held_locks := map (\<lambda>x. if fst x = i then (i, (snd x)\<lparr>fl_length := n\<rparr>) else x) (held_locks s)\<rparr>"

definition drop_zero_held :: "u64 \<Rightarrow> lock_state \<Rightarrow> lock_state" where
  "drop_zero_held c s = s\<lparr>client_held_lock_counts := count_drop_zero c (client_held_lock_counts s)\<rparr>"

section \<open>Waiting locks\<close>

text \<open>The loop starts at the first entry with an equal key.\<close>

fun erase_global :: "ceph_filelock \<Rightarrow> nat \<Rightarrow> (ceph_filelock \<times> nat) list \<Rightarrow> (ceph_filelock \<times> nat) list" where
  "erase_global fl p [] = []"
| "erase_global fl p (x # xs) =
     (if ceph_filelock_compare (fst x) fl \<noteq> 0 then x # xs
      else if snd x = p then xs
      else x # erase_global fl p xs)"

definition remove_global_waiting :: "ceph_filelock \<Rightarrow> nat \<Rightarrow> flock_sys \<Rightarrow> flock_sys" where
  "remove_global_waiting fl p sys =
     (let differs = (\<lambda>x. ceph_filelock_compare (fst x) fl \<noteq> 0); g = global_waiting_locks sys
      in sys\<lparr>global_waiting_locks := takeWhile differs g @ erase_global fl p (dropWhile differs g)\<rparr>)"

definition destroy_lock_state :: "nat \<Rightarrow> flock_sys \<Rightarrow> flock_sys" where
  "destroy_lock_state p sys =
     (if ls_type (fs_state sys p) = CEPH_LOCK_FCNTL
      then fold (\<lambda>l. remove_global_waiting l p) (waiting_locks (fs_state sys p)) sys else sys)"

fun waiting_scan :: "ceph_filelock \<Rightarrow> ceph_filelock list \<Rightarrow> bool" where
  "waiting_scan fl [] = False"
| "waiting_scan fl (l # ls) =
     (if fl_start l > fl_start fl then False
      else if fl_length l = fl_length fl \<and> ceph_filelock_owner_equal l fl then True
      else waiting_scan fl ls)"

definition is_waiting :: "ceph_filelock \<Rightarrow> lock_state \<Rightarrow> bool" where
  "is_waiting fl s = waiting_scan fl (dropWhile (\<lambda>l. fl_start l \<noteq> fl_start fl) (waiting_locks s))"

text \<open>The entry that the loop of \<^verbatim>\<open>remove_waiting\<close> erases, with the entries before and after it.\<close>

fun waiting_split :: "ceph_filelock \<Rightarrow> ceph_filelock list \<Rightarrow> (ceph_filelock list \<times> ceph_filelock \<times> ceph_filelock list) option" where
  "waiting_split fl [] = None"
| "waiting_split fl (l # ls) =
     (if fl_start l > fl_start fl then None
      else if fl_length l = fl_length fl \<and> ceph_filelock_owner_equal l fl then Some ([], l, ls)
      else map_option (\<lambda>(pre, x, post). (l # pre, x, post)) (waiting_split fl ls))"

definition remove_waiting :: "nat \<Rightarrow> ceph_filelock \<Rightarrow> flock_sys \<Rightarrow> flock_sys" where
  "remove_waiting p fl sys =
     (let s = fs_state sys p; before = (\<lambda>l. fl_start l \<noteq> fl_start fl) in
      case waiting_split fl (dropWhile before (waiting_locks s)) of
        None \<Rightarrow> sys
      | Some (pre, l, post) \<Rightarrow>
          (let sys1 = (if ls_type s = CEPH_LOCK_FCNTL then remove_global_waiting l p sys else sys)
           in set_state p (s\<lparr>waiting_locks := takeWhile before (waiting_locks s) @ pre @ post,
                client_waiting_lock_counts :=
                  count_drop_zero (fl_client fl) (count_add (fl_client fl) (- 1) (client_waiting_lock_counts s))\<rparr>) sys1))"

definition add_waiting :: "nat \<Rightarrow> ceph_filelock \<Rightarrow> flock_sys \<Rightarrow> flock_sys" where
  "add_waiting p fl sys =
     (let s = fs_state sys p;
          sys1 = set_state p (s\<lparr>waiting_locks := insert_after (\<lambda>x y. fl_start x < fl_start y) fl (waiting_locks s),
            client_waiting_lock_counts := count_add (fl_client fl) 1 (client_waiting_lock_counts s)\<rparr>) sys
      in if ls_type s = CEPH_LOCK_FCNTL
         then sys1\<lparr>global_waiting_locks :=
                insert_after (\<lambda>x y. ceph_filelock_compare (fst x) (fst y) < 0) (fl, p) (global_waiting_locks sys1)\<rparr>
         else sys1)"

section \<open>Overlapping locks\<close>

definition share_range :: "ceph_filelock \<Rightarrow> u64 \<Rightarrow> u64 \<Rightarrow> bool" where
  "share_range l s e \<longleftrightarrow>
     (fl_start l \<ge> s \<and> fl_start l \<le> e)
     \<or> (fl_start l < s \<and> (fl_start l + fl_length l - 1 \<ge> s \<or> fl_length l = 0))"

definition share_space :: "ceph_filelock \<Rightarrow> ceph_filelock \<Rightarrow> bool" where
  "share_space l lock =
     share_range l (fl_start lock) (if fl_length lock \<noteq> 0 then fl_start lock + (fl_length lock - 1) else - 1)"

text \<open>The entries from the result of \<^verbatim>\<open>get_last_before\<close> back to the first one; none if it is \<^verbatim>\<open>end()\<close>.\<close>

definition get_last_before :: "u64 \<Rightarrow> node list \<Rightarrow> node list" where
  "get_last_before e m = (case takeWhile (\<lambda>x. fl_start (snd x) \<le> e) m of [] \<Rightarrow> take 1 m | xs \<Rightarrow> rev xs)"

definition neighbor_check_lock :: "ceph_filelock \<Rightarrow> ceph_filelock" where
  "neighbor_check_lock lock =
     (if fl_start lock \<noteq> 0
      then lock\<lparr>fl_start := fl_start lock - 1, fl_length := if fl_length lock \<noteq> 0 then fl_length lock + 2 else fl_length lock\<rparr>
      else lock\<lparr>fl_length := if fl_length lock \<noteq> 0 then fl_length lock + 1 else fl_length lock\<rparr>)"

fun overlap_loop :: "ceph_filelock \<Rightarrow> bool \<Rightarrow> node list \<Rightarrow> node list \<times> node list \<Rightarrow> node list \<times> node list" where
  "overlap_loop lock self_neighbors [] acc = acc"
| "overlap_loop lock self_neighbors (x # xs) (overlaps, neighbors) =
     (let acc =
        (if share_space (snd x) lock then (x # overlaps, neighbors)
         else if self_neighbors \<and> ceph_filelock_owner_equal (neighbor_check_lock lock) (snd x)
                 \<and> share_space (snd x) (neighbor_check_lock lock) then (overlaps, x # neighbors)
         else (overlaps, neighbors))
      in if fl_start (snd x) < fl_start lock \<and> fl_type (snd x) = CEPH_LOCK_EXCL then acc
         else overlap_loop lock self_neighbors xs acc)"

definition get_overlapping_locks :: "ceph_filelock \<Rightarrow> bool \<Rightarrow> lock_state \<Rightarrow> node list \<times> node list" where
  "get_overlapping_locks lock self_neighbors s =
     (let endpoint = (if fl_length lock \<noteq> 0 then fl_start lock + fl_length lock else - 1)
      in overlap_loop lock self_neighbors (get_last_before endpoint (held_locks s)) ([], []))"

text \<open>The locks of others, and those of the owner.\<close>

definition split_by_owner :: "ceph_filelock \<Rightarrow> node list \<Rightarrow> node list \<times> node list" where
  "split_by_owner owner locks =
     (filter (\<lambda>x. \<not> ceph_filelock_owner_equal (snd x) owner) locks,
      filter (\<lambda>x. ceph_filelock_owner_equal (snd x) owner) locks)"

definition contains_exclusive_lock :: "node list \<Rightarrow> ceph_filelock option" where
  "contains_exclusive_lock locks = map_option snd (List.find (\<lambda>x. fl_type (snd x) = CEPH_LOCK_EXCL) locks)"

section \<open>Deadlocks\<close>

fun owners_insert :: "ceph_filelock \<Rightarrow> ceph_filelock list \<Rightarrow> ceph_filelock list" where
  "owners_insert x [] = [x]"
| "owners_insert x (y # ys) =
     (if ceph_filelock_compare x y < 0 then x # y # ys
      else if ceph_filelock_compare y x < 0 then y # owners_insert x ys
      else y # ys)"

definition MAX_DEADLK_DEPTH :: nat where "MAX_DEADLK_DEPTH = 5"

text \<open>The locks that conflict with \<open>fl\<close> among those that overlap it.\<close>

definition conflicting :: "ceph_filelock \<Rightarrow> node list \<Rightarrow> ceph_filelock list" where
  "conflicting fl locks =
     filter (\<lambda>l. \<not> (fl_type fl = CEPH_LOCK_SHARED \<and> fl_type l = CEPH_LOCK_SHARED)) (map snd locks)"

definition waiting_of :: "flock_sys \<Rightarrow> ceph_filelock \<Rightarrow> (ceph_filelock \<times> nat) list" where
  "waiting_of sys owner =
     takeWhile (\<lambda>q. ceph_filelock_owner_equal (fst q) owner)
       (dropWhile (\<lambda>q. ceph_filelock_compare (fst q) owner < 0) (global_waiting_locks sys))"

text \<open>The locks of others that overlap a lock.\<close>

definition others_overlapping :: "ceph_filelock \<Rightarrow> lock_state \<Rightarrow> node list" where
  "others_overlapping fl s = fst (split_by_owner fl (fst (get_overlapping_locks fl False s)))"

text \<open>The first argument is how much deeper the search may go, \<^verbatim>\<open>MAX_DEADLK_DEPTH - depth\<close>.\<close>

primrec deadlock_search :: "nat \<Rightarrow> flock_sys \<Rightarrow> ceph_filelock \<Rightarrow> node list \<Rightarrow> ceph_filelock option \<Rightarrow> bool" where
  "deadlock_search 0 = (\<lambda>sys fl locks first_fl.
     (case first_fl of None \<Rightarrow> False | Some f \<Rightarrow> list_ex (ceph_filelock_owner_equal f) (conflicting fl locks)))"
| "deadlock_search (Suc n) = (\<lambda>sys fl locks first_fl.
     (case first_fl of None \<Rightarrow> False | Some f \<Rightarrow> list_ex (ceph_filelock_owner_equal f) (conflicting fl locks))
     \<or> (let lock_owners = fold (\<lambda>l. owners_insert (l\<lparr>fl_start := 0, fl_length := 0, fl_type := 0\<rparr>)) (conflicting fl locks) [];
            first = (case first_fl of None \<Rightarrow> fl | Some f \<Rightarrow> f)
        in list_ex (\<lambda>owner. list_ex (\<lambda>(q, p).
             (let locks' = others_overlapping q (fs_state sys p)
              in locks' \<noteq> [] \<and> deadlock_search n sys q locks' (Some first))) (waiting_of sys owner)) lock_owners))"

definition is_deadlock :: "nat \<Rightarrow> ceph_filelock \<Rightarrow> node list \<Rightarrow> flock_sys \<Rightarrow> bool" where
  "is_deadlock p fl overlapping_locks sys =
     (if ls_type (fs_state sys p) \<noteq> CEPH_LOCK_FCNTL then False
      else deadlock_search MAX_DEADLK_DEPTH sys fl overlapping_locks None)"

section \<open>Setting a lock\<close>

text \<open>
  One old lock of the owner that overlaps the new one. \<open>new_lock_to_end\<close> is read once, before the loop. The end of two
  merged locks goes through an \<^verbatim>\<open>int\<close>.
\<close>

definition adjust_old :: "bool \<Rightarrow> nat \<Rightarrow> ceph_filelock \<times> lock_state \<Rightarrow> (ceph_filelock \<times> lock_state) option" where
  "adjust_old new_lock_to_end i = (\<lambda>(new_lock, s). do {
     old_lock \<leftarrow> map_of (held_locks s) i;
     let c = fl_client old_lock;
     let old_lock_to_end = (fl_length old_lock = 0);
     let old_lock_start = fl_start old_lock;
     let old_lock_end = fl_start old_lock + fl_length old_lock - 1;
     let new_lock_start = fl_start new_lock;
     let new_lock_end = fl_start new_lock + fl_length new_lock - 1;
     let cut = (\<lambda>s1. if old_lock_start < new_lock_start then set_length i (new_lock_start - old_lock_start) s1
                     else erase_held i c s1);
     let (new_lock', s') =
       (if new_lock_to_end \<or> old_lock_to_end then
          if fl_type old_lock = fl_type new_lock then
            (new_lock\<lparr>fl_start := if new_lock_start < old_lock_start then new_lock_start else old_lock_start,
                      fl_length := 0\<rparr>, erase_held i c s)
          else if new_lock_to_end then (new_lock, cut s)
          else (new_lock, cut (insert_held (old_lock\<lparr>fl_start := new_lock_end + 1\<rparr>) s))
        else
          if fl_type old_lock = fl_type new_lock then
            (let start' = (if old_lock_start < new_lock_start then old_lock_start else new_lock_start);
                 new_end = signed_take_bit 31 (if new_lock_end > old_lock_end then new_lock_end else old_lock_end)
             in (new_lock\<lparr>fl_start := start', fl_length := new_end - start' + 1\<rparr>, erase_held i c s))
          else
            (new_lock, cut (if old_lock_end > new_lock_end
                            then insert_held (old_lock\<lparr>fl_start := new_lock_end + 1,
                                                       fl_length := old_lock_end - (new_lock_end + 1) + 1\<rparr>) s
                            else s)));
     Some (new_lock', drop_zero_held c s')
   })"

text \<open>One lock of the owner next to the new one; \<open>None\<close> is \<^verbatim>\<open>ceph_abort\<close>.\<close>

definition adjust_neighbor :: "nat \<Rightarrow> ceph_filelock \<times> lock_state \<Rightarrow> (ceph_filelock \<times> lock_state) option" where
  "adjust_neighbor i = (\<lambda>(new_lock, s). do {
     old_lock \<leftarrow> map_of (held_locks s) i;
     let c = fl_client old_lock;
     if fl_type old_lock = fl_type new_lock then do {
       new_lock' \<leftarrow>
         (if fl_length new_lock = 0 then
            (if fl_start old_lock + fl_length old_lock = fl_start new_lock
             then Some (new_lock\<lparr>fl_start := fl_start old_lock\<rparr>) else None)
          else if fl_length old_lock = 0 then
            (if fl_start new_lock + fl_length new_lock = fl_start old_lock
             then Some (new_lock\<lparr>fl_length := 0\<rparr>) else None)
          else if fl_start old_lock + fl_length old_lock = fl_start new_lock then
            Some (new_lock\<lparr>fl_start := fl_start old_lock, fl_length := fl_length old_lock + fl_length new_lock\<rparr>)
          else if fl_start new_lock + fl_length new_lock = fl_start old_lock then
            Some (new_lock\<lparr>fl_length := fl_length old_lock + fl_length new_lock\<rparr>)
          else Some new_lock);
       Some (new_lock', drop_zero_held c (erase_held i c s))
     } else Some (new_lock, drop_zero_held c s)
   })"

definition adjust_locks :: "nat list \<Rightarrow> ceph_filelock \<Rightarrow> nat list \<Rightarrow> lock_state \<Rightarrow> (ceph_filelock \<times> lock_state) option" where
  "adjust_locks old_locks new_lock neighbor_locks s =
     fold_opt (adjust_old (fl_length new_lock = 0)) old_locks (new_lock, s) \<bind> fold_opt adjust_neighbor neighbor_locks"

text \<open>The results of \<^verbatim>\<open>add_lock\<close> are whether the lock was set and whether a deadlock was found.\<close>

definition add_lock :: "nat \<Rightarrow> ceph_filelock \<Rightarrow> bool \<Rightarrow> bool \<Rightarrow> flock_sys \<Rightarrow> (bool \<times> bool \<times> flock_sys) option" where
  "add_lock p new_lock wait_on_fail replay sys =
     (let (locks, neighbor_locks) = get_overlapping_locks new_lock True (fs_state sys p);
          (overlapping_locks, self_overlapping_locks) = split_by_owner new_lock locks;
          blocked =
            (if wait_on_fail \<and> \<not> replay then
               (if is_deadlock p new_lock overlapping_locks sys then Some (False, True, sys)
                else Some (False, False, add_waiting p new_lock sys))
             else Some (False, False, sys));
          granted =
            (let sys1 = remove_waiting p new_lock sys
             in adjust_locks (map fst self_overlapping_locks) new_lock (map fst neighbor_locks) (fs_state sys1 p)
                \<bind> (\<lambda>(new_lock', s). Some (True, False, set_state p (insert_held new_lock' s) sys1)))
      in if overlapping_locks \<noteq> [] then
           (if fl_type new_lock = CEPH_LOCK_EXCL then blocked
            else if contains_exclusive_lock overlapping_locks \<noteq> None then blocked
            else granted)
         else granted)"

definition look_for_lock :: "ceph_filelock \<Rightarrow> lock_state \<Rightarrow> ceph_filelock" where
  "look_for_lock testing_lock s =
     (case others_overlapping testing_lock s of
        [] \<Rightarrow> testing_lock\<lparr>fl_type := CEPH_LOCK_UNLOCK\<rparr>
      | x # xs \<Rightarrow>
          if fl_type testing_lock = CEPH_LOCK_EXCL then snd x
          else (case contains_exclusive_lock (x # xs) of
                  Some l \<Rightarrow> l
                | None \<Rightarrow> testing_lock\<lparr>fl_type := CEPH_LOCK_UNLOCK\<rparr>))"

section \<open>Removing locks\<close>

definition remove_old :: "ceph_filelock \<Rightarrow> nat \<Rightarrow> lock_state \<Rightarrow> lock_state option" where
  "remove_old removal_lock i s = do {
     old_lock \<leftarrow> map_of (held_locks s) i;
     let c = fl_client old_lock;
     let removal_start = fl_start removal_lock;
     let removal_end = removal_start + fl_length removal_lock - 1;
     let old_lock_end = fl_start old_lock + fl_length old_lock - 1;
     let cut = (\<lambda>s1. if fl_start old_lock < removal_start then set_length i (removal_start - fl_start old_lock) s1
                     else erase_held i c s1);
     let s' =
       (if fl_length removal_lock = 0 then cut s
        else if fl_length old_lock = 0 then cut (insert_held (old_lock\<lparr>fl_start := removal_end + 1\<rparr>) s)
        else cut (if old_lock_end > removal_end
                  then insert_held (old_lock\<lparr>fl_start := removal_end + 1,
                                             fl_length := old_lock_end - (removal_end + 1) + 1\<rparr>) s
                  else s));
     Some (drop_zero_held c s')
   }"

definition remove_lock :: "nat \<Rightarrow> ceph_filelock \<Rightarrow> flock_sys \<Rightarrow> flock_sys option" where
  "remove_lock p removal_lock sys =
     (let (locks, _) = get_overlapping_locks removal_lock False (fs_state sys p);
          (_, self_overlapping_locks) = split_by_owner removal_lock locks
      in map_option (\<lambda>s. set_state p s sys)
           (fold_opt (remove_old removal_lock) (map fst self_overlapping_locks) (fs_state sys p)))"

definition remove_all_from :: "nat \<Rightarrow> u64 \<Rightarrow> flock_sys \<Rightarrow> bool \<times> flock_sys" where
  "remove_all_from p client sys =
     (let s = fs_state sys p;
          cleared_any = (client_held_lock_counts s client \<noteq> None);
          s1 = (if cleared_any
                then s\<lparr>held_locks := filter (\<lambda>x. fl_client (snd x) \<noteq> client) (held_locks s),
                       client_held_lock_counts := (client_held_lock_counts s)(client := None)\<rparr>
                else s)
      in if client_waiting_lock_counts s1 client \<noteq> None then
           (let mine = filter (\<lambda>l. fl_client l = client) (waiting_locks s1);
                sys1 = (if ls_type s1 = CEPH_LOCK_FCNTL then fold (\<lambda>l. remove_global_waiting l p) mine sys else sys)
            in (cleared_any, set_state p (s1\<lparr>waiting_locks := filter (\<lambda>l. fl_client l \<noteq> client) (waiting_locks s1),
                  client_waiting_lock_counts := (client_waiting_lock_counts s1)(client := None)\<rparr>) sys1))
         else (cleared_any, set_state p s1 sys))"

section \<open>Requests\<close>

text \<open>
  The part of the handlers that works on the lock states of the file; \<open>fcntl_p\<close> and \<open>flock_p\<close> are the addresses of its two
  states. A request is answered with an error number, and the waiters of the file are woken or not, or it waits.
\<close>

datatype setlock_result = Respond int bool | Wait_flock

definition EINTR :: int where "EINTR = 4"
definition EWOULDBLOCK :: int where "EWOULDBLOCK = 11"
definition EINVAL :: int where "EINVAL = 22"
definition EDEADLK :: int where "EDEADLK = 35"
definition EOPNOTSUPP :: int where "EOPNOTSUPP = 95"

definition setlock_unlock :: "nat \<Rightarrow> bool \<Rightarrow> ceph_filelock \<Rightarrow> flock_sys \<Rightarrow> (setlock_result \<times> flock_sys) option" where
  "setlock_unlock p interrupt set_lock sys =
     (if is_waiting set_lock (fs_state sys p) then Some (Respond 0 True, remove_waiting p set_lock sys)
      else if \<not> interrupt then map_option (\<lambda>sys'. (Respond 0 True, sys')) (remove_lock p set_lock sys)
      else Some (Respond 0 False, sys))"

definition setlock_lock :: "nat \<Rightarrow> ceph_filelock \<Rightarrow> bool \<Rightarrow> bool \<Rightarrow> flock_sys \<Rightarrow> (setlock_result \<times> flock_sys) option" where
  "setlock_lock p set_lock will_wait flock_was_waiting sys =
     (if flock_was_waiting \<and> \<not> is_waiting set_lock (fs_state sys p) then Some (Respond (- EINTR) False, sys)
      else do {
        (added, deadlock, sys') \<leftarrow> add_lock p set_lock will_wait flock_was_waiting sys;
        if added then Some (Respond 0 False, sys')
        else if deadlock then Some (Respond (- EDEADLK) False, sys')
        else if \<not> will_wait then Some (Respond (- EWOULDBLOCK) False, sys')
        else do {
          assert_that (is_waiting set_lock (fs_state sys' p));
          Some (Wait_flock, sys')
        }
      })"

definition handle_client_file_setlock ::
  "nat \<Rightarrow> nat \<Rightarrow> int \<Rightarrow> ceph_filelock \<Rightarrow> bool \<Rightarrow> bool \<Rightarrow> flock_sys \<Rightarrow> (setlock_result \<times> flock_sys) option" where
  "handle_client_file_setlock fcntl_p flock_p rule set_lock will_wait flock_was_waiting sys =
     (let interrupt = (rule = CEPH_LOCK_FLOCK_INTR \<or> rule = CEPH_LOCK_FCNTL_INTR);
          handle = (\<lambda>p. if fl_type set_lock = CEPH_LOCK_UNLOCK then setlock_unlock p interrupt set_lock sys
                        else setlock_lock p set_lock will_wait flock_was_waiting sys)
      in if rule = CEPH_LOCK_FLOCK_INTR \<or> rule = CEPH_LOCK_FLOCK then handle flock_p
         else if rule = CEPH_LOCK_FCNTL_INTR \<or> rule = CEPH_LOCK_FCNTL then handle fcntl_p
         else Some (Respond (- EOPNOTSUPP) False, sys))"

definition handle_client_file_readlock ::
  "nat \<Rightarrow> nat \<Rightarrow> int \<Rightarrow> ceph_filelock \<Rightarrow> flock_sys \<Rightarrow> int + ceph_filelock" where
  "handle_client_file_readlock fcntl_p flock_p rule checking_lock sys =
     (if rule = CEPH_LOCK_FLOCK then Inr (look_for_lock checking_lock (fs_state sys flock_p))
      else if rule = CEPH_LOCK_FCNTL then Inr (look_for_lock checking_lock (fs_state sys fcntl_p))
      else Inl (- EINVAL))"

text \<open>When a client loses its last capability on a file; the result says whether the waiters are woken.\<close>

definition remove_client_locks :: "nat option \<Rightarrow> nat option \<Rightarrow> u64 \<Rightarrow> flock_sys \<Rightarrow> bool \<times> flock_sys" where
  "remove_client_locks fcntl_locks flock_locks client sys =
     (let (fcntl_removed, sys1) = (case fcntl_locks of None \<Rightarrow> (False, sys) | Some p \<Rightarrow> remove_all_from p client sys);
          (flock_removed, sys2) = (case flock_locks of None \<Rightarrow> (False, sys1) | Some p \<Rightarrow> remove_all_from p client sys1)
      in (fcntl_removed \<or> flock_removed, sys2))"

end
