(* ===== verification/Flock_Held.thy ===== *)
theory Flock_Held
  imports Flock
begin

text \<open>
  The locks held on one file: ranges of bytes, the invariant of \<^const>\<open>held_locks\<close> and of the counts, and what
  \<^const>\<open>get_overlapping_locks\<close>, \<^const>\<open>adjust_locks\<close> and \<^const>\<open>remove_old\<close> do in terms of bytes.
\<close>

section \<open>Ranges\<close>

definition lo :: "ceph_filelock \<Rightarrow> nat" where
  "lo l = unat (fl_start l)"

definition hi :: "ceph_filelock \<Rightarrow> nat" where
  "hi l = (if fl_length l = 0 then 2 ^ 64 else unat (fl_start l) + unat (fl_length l))"

text \<open>
  Ranges that end below a bound; an open range starts below it. A range that fits into the largest number is one whose start and length do not
  wrap around.
\<close>

definition fits :: "u64 \<Rightarrow> ceph_filelock \<Rightarrow> bool" where
  "fits n l \<longleftrightarrow> unat (fl_start l) + unat (fl_length l) \<le> unat n"

abbreviation small :: "ceph_filelock \<Rightarrow> bool" where
  "small \<equiv> fits (2 ^ 31)"

definition overlaps :: "ceph_filelock \<Rightarrow> ceph_filelock \<Rightarrow> bool" where
  "overlaps a b \<longleftrightarrow> lo a < hi b \<and> lo b < hi a"

lemma unat_u64: "unat (w :: u64) < 2 ^ 64"
  using unsigned_less [where 'a = nat, of w] by simp

lemma lo_less_hi: "lo l < hi l"
  using unat_u64 by (auto simp: lo_def hi_def unat_gt_0)

lemma overlaps_sym: "overlaps a b \<longleftrightarrow> overlaps b a"
  by (auto simp: overlaps_def)

lemma unat_end:
  assumes "fits n l"
  shows "unat (fl_start l + fl_length l) = unat (fl_start l) + unat (fl_length l)"
  using assms unat_u64 [of n] by (simp add: fits_def unat_add_lem [THEN iffD1])

lemma unat_last:
  assumes "fits n l" "fl_length l \<noteq> 0"
  shows "unat (fl_start l + fl_length l - 1) = hi l - 1"
proof -
  have "0 < unat (fl_length l)" using assms(2) by (simp add: unat_gt_0)
  then have "0 < unat (fl_start l + fl_length l)" using unat_end [OF assms(1)] by linarith
  then have "1 \<le> fl_start l + fl_length l" by (simp add: word_le_nat_alt)
  then show ?thesis using unat_end [OF assms(1)] assms(2) by (simp add: unat_sub hi_def)
qed

lemma share_space_iff:
  assumes "fits n l" "fits n k"
  shows "share_space l k \<longleftrightarrow> overlaps l k"
proof -
  have e: "unat (fl_start k + (fl_length k - 1)) = hi k - 1" if "fl_length k \<noteq> 0"
    using unat_last [OF assms(2) that] by (simp add: add_diff_eq)
  have m: "fl_start l \<le> (- 1 :: u64)" by simp
  have "lo l < 2 ^ 64" "lo k < 2 ^ 64" using unat_u64 by (simp_all add: lo_def)
  then show ?thesis
    using e unat_last [OF assms(1)] lo_less_hi [of l] lo_less_hi [of k] m
    by (auto simp: share_space_def share_range_def overlaps_def word_le_nat_alt word_less_nat_alt lo_def [symmetric]) (auto simp: hi_def lo_def split: if_splits)
qed

definition adjacent :: "ceph_filelock \<Rightarrow> ceph_filelock \<Rightarrow> bool" where
  "adjacent a b \<longleftrightarrow> hi a = lo b \<or> lo a = hi b"

lemma neighbor_range:
  assumes "small k"
  shows "lo (neighbor_check_lock k) = lo k - 1" "fits (2 ^ 31 + 1) (neighbor_check_lock k)"
    "hi (neighbor_check_lock k) = (if fl_length k = 0 then 2 ^ 64 else hi k + 1)"
proof -
  have s: "unat (fl_start k - 1) = unat (fl_start k) - 1" if "fl_start k \<noteq> 0"
    using that by (simp add: unat_sub word_le_nat_alt unat_gt_0 Suc_le_eq)
  have l: "unat (fl_length k + 1) = unat (fl_length k) + 1" "unat (fl_length k + 2) = unat (fl_length k) + 2"
    using assms by (simp_all add: fits_def unat_word_ariths)
  have p: "0 < unat (fl_start k)" if "fl_start k \<noteq> 0" using that by (simp add: unat_gt_0)
  show "lo (neighbor_check_lock k) = lo k - 1"
    using s by (simp add: lo_def neighbor_check_lock_def)
  show "fits (2 ^ 31 + 1) (neighbor_check_lock k)"
    using assms s l p by (auto simp: fits_def neighbor_check_lock_def)
  have "fl_length k + 1 \<noteq> 0" "fl_length k + 2 \<noteq> 0" using l by (auto simp: unat_eq_0 [symmetric])
  then show "hi (neighbor_check_lock k) = (if fl_length k = 0 then 2 ^ 64 else hi k + 1)"
    using s l p by (auto simp: hi_def neighbor_check_lock_def)
qed

lemma neighbor_iff:
  assumes "small l" "small k" "\<not> overlaps l k"
  shows "share_space l (neighbor_check_lock k) \<longleftrightarrow> adjacent l k"
proof -
  have "fits (2 ^ 31 + 1) l" using assms(1) by (simp add: fits_def)
  then have "share_space l (neighbor_check_lock k) \<longleftrightarrow> overlaps l (neighbor_check_lock k)"
    using share_space_iff neighbor_range(2) [OF assms(2)] by simp
  moreover have "lo l < 2 ^ 64" "fl_length k = 0 \<Longrightarrow> hi k = 2 ^ 64" using unat_u64 by (simp_all add: lo_def hi_def)
  ultimately show ?thesis
    using assms(3) lo_less_hi [of l] lo_less_hi [of k] unfolding overlaps_def adjacent_def neighbor_range [OF assms(2)] by auto
qed

lemma owner_equal_equiv:
  "ceph_filelock_owner_equal a a"
  "ceph_filelock_owner_equal a b \<Longrightarrow> ceph_filelock_owner_equal b a"
  "ceph_filelock_owner_equal a b \<Longrightarrow> ceph_filelock_owner_equal b c \<Longrightarrow> ceph_filelock_owner_equal a c"
  by (auto simp: ceph_filelock_owner_equal_def split: if_splits)

lemma owner_equal_client: "ceph_filelock_owner_equal a b \<Longrightarrow> fl_client a = fl_client b"
  by (simp add: ceph_filelock_owner_equal_def split: if_splits)

section \<open>The invariant\<close>

text \<open>
  Two locks are compatible if they do not overlap or if they have different owners and are both not exclusive. The counts are
  exact, and a client without locks has none.
\<close>

definition compatible :: "ceph_filelock \<Rightarrow> ceph_filelock \<Rightarrow> bool" where
  "compatible a b \<longleftrightarrow> \<not> overlaps a b
     \<or> \<not> ceph_filelock_owner_equal a b \<and> fl_type a \<noteq> CEPH_LOCK_EXCL \<and> fl_type b \<noteq> CEPH_LOCK_EXCL"

definition nodes_ok :: "lock_state \<Rightarrow> bool" where
  "nodes_ok s \<longleftrightarrow> sorted (map (\<lambda>x. fl_start (snd x)) (held_locks s)) \<and> distinct (map fst (held_locks s))
     \<and> (\<forall>x\<in>set (held_locks s). fst x < ls_next s)"

definition client_nodes :: "lock_state \<Rightarrow> u64 \<Rightarrow> node set" where
  "client_nodes s c = {x \<in> set (held_locks s). fl_client (snd x) = c}"

definition counts_exact :: "lock_state \<Rightarrow> bool" where
  "counts_exact s \<longleftrightarrow> (\<forall>c. count_of (client_held_lock_counts s) c = int (card (client_nodes s c)))"

definition no_zero :: "(u64 \<rightharpoonup> int) \<Rightarrow> bool" where
  "no_zero m \<longleftrightarrow> (\<forall>c. m c \<noteq> Some 0)"

definition held_ok :: "u64 \<Rightarrow> lock_state \<Rightarrow> bool" where
  "held_ok N s \<longleftrightarrow> nodes_ok s \<and> counts_exact s \<and> no_zero (client_held_lock_counts s)
     \<and> (\<forall>x\<in>set (held_locks s). fits N (snd x))
     \<and> (\<forall>x\<in>set (held_locks s). \<forall>y\<in>set (held_locks s). x \<noteq> y \<longrightarrow> compatible (snd x) (snd y))"

abbreviation held_inv :: "lock_state \<Rightarrow> bool" where
  "held_inv \<equiv> held_ok (2 ^ 31)"

lemma nodes_eqI: "nodes_ok s \<Longrightarrow> x \<in> set (held_locks s) \<Longrightarrow> y \<in> set (held_locks s) \<Longrightarrow> fst x = fst y \<Longrightarrow> x = y"
  by (auto simp: nodes_ok_def distinct_map inj_on_def)

lemma nodes_fst_iff:
  assumes "nodes_ok s" "(i, l) \<in> set (held_locks s)" "x \<in> set (held_locks s)"
  shows "fst x = i \<longleftrightarrow> x = (i, l)"
  using nodes_eqI [OF assms(1,3,2)] by auto

lemma nodes_map_of: "nodes_ok s \<Longrightarrow> map_of (held_locks s) i = Some l \<longleftrightarrow> (i, l) \<in> set (held_locks s)"
  by (simp add: nodes_ok_def)

section \<open>Overlapping locks\<close>

lemma overlap_loop_filter:
  defines "A \<equiv> \<lambda>lock x. share_space (snd x) lock"
    and "B \<equiv> \<lambda>lock sn x. \<not> share_space (snd x) lock \<and> sn \<and> ceph_filelock_owner_equal (neighbor_check_lock lock) (snd x)
      \<and> share_space (snd x) (neighbor_check_lock lock)"
  assumes "\<And>ys x zs z. xs = ys @ x # zs \<Longrightarrow> fl_start (snd x) < fl_start lock \<Longrightarrow> fl_type (snd x) = CEPH_LOCK_EXCL
    \<Longrightarrow> z \<in> set zs \<Longrightarrow> \<not> A lock z \<and> \<not> B lock sn z"
  shows "overlap_loop lock sn xs (ov, nb) = (rev (filter (A lock) xs) @ ov, rev (filter (B lock sn) xs) @ nb)"
  using assms(3)
proof (induction xs arbitrary: ov nb)
  case (Cons x xs)
  have ih: "overlap_loop lock sn xs (ov, nb) = (rev (filter (A lock) xs) @ ov, rev (filter (B lock sn) xs) @ nb)" for ov nb
    using Cons.prems by (intro Cons.IH) (metis append_Cons)
  show ?case
  proof (cases "fl_start (snd x) < fl_start lock \<and> fl_type (snd x) = CEPH_LOCK_EXCL")
    case True
    then have "\<not> A lock z \<and> \<not> B lock sn z" if "z \<in> set xs" for z using Cons.prems [of "[]" x xs z] that by simp
    then have "filter (A lock) xs = []" "filter (B lock sn) xs = []" by (auto simp: filter_empty_conv)
    then show ?thesis using True by (cases sn) (simp_all add: Let_def A_def B_def)
  next
    case False
    then have "overlap_loop lock sn (x # xs) (ov, nb)
        = overlap_loop lock sn xs (if A lock x then (x # ov, nb) else if B lock sn x then (ov, x # nb) else (ov, nb))"
      by (auto simp: A_def B_def Let_def)
    moreover have "\<not> (A lock x \<and> B lock sn x)" by (simp add: A_def B_def)
    ultimately show ?thesis using ih by auto
  qed
qed simp

lemma exclusive_hides:
  assumes "held_ok N s" "x \<in> set (held_locks s)" "z \<in> set (held_locks s)" "x \<noteq> z" "fl_start (snd z) \<le> fl_start (snd x)"
    and "fl_start (snd x) < fl_start lock" "fl_type (snd x) = CEPH_LOCK_EXCL"
  shows "\<not> overlaps (snd z) lock \<and> \<not> adjacent (snd z) lock"
proof -
  have "compatible (snd x) (snd z)" using assms(1-4) by (simp add: held_ok_def)
  then have "\<not> overlaps (snd x) (snd z)" using assms(7) by (simp add: compatible_def)
  moreover have "lo (snd z) \<le> lo (snd x)" "lo (snd x) < lo lock"
    using assms(5,6) by (simp_all add: lo_def word_le_nat_alt word_less_nat_alt)
  ultimately show ?thesis
    using lo_less_hi [of "snd x"] lo_less_hi [of "snd z"] lo_less_hi [of lock] by (auto simp: overlaps_def adjacent_def)
qed

definition overlapping_nodes :: "ceph_filelock \<Rightarrow> lock_state \<Rightarrow> node list" where
  "overlapping_nodes lock s = filter (\<lambda>x. overlaps (snd x) lock) (held_locks s)"

definition neighbor_nodes :: "ceph_filelock \<Rightarrow> lock_state \<Rightarrow> node list" where
  "neighbor_nodes lock s =
     filter (\<lambda>x. \<not> overlaps (snd x) lock \<and> ceph_filelock_owner_equal (snd x) lock \<and> adjacent (snd x) lock) (held_locks s)"

lemma owner_equal_neighbor: "ceph_filelock_owner_equal (neighbor_check_lock lock) l \<longleftrightarrow> ceph_filelock_owner_equal l lock"
  by (auto simp: ceph_filelock_owner_equal_def neighbor_check_lock_def split: if_splits)

lemma last_before_visits:
  assumes "sorted (map (\<lambda>x. fl_start (snd x)) m)" "\<And>x. x \<in> set m \<Longrightarrow> P x \<Longrightarrow> fl_start (snd x) \<le> e"
  shows "rev (filter P (get_last_before e m)) = filter P m" "\<exists>post. m = rev (get_last_before e m) @ post"
proof -
  let ?pre = "takeWhile (\<lambda>x. fl_start (snd x) \<le> e) m" and ?post = "dropWhile (\<lambda>x. fl_start (snd x) \<le> e) m"
  have late: "\<not> fl_start (snd x) \<le> e" if "x \<in> set ?post" for x
  proof -
    have "?post \<noteq> []" using length_pos_if_in_set [OF that] by (rule length_greater_0_conv [THEN iffD1])
    then have "\<not> fl_start (snd (hd ?post)) \<le> e" by (rule hd_dropWhile)
    moreover have "sorted (map (\<lambda>x. fl_start (snd x)) (?pre @ ?post))" using assms(1) by simp
    then have "sorted (map (\<lambda>x. fl_start (snd x)) ?post)" by (simp only: map_append sorted_append)
    then have "fl_start (snd (hd ?post)) \<le> fl_start (snd x)" using that by (cases ?post) auto
    ultimately show ?thesis by auto
  qed
  have "\<not> P x" if "x \<in> set ?post" for x using late [OF that] assms(2) set_dropWhileD [OF that] by blast
  then have p: "filter P ?post = []" by (simp add: filter_empty_conv)
  have "filter P (?pre @ ?post) = filter P ?pre" using p by (simp only: filter_append append_Nil2)
  then have f: "filter P m = filter P ?pre" by (simp only: takeWhile_dropWhile_id)
  show "\<exists>post. m = rev (get_last_before e m) @ post"
  proof (cases ?pre)
    case Nil
    then have "m = rev (get_last_before e m) @ drop 1 m" by (cases m) (simp_all add: get_last_before_def)
    then show ?thesis by blast
  next
    case (Cons a xs)
    then have "rev (get_last_before e m) = ?pre" by (simp add: get_last_before_def)
    then have "m = rev (get_last_before e m) @ ?post" by (simp only: takeWhile_dropWhile_id)
    then show ?thesis by blast
  qed
  show "rev (filter P (get_last_before e m)) = filter P m"
  proof (cases ?pre)
    case Nil
    then show ?thesis using f by (cases m) (auto simp: get_last_before_def split: if_splits)
  next
    case (Cons a xs)
    then have "get_last_before e m = rev ?pre" by (simp add: get_last_before_def)
    then show ?thesis using f by (simp only: rev_filter rev_rev_ident)
  qed
qed

lemma overlapping_locks_filter:
  assumes "held_ok N s" "fits N lock" "sn \<Longrightarrow> N = 2 ^ 31"
  shows "get_overlapping_locks lock sn s = (overlapping_nodes lock s, if sn then neighbor_nodes lock s else [])"
proof -
  define m where "m = held_locks s"
  define e where "e = (if fl_length lock \<noteq> 0 then fl_start lock + fl_length lock else - 1)"
  have m: "sorted (map (\<lambda>x. fl_start (snd x)) m)" "distinct m" "\<And>x. x \<in> set m \<Longrightarrow> fits N (snd x)"
    using assms(1) distinct_map by (auto simp: held_ok_def nodes_ok_def m_def)
  define A where "A = (\<lambda>x :: node. share_space (snd x) lock)"
  define B where "B = (\<lambda>x :: node. \<not> share_space (snd x) lock \<and> sn \<and> ceph_filelock_owner_equal (neighbor_check_lock lock) (snd x)
      \<and> share_space (snd x) (neighbor_check_lock lock))"
  have A: "A x \<longleftrightarrow> overlaps (snd x) lock" if "x \<in> set m" for x
    using share_space_iff [OF m(3) [OF that] assms(2)] by (simp add: A_def)
  have B: "B x \<longleftrightarrow> \<not> overlaps (snd x) lock \<and> sn \<and> ceph_filelock_owner_equal (snd x) lock \<and> adjacent (snd x) lock" if "x \<in> set m" for x
    using A [OF that] neighbor_iff [of "snd x" lock] m(3) [OF that] assms(2,3) by (cases sn) (auto simp: A_def B_def owner_equal_neighbor)
  have e: "fl_start (snd x) \<le> e" if "x \<in> set m" "A x \<or> B x" for x
  proof (cases "fl_length lock = 0")
    case False
    have "lo (snd x) \<le> hi lock"
      using A [OF that(1)] B [OF that(1)] that(2) lo_less_hi [of "snd x"] lo_less_hi [of lock] by (auto simp: overlaps_def adjacent_def)
    then show ?thesis using unat_end [OF assms(2)] False by (simp add: e_def word_le_nat_alt lo_def hi_def)
  qed (simp add: e_def)
  obtain post where post: "m = rev (get_last_before e m) @ post" using last_before_visits(2) [OF m(1), of "\<lambda>_. False"] by blast
  have hides: "\<not> A z \<and> \<not> B z" if v: "get_last_before e m = ys @ x # zs" "fl_start (snd x) < fl_start lock"
    "fl_type (snd x) = CEPH_LOCK_EXCL" "z \<in> set zs" for ys x zs z
  proof -
    have s: "m = rev zs @ x # rev ys @ post" using post v(1) by simp
    then have xz: "x \<in> set m" "z \<in> set m" "x \<noteq> z" "fl_start (snd z) \<le> fl_start (snd x)"
      using m(1,2) v(4) by (auto simp: sorted_append)
    then show ?thesis using exclusive_hides [OF assms(1), of x z lock] v(2,3) A B by (auto simp: m_def)
  qed
  have "overlap_loop lock sn (get_last_before e m) ([], []) = (rev (filter A (get_last_before e m)) @ [], rev (filter B (get_last_before e m)) @ [])"
    unfolding A_def B_def by (rule overlap_loop_filter [of "get_last_before e m" lock sn "[]" "[]"]) (rule hides [unfolded A_def B_def]; assumption)
  also have "\<dots> = (filter A m, filter B m)" using last_before_visits(1) [OF m(1)] e by simp
  also have "\<dots> = (overlapping_nodes lock s, if sn then neighbor_nodes lock s else [])"
    using A B by (auto simp: overlapping_nodes_def neighbor_nodes_def m_def [symmetric] cong: filter_cong)
  finally show ?thesis by (simp add: get_overlapping_locks_def Let_def e_def m_def)
qed

lemma get_overlapping_locks_filter:
  assumes "held_inv s" "small lock"
  shows "get_overlapping_locks lock sn s = (overlapping_nodes lock s, if sn then neighbor_nodes lock s else [])"
  using overlapping_locks_filter [OF assms] by simp

section \<open>Changes of the held locks\<close>

lemma set_insert_after [simp]: "set (insert_after lt x xs) = insert x (set xs)"
  by (induction xs) auto

lemma sorted_insert_after:
  fixes f :: "'a \<Rightarrow> 'b :: linorder"
  assumes "sorted (map f xs)"
  shows "sorted (map f (insert_after (\<lambda>x y. f x < f y) x xs))"
  using assms by (induction xs) auto

lemma distinct_insert_after: "distinct (map f (insert_after lt x xs)) \<longleftrightarrow> f x \<notin> f ` set xs \<and> distinct (map f xs)"
  by (induction xs) auto

text \<open>The part of the state that changes of the held locks keep.\<close>

definition same_frame :: "lock_state \<Rightarrow> lock_state \<Rightarrow> bool" where
  "same_frame s s' \<longleftrightarrow> ls_type s' = ls_type s \<and> waiting_locks s' = waiting_locks s
     \<and> client_waiting_lock_counts s' = client_waiting_lock_counts s"

lemma frame_simps [simp]:
  "same_frame s (insert_held l s') \<longleftrightarrow> same_frame s s'" "same_frame s (erase_held i c s') \<longleftrightarrow> same_frame s s'"
  "same_frame s (set_length i n s') \<longleftrightarrow> same_frame s s'" "same_frame s (drop_zero_held c s') \<longleftrightarrow> same_frame s s'" "same_frame s s"
  by (simp_all add: same_frame_def insert_held_def erase_held_def set_length_def drop_zero_held_def)

text \<open>Sound nodes and counts, but for an entry that may be zero.\<close>

definition counted :: "u64 \<Rightarrow> lock_state \<Rightarrow> bool" where
  "counted c s \<longleftrightarrow> nodes_ok s \<and> counts_exact s \<and> (\<forall>c'. client_held_lock_counts s c' = Some 0 \<longrightarrow> c' = c)"

lemma client_nodes_finite [simp]: "finite (client_nodes s c)"
  by (simp add: client_nodes_def)

lemma count_of_simps [simp]:
  "count_of (count_add c d m) c' = (if c' = c then count_of m c + d else count_of m c')"
  "count_of (count_drop_zero c m) c' = count_of m c'"
  by (auto simp: count_of_def count_add_def count_drop_zero_def)

lemma insert_held_set [simp]:
  "set (held_locks (insert_held l s)) = insert (ls_next s, l) (set (held_locks s))" "ls_next (insert_held l s) = ls_next s + 1"
  by (simp_all add: insert_held_def)

lemma insert_held_counted:
  assumes "counted (fl_client l) s"
  shows "counted (fl_client l) (insert_held l s)"
proof -
  have n: "nodes_ok s" "counts_exact s" using assms by (simp_all add: counted_def)
  have f: "ls_next s \<notin> fst ` set (held_locks s)" using n(1) by (auto simp: nodes_ok_def)
  then have "client_nodes (insert_held l s) c = (if c = fl_client l then insert (ls_next s, l) (client_nodes s c) else client_nodes s c)"
    "(ls_next s, l) \<notin> client_nodes s c" for c
    by (auto simp: client_nodes_def image_iff)
  then have "counts_exact (insert_held l s)"
    using n(2) unfolding counts_exact_def by (auto simp: insert_held_def)
  moreover have "nodes_ok (insert_held l s)"
    using n(1) f sorted_insert_after [of "\<lambda>x. fl_start (snd x)"]
    by (auto simp: nodes_ok_def insert_held_def distinct_insert_after)
  ultimately show ?thesis using assms by (auto simp: counted_def insert_held_def count_add_def)
qed

lemma erase_held_set:
  assumes "nodes_ok s" "(i, l) \<in> set (held_locks s)"
  shows "set (held_locks (erase_held i c s)) = set (held_locks s) - {(i, l)}"
  using nodes_fst_iff [OF assms] by (auto simp: erase_held_def)

lemma erase_held_counted:
  assumes "counted (fl_client l) s" "(i, l) \<in> set (held_locks s)"
  shows "counted (fl_client l) (erase_held i (fl_client l) s)"
proof -
  have n: "nodes_ok s" "counts_exact s" using assms(1) by (simp_all add: counted_def)
  have c: "client_nodes (erase_held i c' s) c = client_nodes s c - {(i, l)}" for c c'
    using erase_held_set [OF n(1) assms(2)] by (auto simp: client_nodes_def)
  have i: "(i, l) \<in> client_nodes s (fl_client l)" "\<And>c. c \<noteq> fl_client l \<Longrightarrow> (i, l) \<notin> client_nodes s c"
    using assms(2) by (auto simp: client_nodes_def)
  then have "1 \<le> card (client_nodes s (fl_client l))" by (metis One_nat_def Suc_leI card_gt_0_iff client_nodes_finite empty_iff)
  then have "counts_exact (erase_held i (fl_client l) s)"
    using n(2) i unfolding counts_exact_def c by (auto simp: erase_held_def of_nat_diff)
  moreover have "nodes_ok (erase_held i (fl_client l) s)"
    using n(1) by (auto simp: nodes_ok_def erase_held_def sorted_filter distinct_map_filter)
  ultimately show ?thesis using assms(1) by (auto simp: counted_def erase_held_def count_add_def)
qed

lemma set_length_set:
  assumes "nodes_ok s" "(i, l) \<in> set (held_locks s)"
  shows "set (held_locks (set_length i n s)) = insert (i, l\<lparr>fl_length := n\<rparr>) (set (held_locks s) - {(i, l)})"
proof -
  let ?f = "\<lambda>x :: node. if fst x = i then (i, (snd x)\<lparr>fl_length := n\<rparr>) else x"
  have "?f x = (if x = (i, l) then (i, l\<lparr>fl_length := n\<rparr>) else x)" if "x \<in> set (held_locks s)" for x
    using nodes_fst_iff [OF assms that] by auto
  then have "?f ` set (held_locks s) = (\<lambda>x. if x = (i, l) then (i, l\<lparr>fl_length := n\<rparr>) else x) ` set (held_locks s)"
    by (intro image_cong) blast+
  also have "\<dots> = insert (i, l\<lparr>fl_length := n\<rparr>) (set (held_locks s) - {(i, l)})" using assms(2) by auto
  finally show ?thesis by (simp add: set_length_def)
qed

lemma set_length_counted:
  assumes "counted (fl_client l) s" "(i, l) \<in> set (held_locks s)"
  shows "counted (fl_client l) (set_length i n s)"
proof -
  have n: "nodes_ok s" "counts_exact s" using assms(1) by (simp_all add: counted_def)
  let ?f = "\<lambda>x :: node. if fst x = i then (i, (snd x)\<lparr>fl_length := n\<rparr>) else x"
  have "client_nodes (set_length i n s) c = ?f ` client_nodes s c" for c
    by (auto simp: client_nodes_def set_length_def image_iff split: if_splits)
  moreover have "inj_on ?f (client_nodes s c)" for c
  proof (rule inj_onI)
    fix x y assume m: "x \<in> client_nodes s c" "y \<in> client_nodes s c" and e: "?f x = ?f y"
    have "fst (?f z) = fst z" for z by simp
    from this [of x] this [of y] have "fst x = fst y" unfolding e by simp
    then show "x = y" using nodes_eqI [OF n(1)] m by (simp add: client_nodes_def)
  qed
  ultimately have "card (client_nodes (set_length i n s) c) = card (client_nodes s c)" for c
    by (simp only: card_image)
  then have e: "counts_exact (set_length i n s)" using n(2) by (simp add: counts_exact_def set_length_def)
  have "map fst (held_locks (set_length i n s)) = map fst (held_locks s)"
      "map (\<lambda>x. fl_start (snd x)) (held_locks (set_length i n s)) = map (\<lambda>x. fl_start (snd x)) (held_locks s)"
    by (auto simp: set_length_def)
  moreover have "ls_next (set_length i n s) = ls_next s" "\<forall>x\<in>set (held_locks (set_length i n s)). fst x < ls_next s"
    using n(1) by (auto simp: nodes_ok_def set_length_def)
  ultimately have "nodes_ok (set_length i n s)"
    using n(1) by (simp add: nodes_ok_def)
  then show ?thesis using e assms(1) by (simp add: counted_def set_length_def)
qed

lemma drop_zero_counted:
  assumes "counted c s"
  shows "nodes_ok (drop_zero_held c s)" "counts_exact (drop_zero_held c s)" "no_zero (client_held_lock_counts (drop_zero_held c s))"
    "held_locks (drop_zero_held c s) = held_locks s"
proof -
  show "held_locks (drop_zero_held c s) = held_locks s" by (simp add: drop_zero_held_def)
  show "nodes_ok (drop_zero_held c s)" using assms by (simp add: counted_def nodes_ok_def drop_zero_held_def)
  show "counts_exact (drop_zero_held c s)" using assms by (simp add: counted_def counts_exact_def client_nodes_def drop_zero_held_def)
  show "no_zero (client_held_lock_counts (drop_zero_held c s))"
    using assms by (auto simp: counted_def no_zero_def drop_zero_held_def count_drop_zero_def count_of_def)
qed

end
