(* ===== verification/Flock_Set.thy ===== *)
theory Flock_Set
  imports Flock_Held
begin

text \<open>
  Setting and removing a lock byte by byte: cutting a lock by a range, merging locks that touch, and the invariant of the loops of
  \<^const>\<open>adjust_locks\<close>.
\<close>

section \<open>Cutting\<close>

text \<open>What is left of \<open>l\<close> before and after the range of \<open>n\<close>.\<close>

definition left_part :: "ceph_filelock \<Rightarrow> ceph_filelock \<Rightarrow> ceph_filelock" where
  "left_part l n = l\<lparr>fl_length := fl_start n - fl_start l\<rparr>"

definition right_part :: "ceph_filelock \<Rightarrow> ceph_filelock \<Rightarrow> ceph_filelock" where
  "right_part l n = l\<lparr>fl_start := fl_start n + fl_length n,
     fl_length := if fl_length l = 0 then 0 else (fl_start l + fl_length l) - (fl_start n + fl_length n)\<rparr>"

definition cut_held :: "nat \<Rightarrow> ceph_filelock \<Rightarrow> ceph_filelock \<Rightarrow> lock_state \<Rightarrow> lock_state" where
  "cut_held i l n s =
     (let s1 = (if hi n < hi l then insert_held (right_part l n) s else s)
      in drop_zero_held (fl_client l)
           (if lo l < lo n then set_length i (fl_start n - fl_start l) s1 else erase_held i (fl_client l) s1))"

lemma hi_le: "fits N l \<Longrightarrow> fl_length l \<noteq> 0 \<Longrightarrow> hi l \<le> unat N" "fits N l \<Longrightarrow> lo l \<le> unat N" "fits N l \<Longrightarrow> hi l \<le> 2 ^ 64"
  using unat_u64 [of N] by (auto simp: fits_def hi_def lo_def)

lemma left_part_range:
  assumes "fits N n" "lo l < lo n"
  shows "lo (left_part l n) = lo l" "hi (left_part l n) = lo n" "fits N (left_part l n)"
proof -
  have "fl_start l \<le> fl_start n" using assms(2) by (simp add: lo_def word_le_nat_alt)
  then have u: "unat (fl_start n - fl_start l) = unat (fl_start n) - unat (fl_start l)" by (simp add: unat_sub)
  then have "fl_start n - fl_start l \<noteq> 0" using assms(2) by (auto simp: lo_def)
  then show "lo (left_part l n) = lo l" "hi (left_part l n) = lo n" "fits N (left_part l n)"
    using u assms by (simp_all add: lo_def hi_def left_part_def fits_def)
qed

lemma right_part_range:
  assumes "fits N l" "fits N n" "hi n < hi l"
  shows "lo (right_part l n) = hi n" "hi (right_part l n) = hi l" "fits N (right_part l n)"
proof -
  have n: "fl_length n \<noteq> 0" using assms(1,3) hi_le(3) [of N l] by (auto simp: hi_def [of n])
  have e: "unat (fl_start n + fl_length n) = hi n" "unat (fl_start l + fl_length l) = lo l + unat (fl_length l)"
    using unat_end [OF assms(2)] unat_end [OF assms(1)] n by (simp_all add: hi_def lo_def)
  have le: "fl_length l \<noteq> 0 \<Longrightarrow> hi l = lo l + unat (fl_length l)" by (simp add: hi_def lo_def)
  have d: "unat ((fl_start l + fl_length l) - (fl_start n + fl_length n)) = hi l - hi n" if "fl_length l \<noteq> 0"
    using assms(3) e le that by (simp add: unat_sub word_le_nat_alt)
  have "(fl_start l + fl_length l) - (fl_start n + fl_length n) \<noteq> 0" if "fl_length l \<noteq> 0"
    using d [OF that] assms(3) by (metis unat_0 zero_less_diff less_irrefl)
  then have r: "unat (fl_start (right_part l n)) = hi n" "fl_length l = 0 \<Longrightarrow> fl_length (right_part l n) = 0"
    "fl_length l \<noteq> 0 \<Longrightarrow> fl_length (right_part l n) \<noteq> 0 \<and> unat (fl_length (right_part l n)) = hi l - hi n"
    using d e by (simp_all add: right_part_def)
  then show "lo (right_part l n) = hi n" by (simp add: lo_def)
  show "hi (right_part l n) = hi l" "fits N (right_part l n)"
    using r hi_le(1) [OF assms(1)] hi_le(1) [OF assms(2) n] assms(3)
    by (cases "fl_length l = 0"; simp add: hi_def [of "right_part l n"] hi_def [of l] fits_def)+
qed

lemma cut_conditions:
  assumes "fits N l" "fits N n"
  shows "fl_start l < fl_start n \<longleftrightarrow> lo l < lo n"
    "fl_length n = 0 \<Longrightarrow> \<not> hi n < hi l" "fl_length n \<noteq> 0 \<Longrightarrow> fl_length l = 0 \<Longrightarrow> hi n < hi l"
    "fl_length n \<noteq> 0 \<Longrightarrow> fl_length l \<noteq> 0 \<Longrightarrow> fl_start l + fl_length l - 1 > fl_start n + fl_length n - 1 \<longleftrightarrow> hi n < hi l"
proof -
  show "fl_start l < fl_start n \<longleftrightarrow> lo l < lo n" by (simp add: lo_def word_less_nat_alt)
  show "\<not> hi n < hi l" if "fl_length n = 0" using that assms(1) hi_le(3) [of N l] by (simp add: hi_def [of n])
  show "hi n < hi l" if "fl_length n \<noteq> 0" "fl_length l = 0" using hi_le(1) [OF assms(2) that(1)] unat_u64 [of N] that(2) by (simp add: hi_def [of l])
  show "fl_start l + fl_length l - 1 > fl_start n + fl_length n - 1 \<longleftrightarrow> hi n < hi l" if "fl_length n \<noteq> 0" "fl_length l \<noteq> 0"
    using unat_last [OF assms(1) that(2)] unat_last [OF assms(2) that(1)] lo_less_hi [of l] lo_less_hi [of n]
    by (auto simp: word_less_nat_alt)
qed

lemma right_part_eq:
  "fl_length l = 0 \<Longrightarrow> right_part l n = l\<lparr>fl_start := fl_start n + fl_length n\<rparr>"
  "fl_length l \<noteq> 0 \<Longrightarrow> right_part l n = l\<lparr>fl_start := fl_start n + fl_length n,
     fl_length := fl_start l + fl_length l - 1 - (fl_start n + fl_length n - 1 + 1) + 1\<rparr>"
  by (simp_all add: right_part_def)

lemma remove_old_cut:
  assumes "nodes_ok s" "(i, l) \<in> set (held_locks s)" "fits N l" "fits N n"
  shows "remove_old n i s = Some (cut_held i l n s)"
proof -
  have m: "map_of (held_locks s) i = Some l" using assms(1,2) nodes_map_of by blast
  note c = cut_conditions [OF assms(3,4)]
  consider "fl_length n = 0" | "fl_length n \<noteq> 0" "fl_length l = 0" | "fl_length n \<noteq> 0" "fl_length l \<noteq> 0" by blast
  then show ?thesis
    by cases (simp_all add: remove_old_def m c cut_held_def Let_def right_part_eq)
qed

lemma adjust_old_cut:
  assumes "nodes_ok s" "(i, l) \<in> set (held_locks s)" "fits N l" "fits N n" "fl_type l \<noteq> fl_type n"
  shows "adjust_old (fl_length n = 0) i (n, s) = Some (n, cut_held i l n s)"
proof -
  have m: "map_of (held_locks s) i = Some l" using assms(1,2) nodes_map_of by blast
  note c = cut_conditions [OF assms(3,4)]
  consider "fl_length n = 0" | "fl_length n \<noteq> 0" "fl_length l = 0" | "fl_length n \<noteq> 0" "fl_length l \<noteq> 0" by blast
  then show ?thesis
    using assms(5) by cases (simp_all add: adjust_old_def m c cut_held_def Let_def right_part_eq)
qed

lemma held_inv_counted: "held_ok N s \<Longrightarrow> counted c s"
  by (auto simp: held_ok_def counted_def no_zero_def)

lemma part_clients [simp]: "fl_client (right_part l n) = fl_client l" "fl_client (left_part l n) = fl_client l"
  "fl_type (right_part l n) = fl_type l" "fl_type (left_part l n) = fl_type l"
  by (simp_all add: right_part_def left_part_def)

definition cut_nodes :: "nat \<Rightarrow> nat \<Rightarrow> ceph_filelock \<Rightarrow> ceph_filelock \<Rightarrow> node set" where
  "cut_nodes i j l n = (if lo l < lo n then {(i, left_part l n)} else {}) \<union> (if hi n < hi l then {(j, right_part l n)} else {})"

lemma cut_held_nodes:
  assumes "held_ok N s" "(i, l) \<in> set (held_locks s)"
  shows "counts_exact (cut_held i l n s)" "nodes_ok (cut_held i l n s)" "no_zero (client_held_lock_counts (cut_held i l n s))"
    "set (held_locks (cut_held i l n s)) = (set (held_locks s) - {(i, l)}) \<union> cut_nodes i (ls_next s) l n"
proof -
  define s1 where "s1 = (if hi n < hi l then insert_held (right_part l n) s else s)"
  define s2 where "s2 = (if lo l < lo n then set_length i (fl_start n - fl_start l) s1 else erase_held i (fl_client l) s1)"
  have c: "cut_held i l n s = drop_zero_held (fl_client l) s2" by (simp add: cut_held_def s1_def s2_def Let_def)
  have s: "counted (fl_client l) s" "nodes_ok s" using held_inv_counted [OF assms(1)] by (simp_all add: counted_def)
  then have s1: "counted (fl_client l) s1" using insert_held_counted [of "right_part l n" s] by (simp add: s1_def)
  then have n1: "nodes_ok s1" by (simp add: counted_def)
  have m1: "(i, l) \<in> set (held_locks s1)" using assms(2) by (simp add: s1_def)
  have s2: "counted (fl_client l) s2"
    using s1 m1 set_length_counted [of l s1 i] erase_held_counted [of l s1 i] by (simp add: s2_def)
  show "counts_exact (cut_held i l n s)" "nodes_ok (cut_held i l n s)" "no_zero (client_held_lock_counts (cut_held i l n s))"
    unfolding c using drop_zero_counted [OF s2] by simp_all
  have "i \<noteq> ls_next s" using s(2) assms(2) by (auto simp: nodes_ok_def)
  then show "set (held_locks (cut_held i l n s)) = (set (held_locks s) - {(i, l)}) \<union> cut_nodes i (ls_next s) l n"
    unfolding c drop_zero_counted(4) [OF s2]
    using set_length_set [OF n1 m1] erase_held_set [OF n1 m1]
    by (auto simp: s2_def s1_def cut_nodes_def left_part_def)
qed

text \<open>A part of a lock is compatible with what the lock is compatible with.\<close>

lemma compatible_part:
  assumes "compatible l y" "lo l \<le> lo q" "hi q \<le> hi l" "fl_type q = fl_type l" "ceph_filelock_owner_equal q l"
  shows "compatible q y" "compatible y q"
proof -
  have "ceph_filelock_owner_equal q y \<longleftrightarrow> ceph_filelock_owner_equal l y" "ceph_filelock_owner_equal y q \<longleftrightarrow> ceph_filelock_owner_equal l y"
    using assms(5) owner_equal_equiv by blast+
  then show "compatible q y" "compatible y q" using assms(1-4) by (auto simp: compatible_def overlaps_def)
qed

lemma cut_nodes_part:
  assumes "fits N l" "fits N n" "overlaps l n" "(j', q) \<in> cut_nodes i j l n"
  shows "fits N q" "fl_type q = fl_type l" "ceph_filelock_owner_equal q l" "lo l \<le> lo q" "hi q \<le> hi l" "\<not> overlaps q n"
proof -
  have o: "lo l < hi n" "lo n < hi l" using assms(3) by (simp_all add: overlaps_def)
  have "ceph_filelock_owner_equal (left_part l n) l" "ceph_filelock_owner_equal (right_part l n) l"
    by (simp_all add: ceph_filelock_owner_equal_def left_part_def right_part_def)
  then show "fits N q" "fl_type q = fl_type l" "ceph_filelock_owner_equal q l" "lo l \<le> lo q" "hi q \<le> hi l" "\<not> overlaps q n"
    using assms(4) left_part_range [OF assms(2), of l] right_part_range [OF assms(1,2)] o
    by (auto simp: cut_nodes_def overlaps_def split: if_splits)
qed

lemma cut_nodes_cover:
  assumes "fits N l" "fits N n" "overlaps l n"
  shows "(\<exists>x\<in>cut_nodes i j l n. lo (snd x) \<le> b \<and> b < hi (snd x)) \<longleftrightarrow> lo l \<le> b \<and> b < hi l \<and> \<not> (lo n \<le> b \<and> b < hi n)"
  using left_part_range [OF assms(2), of l] right_part_range [OF assms(1,2)] assms(3)
  by (auto simp: cut_nodes_def overlaps_def)

lemma cut_held_inv:
  assumes "held_ok N s" "(i, l) \<in> set (held_locks s)" "fits N n" "overlaps l n"
  shows "held_ok N (cut_held i l n s)"
proof -
  note c = cut_held_nodes [OF assms(1,2), of n]
  have l: "fits N l" using assms(1,2) by (auto simp: held_ok_def)
  let ?Q = "cut_nodes i (ls_next s) l n" and ?H = "set (held_locks s) - {(i, l)}"
  have H: "compatible (snd x) (snd y)" if "x \<in> set (held_locks s)" "y \<in> set (held_locks s)" "x \<noteq> y" for x y
    using assms(1) that by (simp add: held_ok_def)
  have Q: "compatible (snd q) (snd x) \<and> compatible (snd x) (snd q)" if "q \<in> ?Q" "x \<in> ?H" for q x
  proof -
    have q: "(fst q, snd q) \<in> ?Q" using that(1) by simp
    have "compatible l (snd x)" using H [OF assms(2), of x] that(2) by auto
    then show ?thesis using compatible_part cut_nodes_part(2-5) [OF l assms(3,4) q] by blast
  qed
  have QQ: "compatible (snd q) (snd q')" if "q \<in> ?Q" "q' \<in> ?Q" "q \<noteq> q'" for q q'
    using that left_part_range [OF assms(3), of l] right_part_range [OF l assms(3)] lo_less_hi [of n]
    by (auto simp: cut_nodes_def compatible_def overlaps_def split: if_splits)
  have "fits N (snd x)" if "x \<in> ?H \<union> ?Q" for x
    using that assms(1) cut_nodes_part(1) [OF l assms(3,4), of "fst x" "snd x"] by (auto simp: held_ok_def)
  moreover have "compatible (snd x) (snd y)" if "x \<in> ?H \<union> ?Q" "y \<in> ?H \<union> ?Q" "x \<noteq> y" for x y
    using that H Q QQ by blast
  ultimately show ?thesis unfolding held_ok_def c(4) using c(1-3) by blast
qed

section \<open>Merging\<close>

definition touches :: "ceph_filelock \<Rightarrow> ceph_filelock \<Rightarrow> bool" where
  "touches a b \<longleftrightarrow> lo a \<le> hi b \<and> lo b \<le> hi a"

text \<open>The smallest range around both, for the owner of \<open>n\<close>.\<close>

definition merged :: "ceph_filelock \<Rightarrow> ceph_filelock \<Rightarrow> ceph_filelock" where
  "merged l n =
     (let start = min (fl_start l) (fl_start n)
      in n\<lparr>fl_start := start,
           fl_length := if fl_length l = 0 \<or> fl_length n = 0 then 0
             else max (fl_start l + fl_length l) (fl_start n + fl_length n) - start\<rparr>)"

lemma unat_min_max: "unat (min a b) = min (unat a) (unat b)" "unat (max a b) = max (unat a) (unat b)" for a b :: u64
  by (simp_all add: min_def max_def word_le_nat_alt)

lemma merged_range:
  assumes "small l" "small n"
  shows "lo (merged l n) = min (lo l) (lo n)" "hi (merged l n) = max (hi l) (hi n)" "small (merged l n)"
proof -
  show lo: "lo (merged l n) = min (lo l) (lo n)" by (simp add: lo_def merged_def Let_def unat_min_max)
  have "hi (merged l n) = max (hi l) (hi n) \<and> small (merged l n)"
  proof (cases "fl_length l = 0 \<or> fl_length n = 0")
    case True
    then have "max (hi l) (hi n) = 2 ^ 64" using hi_le(3) [OF assms(1)] hi_le(3) [OF assms(2)] by (auto simp: hi_def)
    moreover have "fl_length (merged l n) = 0" using True by (simp add: merged_def Let_def)
    moreover have "lo (merged l n) \<le> 2 ^ 31" using lo hi_le(2) [OF assms(1)] by simp
    ultimately show ?thesis by (simp add: hi_def [of "merged l n"] fits_def lo_def)
  next
    case False
    let ?m = "max (fl_start l + fl_length l) (fl_start n + fl_length n)"
    have m: "unat ?m = max (hi l) (hi n)"
      using unat_end [OF assms(1)] unat_end [OF assms(2)] False by (simp add: unat_min_max hi_def)
    have le: "lo (merged l n) < unat ?m" using lo m lo_less_hi [of l] lo_less_hi [of n] by simp
    then have "unat (fl_length (merged l n)) = unat ?m - lo (merged l n)"
      using False by (simp add: merged_def Let_def lo_def unat_sub word_le_nat_alt)
    then show ?thesis
      using le m hi_le(1) [OF assms(1)] hi_le(1) [OF assms(2)] False by (auto simp: hi_def [of "merged l n"] fits_def lo_def)
  qed
  then show "hi (merged l n) = max (hi l) (hi n)" "small (merged l n)" by simp_all
qed

lemma merged_fields [simp]:
  "fl_client (merged l n) = fl_client n" "fl_owner (merged l n) = fl_owner n" "fl_pid (merged l n) = fl_pid n" "fl_type (merged l n) = fl_type n"
  by (simp_all add: merged_def Let_def)

lemma signed_take_bit_small:
  fixes w :: u64
  assumes "unat w < 2 ^ 31"
  shows "signed_take_bit 31 w = w"
proof -
  have t: "take_bit 31 w = w"
    using assms by (metis take_bit_nat_eq_self unsigned_take_bit_eq unsigned_word_eqI)
  moreover have "\<not> bit w 31" using bit_take_bit_iff [of 31 w 31] unfolding t by simp
  ultimately show ?thesis by (simp add: signed_take_bit_eq_if_positive)
qed

lemma adjust_old_merge:
  assumes "nodes_ok s" "(i, l) \<in> set (held_locks s)" "small l" "small n" "fl_type l = fl_type n"
  shows "adjust_old (fl_length n = 0) i (n, s)
    = Some (merged l n, drop_zero_held (fl_client l) (erase_held i (fl_client l) s))"
proof -
  have m: "map_of (held_locks s) i = Some l" using assms(1,2) nodes_map_of by blast
  show ?thesis
  proof (cases "fl_length n = 0 \<or> fl_length l = 0")
    case True
    then show ?thesis using assms(5) by (auto simp: adjust_old_def m merged_def Let_def min_def not_less)
  next
    case False
    let ?el = "fl_start l + fl_length l - 1" and ?en = "fl_start n + fl_length n - 1"
    have e: "unat ?el = hi l - 1" "unat ?en = hi n - 1" "hi l \<le> 2 ^ 31" "hi n \<le> 2 ^ 31" "0 < hi l" "0 < hi n"
      using unat_last [OF assms(3)] unat_last [OF assms(4)] hi_le(1) [OF assms(3)] hi_le(1) [OF assms(4)] False
        lo_less_hi [of l] lo_less_hi [of n] by auto
    let ?max = "if ?en > ?el then ?en else ?el"
    have "signed_take_bit 31 ?max = ?max" using e by (intro signed_take_bit_small) (auto split: if_splits)
    moreover have "?max + 1 = max (fl_start l + fl_length l) (fl_start n + fl_length n)"
      using e unat_end [OF assms(3)] unat_end [OF assms(4)] False
      by (auto simp: max_def word_le_nat_alt word_less_nat_alt hi_def intro!: word_unat_eq_iff [THEN iffD2])
    ultimately show ?thesis
      using assms(5) False by (simp add: adjust_old_def m merged_def Let_def min_def not_less diff_add_eq)
  qed
qed

lemma adjust_neighbor_merge:
  assumes "nodes_ok s" "(i, l) \<in> set (held_locks s)" "small l" "small n" "fl_type l = fl_type n" "adjacent l n"
  shows "adjust_neighbor i (n, s) = Some (merged l n, drop_zero_held (fl_client l) (erase_held i (fl_client l) s))"
proof -
  have m: "map_of (held_locks s) i = Some l" using assms(1,2) nodes_map_of by blast
  have b: "lo l < 2 ^ 64" "lo n < 2 ^ 64" using unat_u64 by (simp_all add: lo_def)
  have le: "fl_start l + fl_length l = fl_start n \<longleftrightarrow> hi l = lo n" if "fl_length l \<noteq> 0"
    using unat_end [OF assms(3)] that by (simp add: word_unat_eq_iff hi_def lo_def)
  have ne: "fl_start n + fl_length n = fl_start l \<longleftrightarrow> hi n = lo l" if "fl_length n \<noteq> 0"
    using unat_end [OF assms(4)] that by (simp add: word_unat_eq_iff hi_def lo_def)
  have h: "fl_length l = 0 \<Longrightarrow> hi l = 2 ^ 64" "fl_length n = 0 \<Longrightarrow> hi n = 2 ^ 64" by (simp_all add: hi_def)
  have st: "fl_start l \<le> fl_start n \<longleftrightarrow> lo l \<le> lo n" by (simp add: lo_def word_le_nat_alt)
  consider "hi l = lo n" "fl_length l \<noteq> 0" "lo l < lo n" | "lo l = hi n" "fl_length n \<noteq> 0" "lo n < lo l" "hi l \<noteq> lo n"
    using assms(6) b h lo_less_hi [of l] lo_less_hi [of n] unfolding adjacent_def by fastforce
  then show ?thesis
  proof cases
    case 1
    have "fl_start l + fl_length l \<le> fl_start n + fl_length n \<or> fl_length n = 0"
      using 1 unat_end [OF assms(3)] unat_end [OF assms(4)] by (simp add: word_le_nat_alt hi_def lo_def)
    moreover have sn: "fl_start n = fl_start l + fl_length l" using 1 le by simp
    ultimately show ?thesis
      using 1 assms(5) st [unfolded sn] by (auto simp: adjust_neighbor_def m merged_def Let_def min_def max_def sn)
  next
    case 2
    have "fl_start n + fl_length n \<le> fl_start l + fl_length l \<or> fl_length l = 0"
      using 2 unat_end [OF assms(3)] unat_end [OF assms(4)] by (simp add: word_le_nat_alt hi_def lo_def)
    moreover have sl: "fl_start l = fl_start n + fl_length n" using 2 ne by simp
    moreover have "\<not> fl_start n + fl_length n \<le> fl_start n" using 2 st [unfolded sl] by simp
    ultimately show ?thesis
      using 2 le [unfolded sl] assms(5) by (auto simp: adjust_neighbor_def m merged_def Let_def min_def max_def sl)
  qed
qed

lemma adjust_neighbor_other:
  assumes "held_inv s" "(i, l) \<in> set (held_locks s)" "fl_type l \<noteq> fl_type n"
  shows "adjust_neighbor i (n, s) = Some (n, s)"
proof -
  have "map_of (held_locks s) i = Some l" using assms(1,2) nodes_map_of by (auto simp: held_ok_def)
  moreover have "count_drop_zero c m = m" if "no_zero m" for c m
    using that by (auto simp: count_drop_zero_def no_zero_def count_of_def split: option.splits)
  then have "drop_zero_held c s = s" for c using assms(1) by (simp add: drop_zero_held_def held_ok_def)
  ultimately show ?thesis using assms(3) by (simp add: adjust_neighbor_def)
qed

section \<open>Bytes\<close>

text \<open>The owner of \<open>k\<close> holds a lock of type \<open>t\<close> on byte \<open>b\<close>, without and with the lock \<open>n\<close> that is being set.\<close>

definition holds :: "lock_state \<Rightarrow> ceph_filelock \<Rightarrow> nat \<Rightarrow> u8 \<Rightarrow> bool" where
  "holds s k b t \<longleftrightarrow> (\<exists>x\<in>set (held_locks s). ceph_filelock_owner_equal (snd x) k \<and> fl_type (snd x) = t \<and> lo (snd x) \<le> b \<and> b < hi (snd x))"

definition holds_with :: "ceph_filelock \<Rightarrow> lock_state \<Rightarrow> ceph_filelock \<Rightarrow> nat \<Rightarrow> u8 \<Rightarrow> bool" where
  "holds_with n s k b t \<longleftrightarrow> (if ceph_filelock_owner_equal k n \<and> lo n \<le> b \<and> b < hi n then t = fl_type n else holds s k b t)"

lemma held_inv_compatible:
  "held_ok N s \<Longrightarrow> x \<in> set (held_locks s) \<Longrightarrow> y \<in> set (held_locks s) \<Longrightarrow> x \<noteq> y \<Longrightarrow> compatible (snd x) (snd y)"
  by (simp add: held_ok_def)

lemma only_holder:
  assumes "held_ok N s" "x \<in> set (held_locks s)" "y \<in> set (held_locks s)"
    and "ceph_filelock_owner_equal (snd x) k" "lo (snd x) \<le> b" "b < hi (snd x)"
    and "ceph_filelock_owner_equal (snd y) k" "lo (snd y) \<le> b" "b < hi (snd y)"
  shows "x = y"
proof (rule ccontr)
  assume "x \<noteq> y"
  then have "compatible (snd x) (snd y)" by (rule held_inv_compatible [OF assms(1-3)])
  moreover have "ceph_filelock_owner_equal (snd x) (snd y)" using assms(4,7) owner_equal_equiv by blast
  ultimately show False using assms(5,6,8,9) by (auto simp: compatible_def overlaps_def)
qed

lemma holds_unique:
  assumes "held_ok N s" "(i, l) \<in> set (held_locks s)" "ceph_filelock_owner_equal l k" "lo l \<le> b" "b < hi l"
  shows "holds s k b t \<longleftrightarrow> t = fl_type l"
proof
  assume "holds s k b t"
  then obtain x where "x \<in> set (held_locks s)" "ceph_filelock_owner_equal (snd x) k" "fl_type (snd x) = t" "lo (snd x) \<le> b" "b < hi (snd x)"
    unfolding holds_def by blast
  then show "t = fl_type l" using only_holder [OF assms(1) _ assms(2), of x k b] assms(3-5) by simp
next
  assume "t = fl_type l"
  then show "holds s k b t" unfolding holds_def using assms(2-5) by (intro bexI [of _ "(i, l)"]) simp_all
qed

text \<open>Taking a lock out of the held ones into the lock to be set, or cutting the new range out of it, changes no byte.\<close>

lemma holds_erase:
  assumes "held_ok N s" "(i, l) \<in> set (held_locks s)" "set (held_locks s') = set (held_locks s) - {(i, l)} \<union> Q"
    "\<And>x. x \<in> Q \<Longrightarrow> ceph_filelock_owner_equal (snd x) l \<and> fl_type (snd x) = fl_type l"
    "\<And>b. (\<exists>x\<in>Q. lo (snd x) \<le> b \<and> b < hi (snd x)) \<longleftrightarrow> lo l \<le> b \<and> b < hi l \<and> \<not> C b"
  shows "holds s' k b t \<longleftrightarrow> holds s k b t \<and> \<not> (ceph_filelock_owner_equal l k \<and> lo l \<le> b \<and> b < hi l \<and> C b)"
proof (cases "ceph_filelock_owner_equal l k \<and> lo l \<le> b \<and> b < hi l")
  case True
  have only: "x = (i, l)" if "x \<in> set (held_locks s)" "ceph_filelock_owner_equal (snd x) k" "lo (snd x) \<le> b" "b < hi (snd x)" for x
    using only_holder [OF assms(1) that(1) assms(2) that(2-4)] True by simp
  have "holds s k b t \<longleftrightarrow> t = fl_type l" using holds_unique [OF assms(1,2)] True by blast
  moreover have "holds s' k b t \<longleftrightarrow> t = fl_type l \<and> (\<exists>x\<in>Q. lo (snd x) \<le> b \<and> b < hi (snd x))"
    using only assms(4) True owner_equal_equiv unfolding holds_def assms(3) by blast
  ultimately show ?thesis using assms(5) True by blast
next
  case False
  have "\<not> (ceph_filelock_owner_equal (snd x) k \<and> lo (snd x) \<le> b \<and> b < hi (snd x))" if "x \<in> Q" for x
    using False assms(4) [OF that] assms(5) [of b] that owner_equal_equiv by blast
  moreover have "\<not> (ceph_filelock_owner_equal (snd (i, l)) k \<and> lo (snd (i, l)) \<le> b \<and> b < hi (snd (i, l)))" using False by simp
  ultimately have "holds s' k b t \<longleftrightarrow> holds s k b t" unfolding holds_def assms(3) by blast
  then show ?thesis using False by blast
qed

end
