(* ===== verification/Flock_Ops.thy ===== *)
theory Flock_Ops
  imports Flock_Set
begin

text \<open>
  The operations on the lock states: the loops of \<^const>\<open>adjust_locks\<close> and of the removal of a lock, and the list of
  the waiting locks with its counts.
\<close>

section \<open>The loops that set a lock\<close>

definition same_request :: "ceph_filelock \<Rightarrow> ceph_filelock \<Rightarrow> bool" where
  "same_request a b \<longleftrightarrow> fl_client a = fl_client b \<and> fl_owner a = fl_owner b \<and> fl_pid a = fl_pid b \<and> fl_type a = fl_type b"

lemma same_request_owner: "same_request a b \<Longrightarrow> ceph_filelock_owner_equal k b \<longleftrightarrow> ceph_filelock_owner_equal k a"
  by (simp add: same_request_def ceph_filelock_owner_equal_def)

text \<open>
  While the lock \<open>n0\<close> is set in the state \<open>s0\<close>: the lock has grown to \<open>n\<close>, the locks of the owner that still overlap it are
  those with a number in \<open>T\<close>, and together with \<open>n\<close> the state gives every byte what it has to have in the end.
\<close>

definition adj_inv :: "ceph_filelock \<Rightarrow> lock_state \<Rightarrow> nat set \<Rightarrow> ceph_filelock \<Rightarrow> lock_state \<Rightarrow> bool" where
  "adj_inv n0 s0 T n s \<longleftrightarrow> held_inv s \<and> same_request n0 n \<and> small n \<and> lo n \<le> lo n0 \<and> hi n0 \<le> hi n
     \<and> (\<forall>x\<in>set (held_locks s). overlaps (snd x) n \<longrightarrow>
          (if ceph_filelock_owner_equal (snd x) n then fst x \<in> T else fl_type (snd x) \<noteq> CEPH_LOCK_EXCL \<and> fl_type n \<noteq> CEPH_LOCK_EXCL))
     \<and> (\<forall>k b t. holds_with n s k b t \<longleftrightarrow> holds_with n0 s0 k b t) \<and> same_frame s0 s"

lemma adj_invD:
  assumes "adj_inv n0 s0 T n s"
  shows "held_inv s" "nodes_ok s" "same_request n0 n" "small n" "lo n \<le> lo n0" "hi n0 \<le> hi n" "same_frame s0 s"
    "\<And>k b t. holds_with n s k b t \<longleftrightarrow> holds_with n0 s0 k b t"
    "\<And>x. x \<in> set (held_locks s) \<Longrightarrow> small (snd x)"
    "\<And>x. x \<in> set (held_locks s) \<Longrightarrow> overlaps (snd x) n \<Longrightarrow> ceph_filelock_owner_equal (snd x) n \<Longrightarrow> fst x \<in> T"
    "\<And>x. x \<in> set (held_locks s) \<Longrightarrow> overlaps (snd x) n \<Longrightarrow> \<not> ceph_filelock_owner_equal (snd x) n
      \<Longrightarrow> fl_type (snd x) \<noteq> CEPH_LOCK_EXCL \<and> fl_type n \<noteq> CEPH_LOCK_EXCL"
  using assms by (auto simp: adj_inv_def held_ok_def)

lemma overlaps_merged:
  assumes "small l" "small n" "touches l n"
  shows "overlaps x (merged l n) \<longleftrightarrow> overlaps x l \<or> overlaps x n"
    "lo (merged l n) \<le> b \<and> b < hi (merged l n) \<longleftrightarrow> lo l \<le> b \<and> b < hi l \<or> lo n \<le> b \<and> b < hi n"
  using assms(3) lo_less_hi [of x] lo_less_hi [of l] lo_less_hi [of n]
  by (auto simp: overlaps_def touches_def merged_range [OF assms(1,2)] min_less_iff_disj less_max_iff_disj min_le_iff_disj)

lemma erase_keeps_inv:
  assumes "held_inv s" "(i, l) \<in> set (held_locks s)"
  defines "s' \<equiv> drop_zero_held (fl_client l) (erase_held i (fl_client l) s)"
  shows "held_inv s'" "set (held_locks s') = set (held_locks s) - {(i, l)}"
proof -
  have c: "counted (fl_client l) (erase_held i (fl_client l) s)"
    using erase_held_counted [OF held_inv_counted [OF assms(1)] assms(2)] .
  show s: "set (held_locks s') = set (held_locks s) - {(i, l)}"
    using erase_held_set [OF _ assms(2)] assms(1) drop_zero_counted(4) [OF c] by (simp add: s'_def held_ok_def)
  show "held_inv s'" using drop_zero_counted(1-3) [OF c] assms(1) unfolding held_ok_def s s'_def [symmetric] by blast
qed

lemma adj_merge:
  assumes "adj_inv n0 s0 T n s" "(i, l) \<in> set (held_locks s)" "ceph_filelock_owner_equal l n" "fl_type l = fl_type n" "touches l n"
  shows "adj_inv n0 s0 (T - {i}) (merged l n) (drop_zero_held (fl_client l) (erase_held i (fl_client l) s))"
proof -
  note a = adj_invD [OF assms(1)]
  define s' where "s' = drop_zero_held (fl_client l) (erase_held i (fl_client l) s)"
  note e = erase_keeps_inv [OF a(1) assms(2), folded s'_def]
  have l: "small l" using a(9) [OF assms(2)] by simp
  have own: "ceph_filelock_owner_equal k (merged l n) \<longleftrightarrow> ceph_filelock_owner_equal k n" for k
    by (simp add: ceph_filelock_owner_equal_def)
  have "if ceph_filelock_owner_equal (snd x) (merged l n) then fst x \<in> T - {i}
      else fl_type (snd x) \<noteq> CEPH_LOCK_EXCL \<and> fl_type (merged l n) \<noteq> CEPH_LOCK_EXCL"
    if x: "x \<in> set (held_locks s')" "overlaps (snd x) (merged l n)" for x
  proof -
    have x': "x \<in> set (held_locks s)" "x \<noteq> (i, l)" using x(1) e(2) by auto
    then have i: "fst x \<noteq> i" using nodes_fst_iff [OF a(2) assms(2)] by blast
    have "compatible (snd x) l" using held_inv_compatible [OF a(1) x'(1) assms(2) x'(2)] by simp
    then have "\<not> ceph_filelock_owner_equal (snd x) n \<and> fl_type (snd x) \<noteq> CEPH_LOCK_EXCL \<and> fl_type l \<noteq> CEPH_LOCK_EXCL" if "overlaps (snd x) l"
      using that assms(3) owner_equal_equiv unfolding compatible_def by blast
    then show ?thesis using overlaps_merged(1) [OF l a(4) assms(5)] x(2) a(10,11) [OF x'(1)] i assms(4) own by auto
  qed
  moreover have "holds_with (merged l n) s' k b t \<longleftrightarrow> holds_with n s k b t" for k b t
  proof -
    have h: "holds s' k b t \<longleftrightarrow> holds s k b t \<and> \<not> (ceph_filelock_owner_equal l k \<and> lo l \<le> b \<and> b < hi l \<and> True)"
      using holds_erase [OF a(1) assms(2), of s' "{}" "\<lambda>_. True"] e(2) by simp
    have "ceph_filelock_owner_equal l k \<longleftrightarrow> ceph_filelock_owner_equal k n" using assms(3) owner_equal_equiv by blast
    then show ?thesis
      using h holds_unique [OF a(1) assms(2), of k b t] overlaps_merged(2) [OF l a(4) assms(5)] assms(4) own
      by (auto simp: holds_with_def)
  qed
  moreover have "same_request n0 (merged l n)" using a(3) by (simp add: same_request_def)
  moreover have "lo (merged l n) \<le> lo n0" "hi n0 \<le> hi (merged l n)" using a(5,6) merged_range [OF l a(4)] by auto
  moreover have "same_frame s0 s'" using a(7) by (simp add: s'_def)
  ultimately show ?thesis
    using e(1) a(8) merged_range(3) [OF l a(4)] unfolding adj_inv_def s'_def [symmetric] by blast
qed

lemma holds_cut:
  assumes "held_ok N s" "(i, l) \<in> set (held_locks s)" "fits N n" "overlaps l n"
  shows "holds (cut_held i l n s) k b t \<longleftrightarrow> holds s k b t
    \<and> \<not> (ceph_filelock_owner_equal l k \<and> lo l \<le> b \<and> b < hi l \<and> (lo n \<le> b \<and> b < hi n))"
proof -
  have l: "fits N l" using assms(1,2) by (auto simp: held_ok_def)
  have "ceph_filelock_owner_equal (snd x) l \<and> fl_type (snd x) = fl_type l" if "x \<in> cut_nodes i (ls_next s) l n" for x
    using cut_nodes_part(2,3) [OF l assms(3,4), of "fst x" "snd x"] that by simp
  then show ?thesis
    using holds_erase [OF assms(1,2) cut_held_nodes(4) [OF assms(1,2), of n], of "\<lambda>b. lo n \<le> b \<and> b < hi n"]
      cut_nodes_cover [OF l assms(3,4)] by blast
qed

lemma adj_cut:
  assumes "adj_inv n0 s0 T n s" "(i, l) \<in> set (held_locks s)" "ceph_filelock_owner_equal l n" "overlaps l n"
  shows "adj_inv n0 s0 (T - {i}) n (cut_held i l n s)"
proof -
  note a = adj_invD [OF assms(1)]
  have l: "small l" using a(9) [OF assms(2)] by simp
  note c = cut_held_nodes(4) [OF a(1) assms(2), of n] and q = cut_nodes_part [OF l a(4) assms(4)]
  have "if ceph_filelock_owner_equal (snd x) n then fst x \<in> T - {i}
      else fl_type (snd x) \<noteq> CEPH_LOCK_EXCL \<and> fl_type n \<noteq> CEPH_LOCK_EXCL"
    if x: "x \<in> set (held_locks (cut_held i l n s))" "overlaps (snd x) n" for x
  proof -
    have "x \<notin> cut_nodes i (ls_next s) l n" using q(6) [of "fst x" "snd x"] x(2) by auto
    then have x': "x \<in> set (held_locks s)" "x \<noteq> (i, l)" using x(1) c by auto
    then have "fst x \<noteq> i" using nodes_fst_iff [OF a(2) assms(2)] by blast
    then show ?thesis using a(10,11) [OF x'(1) x(2)] by simp
  qed
  moreover have "holds_with n (cut_held i l n s) k b t \<longleftrightarrow> holds_with n s k b t" for k b t
  proof -
    note holds_cut [OF a(1) assms(2) a(4) assms(4), of k b t]
    moreover have "ceph_filelock_owner_equal l k \<longleftrightarrow> ceph_filelock_owner_equal k n" using assms(3) owner_equal_equiv by blast
    ultimately show ?thesis by (auto simp: holds_with_def)
  qed
  moreover have "same_frame s0 (cut_held i l n s)" using a(7) by (simp add: cut_held_def Let_def)
  ultimately show ?thesis
    using a(3-6,8) cut_held_inv [OF a(1) assms(2) a(4) assms(4)] unfolding adj_inv_def by blast
qed

lemma adjust_old_loop:
  assumes "adj_inv n0 s0 (fst ` set xs) n s" "set xs \<subseteq> set (held_locks s)" "distinct (map fst xs)"
    and "sorted (map (\<lambda>x. fl_start (snd x)) xs)" "\<And>x. x \<in> set xs \<Longrightarrow> ceph_filelock_owner_equal (snd x) n0 \<and> overlaps (snd x) n0"
    and "fl_length n = 0 \<Longrightarrow> fl_length n0 = 0 \<or> xs = []" "small n0" "set ys \<subseteq> set (held_locks s)" "fst ` set xs \<inter> fst ` set ys = {}"
  shows "\<exists>n' s'. fold_opt (adjust_old (fl_length n0 = 0)) (map fst xs) (n, s) = Some (n', s')
    \<and> adj_inv n0 s0 {} n' s' \<and> set ys \<subseteq> set (held_locks s')"
  using assms
proof (induction xs arbitrary: n s)
  case (Cons x xs)
  obtain i l where x: "x = (i, l)" by (cases x)
  note a = adj_invD [OF Cons.prems(1)]
  have il: "(i, l) \<in> set (held_locks s)" "small l" using Cons.prems(2) a(9) [of x] by (auto simp: x)
  have own: "ceph_filelock_owner_equal (snd y) n" if "y \<in> set (x # xs)" for y
    using Cons.prems(5) [OF that] same_request_owner [OF a(3)] by simp
  have ov: "overlaps l n" using Cons.prems(5) [of x] a(5,6) by (auto simp: x overlaps_def)
  have "fl_length n0 = 0 \<Longrightarrow> fl_length n = 0"
    using hi_le(1) [OF a(4)] a(6) by (cases "fl_length n = 0") (auto simp: hi_def [of n0])
  then have z: "(fl_length n0 = 0) = (fl_length n = 0)" using Cons.prems(6) by auto
  have T: "fst ` set (x # xs) - {i} = fst ` set xs" using Cons.prems(3) by (auto simp: x)
  have ni: "y \<noteq> (i, l)" if "y \<in> set xs \<union> set ys" for y using that Cons.prems(3,9) by (force simp: x)
  have "set xs \<subseteq> set (held_locks s)" using Cons.prems(2) by simp
  then have rest: "set xs \<subseteq> set (held_locks s) - {(i, l)}" "set ys \<subseteq> set (held_locks s) - {(i, l)}"
    using Cons.prems(8) ni by blast+
  show ?case
  proof (cases "fl_type l = fl_type n")
    case True
    let ?s = "drop_zero_held (fl_client l) (erase_held i (fl_client l) s)"
    have "touches l n" using ov by (auto simp: overlaps_def touches_def)
    then have inv: "adj_inv n0 s0 (fst ` set xs) (merged l n) ?s"
      using adj_merge [OF Cons.prems(1) il(1) _ True, unfolded T] own [of x] by (simp add: x)
    have set: "set (held_locks ?s) = set (held_locks s) - {(i, l)}" using erase_keeps_inv(2) [OF a(1) il(1)] .
    have "xs = []" if "fl_length l = 0"
    proof (rule ccontr)
      assume "xs \<noteq> []"
      then obtain y where y: "y \<in> set xs" by (cases xs) auto
      have "y \<in> set (held_locks s)" "y \<noteq> (i, l)" using y Cons.prems(2) ni by auto
      then have "compatible (snd y) l" using held_inv_compatible [OF a(1) _ il(1), of y] by simp
      moreover have "fl_start l \<le> fl_start (snd y)" using Cons.prems(4) y by (auto simp: x)
      then have "overlaps (snd y) l"
        using lo_less_hi [of "snd y"] unat_u64 [of "fl_start (snd y)"] that by (auto simp: overlaps_def lo_def hi_def [of l] word_le_nat_alt)
      moreover have "ceph_filelock_owner_equal (snd y) n" "ceph_filelock_owner_equal l n" using own [of x] own [of y] y by (auto simp: x)
      then have "ceph_filelock_owner_equal (snd y) l" using owner_equal_equiv by blast
      ultimately show False by (simp add: compatible_def)
    qed
    then have len: "fl_length (merged l n) = 0 \<Longrightarrow> fl_length n0 = 0 \<or> xs = []"
      using z merged_range(2) [OF il(2) a(4)] hi_le(1) [OF il(2)] hi_le(1) [OF a(4)]
      by (cases "fl_length l = 0"; cases "fl_length n = 0") (auto simp: hi_def [of "merged l n"])
    show ?thesis
      using Cons.IH [OF inv] Cons.prems rest len adjust_old_merge [OF a(2) il a(4) True] z unfolding set by (auto simp: x)
  next
    case False
    have inv: "adj_inv n0 s0 (fst ` set xs) n (cut_held i l n s)"
      using adj_cut [OF Cons.prems(1) il(1) _ ov, unfolded T] own [of x] by (simp add: x)
    have "set (held_locks s) - {(i, l)} \<subseteq> set (held_locks (cut_held i l n s))" using cut_held_nodes(4) [OF a(1) il(1)] by blast
    then have "set xs \<subseteq> set (held_locks (cut_held i l n s))" "set ys \<subseteq> set (held_locks (cut_held i l n s))"
      using rest by auto
    then show ?thesis
      using Cons.IH [OF inv] Cons.prems adjust_old_cut [OF a(2) il a(4) False] z by (auto simp: x)
  qed
qed auto

lemma adjust_neighbor_loop:
  assumes "adj_inv n0 s0 {} n s" "set ys \<subseteq> set (held_locks s)" "distinct (map fst ys)"
    and "\<And>y. y \<in> set ys \<Longrightarrow> ceph_filelock_owner_equal (snd y) n0 \<and> adjacent (snd y) n0"
  shows "\<exists>n' s'. fold_opt adjust_neighbor (map fst ys) (n, s) = Some (n', s') \<and> adj_inv n0 s0 {} n' s'"
  using assms
proof (induction ys arbitrary: n s)
  case (Cons y ys)
  obtain i l where y: "y = (i, l)" by (cases y)
  note a = adj_invD [OF Cons.prems(1)]
  have il: "(i, l) \<in> set (held_locks s)" "small l" using Cons.prems(2) a(9) [of y] by (auto simp: y)
  have own: "ceph_filelock_owner_equal l n" using Cons.prems(4) [of y] same_request_owner [OF a(3)] by (simp add: y)
  then have "\<not> overlaps l n" using a(10) [OF il(1)] by auto
  moreover have "hi l = lo n0 \<or> lo l = hi n0" using Cons.prems(4) [of y] by (simp add: y adjacent_def)
  ultimately have adj: "adjacent l n"
    using a(5,6) lo_less_hi [of l] lo_less_hi [of n] lo_less_hi [of n0] by (auto simp: overlaps_def adjacent_def)
  have ys: "set ys \<subseteq> set (held_locks s)" using Cons.prems(2) by simp
  show ?case
  proof (cases "fl_type l = fl_type n")
    case True
    have "touches l n" using adj lo_less_hi [of l] lo_less_hi [of n] by (auto simp: adjacent_def touches_def)
    then have inv: "adj_inv n0 s0 {} (merged l n) (drop_zero_held (fl_client l) (erase_held i (fl_client l) s))"
      using adj_merge [OF Cons.prems(1) il(1) own True] by simp
    have "z \<noteq> (i, l)" if "z \<in> set ys" for z using that Cons.prems(3) by (force simp: y)
    then have "set ys \<subseteq> set (held_locks (drop_zero_held (fl_client l) (erase_held i (fl_client l) s)))"
      unfolding erase_keeps_inv(2) [OF a(1) il(1)] using ys by blast
    then show ?thesis
      using Cons.IH [OF inv] Cons.prems(3,4) adjust_neighbor_merge [OF a(2) il a(4) True adj] by (simp add: y)
  next
    case False
    then show ?thesis
      using Cons.IH [OF Cons.prems(1) ys] Cons.prems(3,4) adjust_neighbor_other [OF a(1) il(1) False] by (simp add: y)
  qed
qed auto

lemma insert_keeps_inv:
  assumes "adj_inv n0 s0 {} n s"
  shows "held_inv (insert_held n s)" "holds (insert_held n s) k b t \<longleftrightarrow> holds_with n0 s0 k b t"
proof -
  note a = adj_invD [OF assms]
  have c: "counted (fl_client n) (insert_held n s)" using insert_held_counted [OF held_inv_counted [OF a(1)]] .
  have "count_of (client_held_lock_counts s) c + 1 \<noteq> 0" for c using a(1) by (simp add: held_ok_def counts_exact_def)
  then have "no_zero (client_held_lock_counts (insert_held n s))"
    using a(1) by (simp add: no_zero_def held_ok_def insert_held_def count_add_def)
  moreover have n: "compatible (snd x) n" if "x \<in> set (held_locks s)" for x
    using a(10,11) [OF that] by (auto simp: compatible_def)
  then have "compatible n (snd x)" if "x \<in> set (held_locks s)" for x
    using that owner_equal_equiv(2) unfolding compatible_def overlaps_sym [of n] by blast
  ultimately show "held_inv (insert_held n s)"
    using c n a(1,4) unfolding held_ok_def counted_def insert_held_set by auto
  have "\<not> holds s k b t" if "ceph_filelock_owner_equal k n" "lo n \<le> b" "b < hi n"
  proof
    assume "holds s k b t"
    then obtain x where x: "x \<in> set (held_locks s)" "ceph_filelock_owner_equal (snd x) k" "lo (snd x) \<le> b" "b < hi (snd x)"
      unfolding holds_def by blast
    then have "overlaps (snd x) n" "ceph_filelock_owner_equal (snd x) n"
      using that owner_equal_equiv(3) by (auto simp: overlaps_def)
    then show False using a(10) [OF x(1)] by blast
  qed
  moreover have "holds (insert_held n s) k b t \<longleftrightarrow> (ceph_filelock_owner_equal n k \<and> fl_type n = t \<and> lo n \<le> b \<and> b < hi n) \<or> holds s k b t"
    by (simp add: holds_def)
  moreover have "ceph_filelock_owner_equal n k \<longleftrightarrow> ceph_filelock_owner_equal k n" using owner_equal_equiv(2) by blast
  ultimately show "holds (insert_held n s) k b t \<longleftrightarrow> holds_with n0 s0 k b t"
    using a(8) [of k b t] unfolding holds_with_def [of n] by (cases "ceph_filelock_owner_equal k n \<and> lo n \<le> b \<and> b < hi n") auto
qed

definition own_nodes :: "ceph_filelock \<Rightarrow> lock_state \<Rightarrow> node list" where
  "own_nodes n s = filter (\<lambda>x. ceph_filelock_owner_equal (snd x) n) (overlapping_nodes n s)"

lemma node_lists:
  assumes "held_ok N s"
  shows "set (own_nodes n s) \<subseteq> set (held_locks s)" "distinct (map fst (own_nodes n s))" "sorted (map (\<lambda>x. fl_start (snd x)) (own_nodes n s))"
    "distinct (map fst (neighbor_nodes n s))" "set (neighbor_nodes n s) \<subseteq> set (held_locks s)" "fst ` set (own_nodes n s) \<inter> fst ` set (neighbor_nodes n s) = {}"
proof -
  have n: "nodes_ok s" using assms by (simp add: held_ok_def)
  show "set (own_nodes n s) \<subseteq> set (held_locks s)" "set (neighbor_nodes n s) \<subseteq> set (held_locks s)"
    by (auto simp: own_nodes_def overlapping_nodes_def neighbor_nodes_def)
  show "distinct (map fst (own_nodes n s))" "sorted (map (\<lambda>x. fl_start (snd x)) (own_nodes n s))" "distinct (map fst (neighbor_nodes n s))"
    using n by (simp_all add: nodes_ok_def own_nodes_def overlapping_nodes_def neighbor_nodes_def distinct_map_filter sorted_filter)
  have "x = y" if "x \<in> set (own_nodes n s)" "y \<in> set (neighbor_nodes n s)" "fst x = fst y" for x y
    using nodes_eqI [OF n _ _ that(3)] that by (auto simp: own_nodes_def overlapping_nodes_def neighbor_nodes_def)
  then show "fst ` set (own_nodes n s) \<inter> fst ` set (neighbor_nodes n s) = {}"
    by (fastforce simp: own_nodes_def overlapping_nodes_def neighbor_nodes_def)
qed

lemma adjust_locks_correct:
  assumes "held_inv s" "small n"
    and "\<And>x. x \<in> set (held_locks s) \<Longrightarrow> overlaps (snd x) n \<Longrightarrow> \<not> ceph_filelock_owner_equal (snd x) n
      \<Longrightarrow> fl_type (snd x) \<noteq> CEPH_LOCK_EXCL \<and> fl_type n \<noteq> CEPH_LOCK_EXCL"
  shows "\<exists>n' s'. adjust_locks (map fst (own_nodes n s)) n (map fst (neighbor_nodes n s)) s = Some (n', s') \<and> same_frame s s'
    \<and> held_inv (insert_held n' s') \<and> (\<forall>k b t. holds (insert_held n' s') k b t \<longleftrightarrow> holds_with n s k b t)"
proof -
  note l = node_lists [OF assms(1), of n]
  have "adj_inv n s (fst ` set (own_nodes n s)) n s"
    using assms by (auto simp: adj_inv_def same_request_def own_nodes_def overlapping_nodes_def)
  then obtain n1 s1 where 1: "fold_opt (adjust_old (fl_length n = 0)) (map fst (own_nodes n s)) (n, s) = Some (n1, s1)"
      "adj_inv n s {} n1 s1" "set (neighbor_nodes n s) \<subseteq> set (held_locks s1)"
    using adjust_old_loop [OF _ l(1-3) _ _ assms(2) l(5,6)] by (fastforce simp: own_nodes_def overlapping_nodes_def)
  obtain n2 s2 where 2: "fold_opt adjust_neighbor (map fst (neighbor_nodes n s)) (n1, s1) = Some (n2, s2)" "adj_inv n s {} n2 s2"
    using adjust_neighbor_loop [OF 1(2,3) l(4)] by (fastforce simp: neighbor_nodes_def)
  have "adjust_locks (map fst (own_nodes n s)) n (map fst (neighbor_nodes n s)) s = Some (n2, s2)"
    using 1(1) 2(1) by (simp add: adjust_locks_def)
  then show ?thesis using insert_keeps_inv [OF 2(2)] adj_invD(7) [OF 2(2)] by blast
qed

lemma remove_old_loop:
  assumes "held_ok N s" "set xs \<subseteq> set (held_locks s)" "distinct (map fst xs)" "fits N n"
    and "\<And>x. x \<in> set xs \<Longrightarrow> overlaps (snd x) n"
  shows "\<exists>s'. fold_opt (remove_old n) (map fst xs) s = Some s' \<and> held_ok N s' \<and> same_frame s s'
    \<and> (\<forall>k b t. holds s' k b t \<longleftrightarrow> holds s k b t
         \<and> \<not> (lo n \<le> b \<and> b < hi n \<and> (\<exists>x\<in>set xs. ceph_filelock_owner_equal (snd x) k \<and> lo (snd x) \<le> b \<and> b < hi (snd x))))"
  using assms
proof (induction xs arbitrary: s)
  case (Cons x xs)
  obtain i l where x: "x = (i, l)" by (cases x)
  have il: "(i, l) \<in> set (held_locks s)" "fits N l" "overlaps l n"
    using Cons.prems(1,2) Cons.prems(5) [of x] by (auto simp: x held_ok_def)
  have ok: "nodes_ok s" using Cons.prems(1) by (simp add: held_ok_def)
  note inv = cut_held_inv [OF Cons.prems(1) il(1) Cons.prems(4) il(3)] and h = holds_cut [OF Cons.prems(1) il(1) Cons.prems(4) il(3)]
  have "y \<noteq> (i, l)" if "y \<in> set xs" for y using that Cons.prems(3) by (force simp: x)
  then have "set xs \<subseteq> set (held_locks (cut_held i l n s))"
    unfolding cut_held_nodes(4) [OF Cons.prems(1) il(1)] using Cons.prems(2) by auto
  then obtain s' where s': "fold_opt (remove_old n) (map fst xs) (cut_held i l n s) = Some s'" "held_ok N s'"
      "same_frame (cut_held i l n s) s'"
      "\<forall>k b t. holds s' k b t \<longleftrightarrow> holds (cut_held i l n s) k b t
         \<and> \<not> (lo n \<le> b \<and> b < hi n \<and> (\<exists>x\<in>set xs. ceph_filelock_owner_equal (snd x) k \<and> lo (snd x) \<le> b \<and> b < hi (snd x)))"
    using Cons.IH [OF inv] Cons.prems(3-5) by auto
  have "same_frame s (cut_held i l n s)" by (simp add: cut_held_def Let_def)
  then have "same_frame s s'" using s'(3) by (simp add: same_frame_def)
  then show ?case
    using s' remove_old_cut [OF ok il(1,2) Cons.prems(4)] by (auto simp: x h)
qed auto

section \<open>Waiting locks\<close>

text \<open>The waiting locks are in the order of their starts, and their counts are exact.\<close>

definition client_waits :: "lock_state \<Rightarrow> u64 \<Rightarrow> nat" where
  "client_waits s c = length (filter (\<lambda>l. fl_client l = c) (waiting_locks s))"

definition wait_inv :: "lock_state \<Rightarrow> bool" where
  "wait_inv s \<longleftrightarrow> sorted (map fl_start (waiting_locks s)) \<and> no_zero (client_waiting_lock_counts s)
     \<and> (\<forall>c. count_of (client_waiting_lock_counts s) c = int (client_waits s c))"

definition waits_for :: "ceph_filelock \<Rightarrow> ceph_filelock \<Rightarrow> bool" where
  "waits_for fl l \<longleftrightarrow> fl_start l = fl_start fl \<and> fl_length l = fl_length fl \<and> ceph_filelock_owner_equal l fl"

lemma waiting_scan_iff:
  assumes "sorted (map fl_start ls)" "\<And>l. l \<in> set ls \<Longrightarrow> fl_start fl \<le> fl_start l"
  shows "waiting_scan fl ls \<longleftrightarrow> (\<exists>l\<in>set ls. waits_for fl l)"
  using assms
proof (induction ls)
  case (Cons l ls)
  show ?case
  proof (cases "fl_start l > fl_start fl")
    case True
    then have "\<not> waits_for fl x" if "x \<in> set (l # ls)" for x using Cons.prems(1) that by (auto simp: waits_for_def)
    then show ?thesis using True by auto
  next
    case False
    then have "fl_start l = fl_start fl" using Cons.prems(2) [of l] by auto
    then show ?thesis using Cons by (auto simp: waits_for_def)
  qed
qed simp

lemma sorted_from:
  assumes "sorted (map fl_start ls)"
  shows "sorted (map fl_start (dropWhile (\<lambda>l. fl_start l \<noteq> a) ls))" "l \<in> set (dropWhile (\<lambda>l. fl_start l \<noteq> a) ls) \<Longrightarrow> a \<le> fl_start l"
    "l \<in> set ls \<Longrightarrow> fl_start l = a \<Longrightarrow> l \<in> set (dropWhile (\<lambda>l. fl_start l \<noteq> a) ls)"
  using assms by (induction ls) (auto split: if_splits)

lemma is_waiting_iff:
  assumes "wait_inv s"
  shows "is_waiting fl s \<longleftrightarrow> (\<exists>l\<in>set (waiting_locks s). waits_for fl l)"
proof -
  have s: "sorted (map fl_start (waiting_locks s))" using assms by (simp add: wait_inv_def)
  let ?d = "dropWhile (\<lambda>l. fl_start l \<noteq> fl_start fl) (waiting_locks s)"
  have "is_waiting fl s \<longleftrightarrow> (\<exists>l\<in>set ?d. waits_for fl l)"
    unfolding is_waiting_def using sorted_from(1,2) [OF s] by (rule waiting_scan_iff)
  moreover have "l \<in> set ?d \<longleftrightarrow> l \<in> set (waiting_locks s)" if "waits_for fl l" for l
    using sorted_from(3) [OF s, of l "fl_start fl"] set_dropWhileD [of l "\<lambda>l. fl_start l \<noteq> fl_start fl" "waiting_locks s"] that
    by (auto simp: waits_for_def)
  ultimately show ?thesis by blast
qed

lemma waiting_split_Some: "waiting_split fl ls = Some (pre, l, post) \<Longrightarrow> ls = pre @ l # post \<and> ceph_filelock_owner_equal l fl"
  by (induction fl ls arbitrary: pre rule: waiting_split.induct) (auto split: if_splits)

lemma remove_global_state [simp]: "fs_state (remove_global_waiting l p sys) = fs_state sys"
  by (simp add: remove_global_waiting_def Let_def)

lemma remove_globals_state [simp]: "fs_state (fold (\<lambda>l. remove_global_waiting l p) ls sys) = fs_state sys"
  by (induction ls arbitrary: sys) simp_all

lemma set_state_simps [simp]: "fs_state (set_state p s sys) = (fs_state sys)(p := s)"
  by (simp add: set_state_def)

text \<open>The part of the state that changes of the waiting locks keep.\<close>

definition same_held :: "lock_state \<Rightarrow> lock_state \<Rightarrow> bool" where
  "same_held s s' \<longleftrightarrow> ls_type s' = ls_type s \<and> held_locks s' = held_locks s \<and> ls_next s' = ls_next s
     \<and> client_held_lock_counts s' = client_held_lock_counts s"

lemma same_held_inv:
  assumes "same_held s s'"
  shows "held_ok N s' \<longleftrightarrow> held_ok N s" "holds s' k b t \<longleftrightarrow> holds s k b t" "overlapping_nodes n s' = overlapping_nodes n s"
    "neighbor_nodes n s' = neighbor_nodes n s" "own_nodes n s' = own_nodes n s"
  using assms by (simp_all add: same_held_def held_ok_def nodes_ok_def counts_exact_def client_nodes_def holds_def overlapping_nodes_def neighbor_nodes_def own_nodes_def)

lemma remove_waiting_ok:
  fixes fl :: ceph_filelock
  assumes "wait_inv (fs_state sys p)"
  defines "s' \<equiv> fs_state (remove_waiting p fl sys) p"
  shows "wait_inv s'" "same_held (fs_state sys p) s'" "q \<noteq> p \<Longrightarrow> fs_state (remove_waiting p fl sys) q = fs_state sys q"
proof -
  let ?s = "fs_state sys p" and ?before = "\<lambda>l. fl_start l \<noteq> fl_start fl"
  have "wait_inv s' \<and> same_held ?s s' \<and> (q \<noteq> p \<longrightarrow> fs_state (remove_waiting p fl sys) q = fs_state sys q)"
  proof (cases "waiting_split fl (dropWhile ?before (waiting_locks ?s))")
    case None
    then show ?thesis using assms(1) by (simp add: s'_def remove_waiting_def same_held_def)
  next
    case (Some r)
    obtain pre l post where r: "r = (pre, l, post)" by (cases r)
    note sp = waiting_split_Some [OF Some [unfolded r]]
    define ws where "ws = takeWhile ?before (waiting_locks ?s) @ pre"
    have "waiting_locks ?s = takeWhile ?before (waiting_locks ?s) @ dropWhile ?before (waiting_locks ?s)" by simp
    then have w: "waiting_locks ?s = ws @ l # post" using sp by (simp add: ws_def)
    have c: "fl_client l = fl_client fl" using sp owner_equal_client by blast
    have st: "s' = ?s\<lparr>waiting_locks := ws @ post, client_waiting_lock_counts :=
        count_drop_zero (fl_client fl) (count_add (fl_client fl) (- 1) (client_waiting_lock_counts ?s))\<rparr>"
      using Some by (simp add: s'_def remove_waiting_def Let_def r ws_def)
    have "sorted (map fl_start (ws @ post))" using assms(1) by (simp add: wait_inv_def w sorted_append)
    moreover have "no_zero (client_waiting_lock_counts s')"
      using assms(1) by (auto simp: st wait_inv_def no_zero_def count_drop_zero_def count_add_def count_of_def)
    moreover have "count_of (client_waiting_lock_counts s') c' = int (client_waits s' c')" for c'
      using assms(1) c by (auto simp: st wait_inv_def client_waits_def w)
    ultimately have "wait_inv s'" by (simp add: wait_inv_def st)
    then show ?thesis using Some by (auto simp: st same_held_def remove_waiting_def Let_def r)
  qed
  then show "wait_inv s'" "same_held ?s s'" "q \<noteq> p \<Longrightarrow> fs_state (remove_waiting p fl sys) q = fs_state sys q" by blast+
qed

lemma add_waiting_ok:
  fixes fl :: ceph_filelock
  assumes "wait_inv (fs_state sys p)"
  defines "s' \<equiv> fs_state (add_waiting p fl sys) p"
  shows "wait_inv s'" "same_held (fs_state sys p) s'" "q \<noteq> p \<Longrightarrow> fs_state (add_waiting p fl sys) q = fs_state sys q" "is_waiting fl s'"
proof -
  let ?s = "fs_state sys p"
  have st: "s' = ?s\<lparr>waiting_locks := insert_after (\<lambda>x y. fl_start x < fl_start y) fl (waiting_locks ?s),
      client_waiting_lock_counts := count_add (fl_client fl) 1 (client_waiting_lock_counts ?s)\<rparr>"
    by (simp add: s'_def add_waiting_def Let_def)
  have "length (filter P (insert_after lt fl ws)) = length (filter P ws) + of_bool (P fl)" for P lt ws
    by (induction ws) auto
  then have "count_of (client_waiting_lock_counts s') c = int (client_waits s' c)" for c
    using assms(1) by (simp add: st wait_inv_def client_waits_def)
  moreover have "count_of (client_waiting_lock_counts ?s) c + 1 \<noteq> 0" for c using assms(1) by (simp add: wait_inv_def)
  then have "no_zero (client_waiting_lock_counts s')" using assms(1) by (simp add: st wait_inv_def no_zero_def count_add_def)
  moreover have "sorted (map fl_start (waiting_locks s'))" using assms(1) by (simp add: st wait_inv_def sorted_insert_after)
  ultimately show w: "wait_inv s'" by (simp add: wait_inv_def)
  show "same_held ?s s'" by (simp add: st same_held_def)
  show "q \<noteq> p \<Longrightarrow> fs_state (add_waiting p fl sys) q = fs_state sys q" by (simp add: add_waiting_def Let_def)
  show "is_waiting fl s'" unfolding is_waiting_iff [OF w] by (simp add: st waits_for_def owner_equal_equiv(1))
qed

end
