(* ===== verification/Flock_Sys.thy ===== *)
theory Flock_Sys
  imports Flock_Ops "HOL-Library.Product_Lexorder"
begin

text \<open>
  The lock states of all files together: setting and removing locks, the requests, and what holds in every state that can be
  reached.
\<close>

section \<open>The order of locks\<close>

text \<open>The comparison of locks is the lexicographic order of these keys.\<close>

definition owner_key :: "ceph_filelock \<Rightarrow> u64 \<times> u64 \<times> u64" where
  "owner_key l = (fl_client l, fl_owner l, if fl_owner l AND push_bit 63 1 \<noteq> 0 then 0 else fl_pid l)"

definition lock_key :: "ceph_filelock \<Rightarrow> (u64 \<times> u64 \<times> u64) \<times> u64 \<times> u64 \<times> u8" where
  "lock_key l = (owner_key l, fl_start l, fl_length l, fl_type l)"

lemma owner_equal_key: "ceph_filelock_owner_equal a b \<longleftrightarrow> owner_key a = owner_key b"
  by (auto simp: ceph_filelock_owner_equal_def owner_key_def)

lemma owner_compare_key:
  "ceph_filelock_owner_compare a b = (if owner_key a = owner_key b then 0 else if owner_key a > owner_key b then 1 else - 1)"
  by (auto simp: ceph_filelock_owner_compare_def owner_key_def)

lemma compare_key:
  "ceph_filelock_compare a b = (if lock_key a = lock_key b then 0 else if lock_key a > lock_key b then 1 else - 1)"
  unfolding ceph_filelock_compare_def owner_compare_key lock_key_def Let_def by auto

lemma compare_less: "ceph_filelock_compare a b < 0 \<longleftrightarrow> lock_key a < lock_key b"
  by (auto simp: compare_key)

section \<open>The invariant\<close>

text \<open>All held locks fit into the bound \<open>N\<close>; for setting locks it has to be 2 GiB.\<close>

definition sys_ok :: "u64 \<Rightarrow> flock_sys \<Rightarrow> bool" where
  "sys_ok N sys \<longleftrightarrow> (\<forall>p. held_ok N (fs_state sys p) \<and> wait_inv (fs_state sys p))
     \<and> sorted (map (\<lambda>q. lock_key (fst q)) (global_waiting_locks sys))"

abbreviation sys_inv :: "flock_sys \<Rightarrow> bool" where
  "sys_inv \<equiv> sys_ok (2 ^ 31)"

lemma erase_global_sorted:
  fixes f :: "ceph_filelock \<times> nat \<Rightarrow> 'k :: linorder"
  shows "set (erase_global fl p xs) \<subseteq> set xs" "sorted (map f xs) \<Longrightarrow> sorted (map f (erase_global fl p xs))"
proof -
  show sub: "set (erase_global fl p xs) \<subseteq> set xs" for xs by (induction xs) auto
  show "sorted (map f xs) \<Longrightarrow> sorted (map f (erase_global fl p xs))" using sub by (induction xs) fastforce+
qed

lemma remove_global_sorted:
  fixes f :: "ceph_filelock \<times> nat \<Rightarrow> 'k :: linorder"
  assumes "sorted (map f (global_waiting_locks sys))"
  shows "sorted (map f (global_waiting_locks (remove_global_waiting fl p sys)))"
proof -
  let ?d = "\<lambda>x. ceph_filelock_compare (fst x) fl \<noteq> 0" and ?g = "global_waiting_locks sys"
  have "sorted (map f (takeWhile ?d ?g @ dropWhile ?d ?g))" using assms by simp
  then have "sorted (map f (takeWhile ?d ?g))" "sorted (map f (dropWhile ?d ?g))"
      "\<forall>x\<in>set (takeWhile ?d ?g). \<forall>y\<in>set (dropWhile ?d ?g). f x \<le> f y"
    by (simp_all only: map_append sorted_append set_map ball_simps) blast
  then have "sorted (map f (takeWhile ?d ?g @ erase_global fl p (dropWhile ?d ?g)))"
    using erase_global_sorted [where fl = fl and p = p and xs = "dropWhile ?d ?g"] by (auto simp: sorted_append)
  then show ?thesis by (simp add: remove_global_waiting_def Let_def)
qed

lemma remove_globals_sorted:
  fixes f :: "ceph_filelock \<times> nat \<Rightarrow> 'k :: linorder"
  shows "sorted (map f (global_waiting_locks sys)) \<Longrightarrow> sorted (map f (global_waiting_locks (fold (\<lambda>l. remove_global_waiting l p) ls sys)))"
  by (induction ls arbitrary: sys) (simp_all add: remove_global_sorted)

lemma set_state_global [simp]: "global_waiting_locks (set_state p s sys) = global_waiting_locks sys"
  by (simp add: set_state_def)

lemma sys_inv_set_state: "sys_ok N sys \<Longrightarrow> held_ok N s \<Longrightarrow> wait_inv s \<Longrightarrow> sys_ok N (set_state p s sys)"
  by (simp add: sys_ok_def)

lemma sys_invI:
  assumes "sys_ok N sys" "\<And>q. q \<noteq> p \<Longrightarrow> fs_state sys' q = fs_state sys q" "held_ok N (fs_state sys' p)" "wait_inv (fs_state sys' p)"
    and "sorted (map (\<lambda>q. lock_key (fst q)) (global_waiting_locks sys'))"
  shows "sys_ok N sys'"
  using assms unfolding sys_ok_def by metis

lemma sys_inv_remove_waiting:
  assumes "sys_ok N sys"
  shows "sys_ok N (remove_waiting p fl sys)"
proof (rule sys_invI [OF assms])
  have w: "wait_inv (fs_state sys p)" "held_ok N (fs_state sys p)" using assms by (simp_all add: sys_ok_def)
  note r = remove_waiting_ok [OF w(1)]
  show "q \<noteq> p \<Longrightarrow> fs_state (remove_waiting p fl sys) q = fs_state sys q" for q by (rule r(3))
  show "wait_inv (fs_state (remove_waiting p fl sys) p)" by (rule r(1))
  show "held_ok N (fs_state (remove_waiting p fl sys) p)" using same_held_inv(1) [OF r(2)] w(2) by blast
  show "sorted (map (\<lambda>q. lock_key (fst q)) (global_waiting_locks (remove_waiting p fl sys)))"
    using assms remove_global_sorted by (auto simp: remove_waiting_def Let_def sys_ok_def split: option.split)
qed

lemma sys_inv_add_waiting:
  assumes "sys_ok N sys"
  shows "sys_ok N (add_waiting p fl sys)"
proof (rule sys_invI [OF assms])
  have w: "wait_inv (fs_state sys p)" "held_ok N (fs_state sys p)" using assms by (simp_all add: sys_ok_def)
  note r = add_waiting_ok [OF w(1)]
  show "q \<noteq> p \<Longrightarrow> fs_state (add_waiting p fl sys) q = fs_state sys q" for q by (rule r(3))
  show "wait_inv (fs_state (add_waiting p fl sys) p)" by (rule r(1))
  show "held_ok N (fs_state (add_waiting p fl sys) p)" using same_held_inv(1) [OF r(2)] w(2) by blast
  show "sorted (map (\<lambda>q. lock_key (fst q)) (global_waiting_locks (add_waiting p fl sys)))"
    using assms sorted_insert_after [of "\<lambda>q. lock_key (fst q)" "global_waiting_locks sys" "(fl, p)"]
    by (simp add: add_waiting_def Let_def sys_ok_def compare_less)
qed

section \<open>Setting a lock\<close>

text \<open>Somebody else holds a lock in the way.\<close>

definition conflict :: "ceph_filelock \<Rightarrow> lock_state \<Rightarrow> bool" where
  "conflict n s \<longleftrightarrow> (\<exists>x\<in>set (held_locks s). \<not> ceph_filelock_owner_equal (snd x) n \<and> overlaps (snd x) n
     \<and> (fl_type (snd x) = CEPH_LOCK_EXCL \<or> fl_type n = CEPH_LOCK_EXCL))"

lemma others_eq:
  assumes "held_inv s" "small n"
  shows "others_overlapping n s = filter (\<lambda>x. \<not> ceph_filelock_owner_equal (snd x) n) (overlapping_nodes n s)"
  using get_overlapping_locks_filter [OF assms, of False] by (simp add: others_overlapping_def split_by_owner_def)

lemma conflict_others:
  assumes "held_inv s" "small n"
  shows "conflict n s \<longleftrightarrow> others_overlapping n s \<noteq> []
    \<and> (fl_type n = CEPH_LOCK_EXCL \<or> contains_exclusive_lock (others_overlapping n s) \<noteq> None)"
proof -
  let ?excl = "\<lambda>x :: node. fl_type (snd x) = CEPH_LOCK_EXCL"
  have "conflict n s \<longleftrightarrow> (\<exists>x\<in>set (others_overlapping n s). ?excl x \<or> fl_type n = CEPH_LOCK_EXCL)"
    unfolding others_eq [OF assms] conflict_def overlapping_nodes_def set_filter by blast
  moreover have "contains_exclusive_lock (others_overlapping n s) \<noteq> None \<longleftrightarrow> (\<exists>x\<in>set (others_overlapping n s). ?excl x)"
    unfolding contains_exclusive_lock_def option.map_disc_iff find_None_iff by blast
  ultimately show ?thesis by (cases "others_overlapping n s") auto
qed

lemma add_lock_blocked:
  assumes "sys_inv sys" "small n" "conflict n (fs_state sys p)"
  shows "add_lock p n w r sys = Some (False, w \<and> \<not> r \<and> is_deadlock p n (others_overlapping n (fs_state sys p)) sys,
    if w \<and> \<not> r \<and> \<not> is_deadlock p n (others_overlapping n (fs_state sys p)) sys then add_waiting p n sys else sys)"
proof -
  have h: "held_inv (fs_state sys p)" using assms(1) by (simp add: sys_ok_def)
  show ?thesis
    using assms(3) get_overlapping_locks_filter [OF h assms(2), of True] unfolding conflict_others [OF h assms(2)] others_eq [OF h assms(2)]
    by (auto simp: add_lock_def split_by_owner_def Let_def)
qed

lemma same_frame_wait: "same_frame s s' \<Longrightarrow> wait_inv s' \<longleftrightarrow> wait_inv s"
  by (simp add: same_frame_def wait_inv_def client_waits_def)

lemma add_lock_granted:
  assumes "sys_inv sys" "small n" "\<not> conflict n (fs_state sys p)"
  shows "\<exists>s'. add_lock p n w r sys = Some (True, False, set_state p s' (remove_waiting p n sys)) \<and> held_inv s' \<and> wait_inv s'
    \<and> (\<forall>k b t. holds s' k b t \<longleftrightarrow> holds_with n (fs_state sys p) k b t)"
proof -
  have h: "held_inv (fs_state sys p)" and w: "wait_inv (fs_state sys p)" using assms(1) by (simp_all add: sys_ok_def)
  define s1 where "s1 = fs_state (remove_waiting p n sys) p"
  note r = remove_waiting_ok [OF w, where fl = n, folded s1_def]
  note e = same_held_inv [OF r(2)]
  have hl: "held_locks s1 = held_locks (fs_state sys p)" using r(2) by (simp add: same_held_def)
  have "fl_type (snd x) \<noteq> CEPH_LOCK_EXCL \<and> fl_type n \<noteq> CEPH_LOCK_EXCL"
    if "x \<in> set (held_locks s1)" "overlaps (snd x) n" "\<not> ceph_filelock_owner_equal (snd x) n" for x
    using assms(3) that unfolding conflict_def hl by blast
  then obtain n' s2 where a: "adjust_locks (map fst (own_nodes n s1)) n (map fst (neighbor_nodes n s1)) s1 = Some (n', s2)" "same_frame s1 s2"
      "held_inv (insert_held n' s2)" "\<forall>k b t. holds (insert_held n' s2) k b t \<longleftrightarrow> holds_with n s1 k b t"
    using adjust_locks_correct [of s1 n] e(1) h assms(2) by blast
  have g: "get_overlapping_locks n True (fs_state sys p) = (overlapping_nodes n (fs_state sys p), neighbor_nodes n (fs_state sys p))"
    using get_overlapping_locks_filter [OF h assms(2), of True] by simp
  have "add_lock p n w r sys = Some (True, False, set_state p (insert_held n' s2) (remove_waiting p n sys))"
    using assms(3) a(1) unfolding conflict_others [OF h assms(2)] others_eq [OF h assms(2)] e(4,5)
    by (auto simp: add_lock_def split_by_owner_def Let_def g own_nodes_def s1_def)
  moreover have "wait_inv (insert_held n' s2)" using same_frame_wait [of s1 "insert_held n' s2"] a(2) r(1) by simp
  moreover have "holds_with n s1 k b t \<longleftrightarrow> holds_with n (fs_state sys p) k b t" for k b t by (simp add: holds_with_def e(2))
  ultimately show ?thesis using a(3,4) by blast
qed

section \<open>Removing locks\<close>

lemma remove_lock_ok:
  assumes "sys_ok N sys" "fits N n"
  shows "\<exists>s'. remove_lock p n sys = Some (set_state p s' sys) \<and> held_ok N s' \<and> wait_inv s'
    \<and> (\<forall>k b t. holds s' k b t \<longleftrightarrow> holds (fs_state sys p) k b t \<and> \<not> (ceph_filelock_owner_equal k n \<and> lo n \<le> b \<and> b < hi n))"
proof -
  let ?s = "fs_state sys p"
  have h: "held_ok N ?s" and w: "wait_inv ?s" using assms(1) by (simp_all add: sys_ok_def)
  have "overlaps (snd x) n" if "x \<in> set (own_nodes n ?s)" for x using that by (simp add: own_nodes_def overlapping_nodes_def)
  then obtain s' where s': "fold_opt (remove_old n) (map fst (own_nodes n ?s)) ?s = Some s'" "held_ok N s'" "same_frame ?s s'"
      "\<And>k b t. holds s' k b t \<longleftrightarrow> holds ?s k b t
         \<and> \<not> (lo n \<le> b \<and> b < hi n \<and> (\<exists>x\<in>set (own_nodes n ?s). ceph_filelock_owner_equal (snd x) k \<and> lo (snd x) \<le> b \<and> b < hi (snd x)))"
    using remove_old_loop [OF h node_lists(1,2) [OF h] assms(2)] by blast
  have "remove_lock p n sys = Some (set_state p s' sys)"
    using s'(1) overlapping_locks_filter [OF h assms(2), of False] by (simp add: remove_lock_def split_by_owner_def own_nodes_def)
  moreover have "holds s' k b t \<longleftrightarrow> holds ?s k b t \<and> \<not> (ceph_filelock_owner_equal k n \<and> lo n \<le> b \<and> b < hi n)" for k b t
  proof -
    have mem: "x \<in> set (own_nodes n ?s) \<longleftrightarrow> x \<in> set (held_locks ?s) \<and> overlaps (snd x) n \<and> ceph_filelock_owner_equal (snd x) n" for x
      by (auto simp: own_nodes_def overlapping_nodes_def)
    have "(\<exists>x\<in>set (own_nodes n ?s). ceph_filelock_owner_equal (snd x) k \<and> lo (snd x) \<le> b \<and> b < hi (snd x)) \<longleftrightarrow> ceph_filelock_owner_equal k n"
      if hb: "holds ?s k b t" "lo n \<le> b" "b < hi n"
    proof -
      obtain x where x: "x \<in> set (held_locks ?s)" "ceph_filelock_owner_equal (snd x) k" "lo (snd x) \<le> b" "b < hi (snd x)"
        using hb(1) unfolding holds_def by blast
      have "overlaps (snd x) n" using x(3,4) hb(2,3) by (auto simp: overlaps_def)
      then show ?thesis using x mem owner_equal_equiv(2,3) by blast
    qed
    then show ?thesis unfolding s'(4) by blast
  qed
  ultimately show ?thesis using s'(2) same_frame_wait [OF s'(3)] w by blast
qed

lemma remove_held_client:
  fixes c :: u64
  assumes "held_ok N s"
  defines "s' \<equiv> s\<lparr>held_locks := filter (\<lambda>x. fl_client (snd x) \<noteq> c) (held_locks s),
    client_held_lock_counts := (client_held_lock_counts s)(c := None)\<rparr>"
  shows "held_ok N s'" "holds s' k b t \<longleftrightarrow> holds s k b t \<and> fl_client k \<noteq> c"
proof -
  have "client_nodes s' c' = (if c' = c then {} else client_nodes s c')" for c' by (auto simp: client_nodes_def s'_def)
  then have "counts_exact s'" using assms(1) by (simp add: held_ok_def counts_exact_def s'_def count_of_def)
  moreover have "nodes_ok s'" using assms(1) by (simp add: held_ok_def nodes_ok_def s'_def sorted_filter distinct_map_filter)
  moreover have "no_zero (client_held_lock_counts s')" using assms(1) by (simp add: held_ok_def no_zero_def s'_def)
  ultimately show "held_ok N s'" using assms(1) by (simp add: held_ok_def s'_def)
  show "holds s' k b t \<longleftrightarrow> holds s k b t \<and> fl_client k \<noteq> c"
    using owner_equal_client unfolding holds_def s'_def by fastforce
qed

lemma remove_waiting_client:
  assumes "wait_inv s"
  shows "wait_inv (s\<lparr>waiting_locks := filter (\<lambda>l. fl_client l \<noteq> c) (waiting_locks s),
    client_waiting_lock_counts := (client_waiting_lock_counts s)(c := None)\<rparr>)"
proof -
  have f: "filter (\<lambda>l. fl_client l = c') (filter (\<lambda>l. fl_client l \<noteq> c) ls) = (if c' = c then [] else filter (\<lambda>l. fl_client l = c') ls)" for c' ls
    by (induction ls) auto
  show ?thesis
    using assms by (simp add: wait_inv_def client_waits_def no_zero_def count_of_def sorted_filter f del: filter_filter)
qed

lemma remove_all_from_ok:
  fixes c :: u64 and p :: nat
  assumes "sys_ok N sys"
  defines "sys' \<equiv> snd (remove_all_from p c sys)"
  shows "sys_ok N sys'" "holds (fs_state sys' p) k b t \<longleftrightarrow> holds (fs_state sys p) k b t \<and> fl_client k \<noteq> c"
    "q \<noteq> p \<Longrightarrow> fs_state sys' q = fs_state sys q"
proof -
  let ?s = "fs_state sys p"
  have h: "held_ok N ?s" and w: "wait_inv ?s" using assms(1) by (simp_all add: sys_ok_def)
  define s1 where "s1 = (if client_held_lock_counts ?s c \<noteq> None
    then ?s\<lparr>held_locks := filter (\<lambda>x. fl_client (snd x) \<noteq> c) (held_locks ?s),
         client_held_lock_counts := (client_held_lock_counts ?s)(c := None)\<rparr> else ?s)"
  have "\<not> holds ?s k b t \<or> fl_client k \<noteq> c" if "client_held_lock_counts ?s c = None"
  proof -
    have "card (client_nodes ?s c) = 0" using h that by (auto simp: held_ok_def counts_exact_def count_of_def dest: spec [of _ c])
    then have "client_nodes ?s c = {}" by simp
    then show ?thesis using owner_equal_client unfolding holds_def client_nodes_def by fastforce
  qed
  then have s1: "held_ok N s1" "wait_inv s1" "holds s1 k b t \<longleftrightarrow> holds ?s k b t \<and> fl_client k \<noteq> c"
    using remove_held_client [OF h] h w by (auto simp: s1_def wait_inv_def client_waits_def)
  show q: "fs_state sys' q = fs_state sys q" if "q \<noteq> p" for q
    using that by (simp add: sys'_def remove_all_from_def Let_def)
  have "fs_state sys' p = s1 \<or> fs_state sys' p = s1\<lparr>waiting_locks := filter (\<lambda>l. fl_client l \<noteq> c) (waiting_locks s1),
      client_waiting_lock_counts := (client_waiting_lock_counts s1)(c := None)\<rparr>"
    by (simp add: sys'_def remove_all_from_def Let_def s1_def)
  then have p: "wait_inv (fs_state sys' p)" "same_held s1 (fs_state sys' p)"
    using s1(2) remove_waiting_client [OF s1(2)] by (auto simp: same_held_def)
  show "holds (fs_state sys' p) k b t \<longleftrightarrow> holds ?s k b t \<and> fl_client k \<noteq> c" using s1(3) same_held_inv(2) [OF p(2)] by simp
  have "sorted (map (\<lambda>q. lock_key (fst q)) (global_waiting_locks sys'))"
    using assms(1) remove_globals_sorted [of "\<lambda>q. lock_key (fst q)" sys] by (simp add: sys'_def remove_all_from_def Let_def sys_ok_def)
  then show "sys_ok N sys'" using sys_invI [OF assms(1) q] p s1(1) same_held_inv(1) [OF p(2)] by blast
qed

section \<open>The states that can be reached\<close>

inductive flock_step :: "flock_sys \<Rightarrow> flock_sys \<Rightarrow> bool" where
  step_add: "small n \<Longrightarrow> add_lock p n w r sys = Some (ret, dl, sys') \<Longrightarrow> flock_step sys sys'"
| step_remove: "small n \<Longrightarrow> remove_lock p n sys = Some sys' \<Longrightarrow> flock_step sys sys'"
| step_cancel: "flock_step sys (remove_waiting p n sys)"
| step_client: "flock_step sys (snd (remove_all_from p c sys))"

definition flock_start :: "flock_sys \<Rightarrow> bool" where
  "flock_start sys \<longleftrightarrow> (\<forall>p. \<exists>ty. fs_state sys p = ceph_lock_state ty) \<and> global_waiting_locks sys = []"

lemma sys_inv_add:
  assumes "sys_inv sys" "small n" "add_lock p n w r sys = Some (ret, dl, sys')"
  shows "sys_inv sys'"
proof (cases "conflict n (fs_state sys p)")
  case True
  then show ?thesis using add_lock_blocked [OF assms(1,2) True, of w r] assms(1,3) sys_inv_add_waiting [OF assms(1)] by (auto split: if_splits)
next
  case False
  obtain s' where "sys' = set_state p s' (remove_waiting p n sys)" "held_inv s'" "wait_inv s'"
    using add_lock_granted [OF assms(1,2) False, of w r] assms(3) by auto
  then show ?thesis using sys_inv_set_state sys_inv_remove_waiting assms(1) by blast
qed

lemma sys_inv_remove:
  assumes "sys_ok N sys" "fits N n" "remove_lock p n sys = Some sys'"
  shows "sys_ok N sys'"
  using remove_lock_ok [OF assms(1,2), of p] assms(3) sys_inv_set_state [OF assms(1)] by auto

interpretation fl: transition_system flock_start flock_step sys_inv
proof unfold_locales
  show "sys_inv sys" if "flock_start sys" for sys
  proof -
    have "held_inv (ceph_lock_state ty) \<and> wait_inv (ceph_lock_state ty)" for ty
      by (simp add: held_ok_def nodes_ok_def counts_exact_def client_nodes_def no_zero_def wait_inv_def client_waits_def ceph_lock_state_def count_of_def)
    then show ?thesis using that unfolding flock_start_def sys_ok_def by (metis list.map(1) sorted_simps(1))
  qed
  show "sys_inv sys'" if "flock_step sys sys'" "sys_inv sys" for sys sys'
    using that by (induction rule: flock_step.induct)
      (blast intro: sys_inv_add sys_inv_remove sys_inv_remove_waiting remove_all_from_ok(1))+
qed

section \<open>Properties\<close>

definition sample_flock :: flock_sys where
  "sample_flock = \<lparr>fs_state = \<lambda>p. ceph_lock_state CEPH_LOCK_FCNTL, global_waiting_locks = []\<rparr>"

definition sample_lock :: "u64 \<Rightarrow> u64 \<Rightarrow> u64 \<Rightarrow> u8 \<Rightarrow> ceph_filelock" where
  "sample_lock c s n t = \<lparr>fl_start = s, fl_length = n, fl_client = c, fl_owner = 1, fl_pid = 1, fl_type = t\<rparr>"

lemma sample_flock_inv: "flock_start sample_flock" "sys_inv sample_flock"
proof -
  show s: "flock_start sample_flock" by (auto simp: flock_start_def sample_flock_def)
  show "sys_inv sample_flock" using fl.start_inv [OF s] .
qed

lemma sample_small: "small (sample_lock 1 3 5 CEPH_LOCK_EXCL)"
  by (simp add: fits_def sample_lock_def)

lemma sample_granted:
  "\<exists>s'. add_lock 0 (sample_lock 1 3 5 CEPH_LOCK_EXCL) True False sample_flock
       = Some (True, False, set_state 0 s' (remove_waiting 0 (sample_lock 1 3 5 CEPH_LOCK_EXCL) sample_flock))
     \<and> (\<forall>b. 3 \<le> b \<and> b < 8 \<longrightarrow> holds s' (sample_lock 1 0 0 0) b CEPH_LOCK_EXCL)"
proof -
  let ?n = "sample_lock 1 3 5 CEPH_LOCK_EXCL"
  have "\<not> conflict ?n (fs_state sample_flock 0)" by (simp add: conflict_def sample_flock_def ceph_lock_state_def)
  moreover have "lo ?n = 3" "hi ?n = 8" "fl_type ?n = CEPH_LOCK_EXCL" "ceph_filelock_owner_equal (sample_lock 1 0 0 0) ?n"
    by (simp_all add: fits_def lo_def hi_def sample_lock_def ceph_filelock_owner_equal_def)
  ultimately show ?thesis
    using add_lock_granted [OF sample_flock_inv(2) sample_small, of 0 True False] unfolding holds_with_def by (metis (no_types, lifting))
qed

text \<open>
  C14: mutual exclusion. Whatever locks are requested, released and cancelled on any files in any order, as long as their ranges end within
  2 GiB or are open and start within 2 GiB: if somebody holds an exclusive lock on a byte, whoever holds any lock on that byte is the same owner and
  holds it exclusively. The number of locks kept for a client is exactly the number of its held locks, and clients without locks have no entry.
\<close>

theorem flock_exclusion:
  assumes "flock_start sys0" "flock_step\<^sup>*\<^sup>* sys0 sys"
  defines "s \<equiv> \<lambda>p. fs_state sys p"
  shows "(\<forall>p k k' b t. holds (s p) k b CEPH_LOCK_EXCL \<and> holds (s p) k' b t \<longrightarrow> ceph_filelock_owner_equal k k' \<and> t = CEPH_LOCK_EXCL)
    \<and> (\<forall>p c. let n = card {x \<in> set (held_locks (s p)). fl_client (snd x) = c}
          in client_held_lock_counts (s p) c = (if n = 0 then None else Some (int n)))"
proof -
  have inv: "held_inv (s p)" for p using fl.reach_inv [OF assms(1,2)] by (simp add: sys_ok_def s_def)
  have "ceph_filelock_owner_equal k k' \<and> t = CEPH_LOCK_EXCL"
    if h: "holds (s p) k b CEPH_LOCK_EXCL" "holds (s p) k' b t" for p k k' b t
  proof -
    obtain x where x: "x \<in> set (held_locks (s p))" "ceph_filelock_owner_equal (snd x) k" "fl_type (snd x) = CEPH_LOCK_EXCL"
        "lo (snd x) \<le> b" "b < hi (snd x)" using h(1) unfolding holds_def by blast
    obtain y where y: "y \<in> set (held_locks (s p))" "ceph_filelock_owner_equal (snd y) k'" "fl_type (snd y) = t"
        "lo (snd y) \<le> b" "b < hi (snd y)" using h(2) unfolding holds_def by blast
    have "overlaps (snd x) (snd y)" using x(4,5) y(4,5) by (auto simp: overlaps_def)
    then have "x = y" using held_inv_compatible [OF inv x(1) y(1)] x(3) by (auto simp: compatible_def)
    then show ?thesis using x(2,3) y(2,3) owner_equal_equiv(2,3) by blast
  qed
  moreover have "client_held_lock_counts (s p) c = (if card (client_nodes (s p) c) = 0 then None else Some (int (card (client_nodes (s p) c))))" for p c
  proof -
    have "count_of (client_held_lock_counts (s p)) c = int (card (client_nodes (s p) c))" "client_held_lock_counts (s p) c \<noteq> Some 0"
      using inv [of p] by (simp_all add: held_ok_def counts_exact_def no_zero_def)
    then show ?thesis by (cases "client_held_lock_counts (s p) c") (simp_all add: count_of_def)
  qed
  ultimately show ?thesis unfolding client_nodes_def Let_def by blast
qed

theorem flock_exclusion_witness:
  "\<exists>sys. add_lock 0 (sample_lock 1 3 5 CEPH_LOCK_EXCL) True False sample_flock = Some (True, False, sys)
     \<and> holds (fs_state sys 0) (sample_lock 1 0 0 0) 4 CEPH_LOCK_EXCL
     \<and> \<not> holds (fs_state sys 0) (sample_lock 2 0 0 0) 4 CEPH_LOCK_SHARED \<and> client_held_lock_counts (fs_state sys 0) 1 \<noteq> Some 0"
proof -
  obtain s' where s': "add_lock 0 (sample_lock 1 3 5 CEPH_LOCK_EXCL) True False sample_flock
        = Some (True, False, set_state 0 s' (remove_waiting 0 (sample_lock 1 3 5 CEPH_LOCK_EXCL) sample_flock))"
      "holds s' (sample_lock 1 0 0 0) 4 CEPH_LOCK_EXCL"
    using sample_granted by fastforce
  let ?sys = "set_state 0 s' (remove_waiting 0 (sample_lock 1 3 5 CEPH_LOCK_EXCL) sample_flock)"
  have "flock_step\<^sup>*\<^sup>* sample_flock ?sys" using step_add [OF sample_small s'(1)] by blast
  note x = flock_exclusion [OF sample_flock_inv(1) this]
  have h: "holds (fs_state ?sys 0) (sample_lock 1 0 0 0) 4 CEPH_LOCK_EXCL" using s'(2) by (simp add: set_state_def)
  have "\<not> holds (fs_state ?sys 0) (sample_lock 2 0 0 0) 4 CEPH_LOCK_SHARED"
  proof
    assume "holds (fs_state ?sys 0) (sample_lock 2 0 0 0) 4 CEPH_LOCK_SHARED"
    then have "CEPH_LOCK_SHARED = CEPH_LOCK_EXCL" using conjunct1 [OF x] h by blast
    then show False by (simp add: CEPH_LOCK_EXCL_def CEPH_LOCK_SHARED_def)
  qed
  moreover have "client_held_lock_counts (fs_state ?sys 0) 1 \<noteq> Some 0"
    using spec [OF spec [OF conjunct2 [OF x], of 0], of 1] unfolding Let_def by (simp split: if_split_asm del: card_eq_0_iff)
  ultimately show ?thesis using s'(1) h by blast
qed

text \<open>
  C15: setting a lock. In every state in which the held locks end within 2 GiB or are open, a request for a range that does so too completes, without an abort. It is granted exactly if nobody else holds a lock in the
  way; then the owner holds the range with the type asked for, and nothing else changes for any byte and owner, even though
  locks are cut, merged and coalesced. Otherwise no held lock changes, and if the request is to wait it does, unless a deadlock is reported.
\<close>

theorem add_lock_correct:
  assumes "sys_inv sys" "small n"
  shows "\<exists>ret dl sys'. add_lock p n w r sys = Some (ret, dl, sys') \<and> sys_inv sys' \<and> (ret \<longleftrightarrow> \<not> conflict n (fs_state sys p))
    \<and> (\<forall>k b t. holds (fs_state sys' p) k b t \<longleftrightarrow>
         (if ret \<and> ceph_filelock_owner_equal k n \<and> lo n \<le> b \<and> b < hi n then t = fl_type n else holds (fs_state sys p) k b t))
    \<and> (\<not> ret \<and> w \<and> \<not> r \<and> \<not> dl \<longrightarrow> is_waiting n (fs_state sys' p)) \<and> (\<forall>q. q \<noteq> p \<longrightarrow> fs_state sys' q = fs_state sys q)"
proof (cases "conflict n (fs_state sys p)")
  case True
  note a = add_lock_blocked [OF assms True, of w r]
  have w: "wait_inv (fs_state sys p)" using assms(1) by (simp add: sys_ok_def)
  note aw = add_waiting_ok [OF w, where fl = n]
  show ?thesis using a True sys_inv_add [OF assms a] aw(3,4) same_held_inv(2) [OF aw(2)] by auto
next
  case False
  have w: "wait_inv (fs_state sys p)" using assms(1) by (simp add: sys_ok_def)
  obtain s' where s': "add_lock p n w r sys = Some (True, False, set_state p s' (remove_waiting p n sys))"
      "\<forall>k b t. holds s' k b t \<longleftrightarrow> holds_with n (fs_state sys p) k b t"
    using add_lock_granted [OF assms False, of w r] by blast
  show ?thesis using s' False sys_inv_add [OF assms s'(1)] remove_waiting_ok(3) [OF w] by (auto simp: holds_with_def)
qed

theorem add_lock_correct_witness:
  "\<exists>ret dl sys'. add_lock 0 (sample_lock 1 3 5 CEPH_LOCK_EXCL) True False sample_flock = Some (ret, dl, sys')
     \<and> ret \<and> holds (fs_state sys' 0) (sample_lock 1 0 0 0) 7 CEPH_LOCK_EXCL"
proof -
  let ?n = "sample_lock 1 3 5 CEPH_LOCK_EXCL"
  have n: "small ?n" "lo ?n = 3" "hi ?n = 8" "fl_type ?n = CEPH_LOCK_EXCL" "ceph_filelock_owner_equal (sample_lock 1 0 0 0) ?n"
    by (simp_all add: fits_def lo_def hi_def sample_lock_def ceph_filelock_owner_equal_def)
  have "\<not> conflict ?n (fs_state sample_flock 0)" by (simp add: conflict_def sample_flock_def ceph_lock_state_def)
  then show ?thesis using add_lock_correct [OF sample_flock_inv(2) n(1), of 0 True False] n(2-5) by fastforce
qed



text \<open>
  C18: the request handler. In every state in which the held locks end within 2 GiB or are open, and for a request whose range does so too, it completes, its assertion that a waiting request is on the list never fails, a lock request that is
  answered with success holds its whole range afterwards, and one that is left to wait is on the list.
\<close>

theorem setlock_completes:
  fixes fcntl_p flock_p :: nat and rule :: int
  assumes "sys_inv sys" "small l"
  defines "p \<equiv> if rule = CEPH_LOCK_FLOCK \<or> rule = CEPH_LOCK_FLOCK_INTR then flock_p else fcntl_p"
  shows "\<exists>res sys'. handle_client_file_setlock fcntl_p flock_p rule l will_wait was_waiting sys = Some (res, sys') \<and> sys_inv sys'
    \<and> (res = Wait_flock \<longrightarrow> is_waiting l (fs_state sys' p))
    \<and> (\<forall>wake b. res = Respond 0 wake \<and> fl_type l \<noteq> CEPH_LOCK_UNLOCK \<and> lo l \<le> b \<and> b < hi l \<longrightarrow> holds (fs_state sys' p) l b (fl_type l))"
proof -
  let ?unlock = "\<lambda>i. setlock_unlock p i l sys" and ?lock = "setlock_lock p l will_wait was_waiting sys"
  define ok where "ok = (\<lambda>r. \<exists>res sys'. r = Some (res, sys') \<and> sys_inv sys' \<and> (res = Wait_flock \<longrightarrow> is_waiting l (fs_state sys' p))
    \<and> (\<forall>wake b. res = Respond 0 wake \<and> fl_type l \<noteq> CEPH_LOCK_UNLOCK \<and> lo l \<le> b \<and> b < hi l \<longrightarrow> holds (fs_state sys' p) l b (fl_type l)))"
  have unlock: "ok (?unlock i)" if "fl_type l = CEPH_LOCK_UNLOCK" for i
  proof -
    obtain s' where s': "remove_lock p l sys = Some (set_state p s' sys)" using remove_lock_ok [OF assms(1,2), of p] by blast
    then show ?thesis
      using that assms(1) sys_inv_remove_waiting [OF assms(1)] sys_inv_remove [OF assms(1,2) s'] by (simp add: setlock_unlock_def ok_def)
  qed
  have lock: "ok ?lock"
  proof (cases "was_waiting \<and> \<not> is_waiting l (fs_state sys p)")
    case True
    then show ?thesis using assms(1) by (simp add: setlock_lock_def EINTR_def ok_def)
  next
    case ready: False
    show ?thesis
    proof (cases "conflict l (fs_state sys p)")
      case True
      have w: "wait_inv (fs_state sys p)" using assms(1) by (simp add: sys_ok_def)
      show ?thesis
        using add_lock_blocked [OF assms(1,2) True, of will_wait was_waiting] ready add_waiting_ok(4) [OF w] assms(1) sys_inv_add_waiting [OF assms(1)]
        by (auto simp: setlock_lock_def EDEADLK_def EWOULDBLOCK_def ok_def)
    next
      case False
      obtain s' where s': "add_lock p l will_wait was_waiting sys = Some (True, False, set_state p s' (remove_waiting p l sys))"
          "\<forall>k b t. holds s' k b t \<longleftrightarrow> holds_with l (fs_state sys p) k b t"
        using add_lock_granted [OF assms(1,2) False, of will_wait was_waiting] by blast
      then show ?thesis
        using ready sys_inv_add [OF assms(1,2) s'(1)] by (auto simp: setlock_lock_def holds_with_def owner_equal_equiv(1) EINTR_def ok_def)
    qed
  qed
  have "ok (Some (Respond (- EOPNOTSUPP) False, sys))" using assms(1) by (simp add: EOPNOTSUPP_def ok_def)
  then have "ok (handle_client_file_setlock fcntl_p flock_p rule l will_wait was_waiting sys)"
    using unlock lock by (auto simp: handle_client_file_setlock_def p_def Let_def split: if_splits)
  then show ?thesis unfolding ok_def .
qed

theorem setlock_completes_witness:
  "\<exists>res sys'. handle_client_file_setlock 0 1 CEPH_LOCK_FCNTL (sample_lock 1 3 5 CEPH_LOCK_EXCL) True False sample_flock = Some (res, sys')
     \<and> (res = Wait_flock \<longrightarrow> is_waiting (sample_lock 1 3 5 CEPH_LOCK_EXCL) (fs_state sys' 0))"
proof -
  have "small (sample_lock 1 3 5 CEPH_LOCK_EXCL)" by (simp add: fits_def sample_lock_def)
  from setlock_completes [OF sample_flock_inv(2) this, of 0 1 CEPH_LOCK_FCNTL True False] show ?thesis
    by (fastforce simp: CEPH_LOCK_FCNTL_def CEPH_LOCK_FLOCK_def CEPH_LOCK_FLOCK_INTR_def)
qed

end
