(* ===== verification/Flock_Deadlock.thy ===== *)
theory Flock_Deadlock
  imports Flock_Sys
begin

text \<open>
  The search for deadlocks: what the sets and multimaps it walks through contain, and that it finds exactly the short cycles of
  owners who wait for each other.
\<close>

section \<open>The waiting locks of an owner\<close>

lemma lock_key_mono: "lock_key a \<le> lock_key b \<Longrightarrow> owner_key a \<le> owner_key b"
  by (auto simp: lock_key_def)

lemma waiting_of_filter:
  assumes "sorted (map (\<lambda>q. lock_key (fst q)) g)" "fl_start o' = 0" "fl_length o' = 0" "fl_type o' = 0"
  shows "takeWhile (\<lambda>q. ceph_filelock_owner_equal (fst q) o') (dropWhile (\<lambda>q. ceph_filelock_compare (fst q) o' < 0) g)
    = filter (\<lambda>q. ceph_filelock_owner_equal (fst q) o') g"
  using assms(1)
proof (induction g)
  case (Cons x g)
  have min: "owner_key a = owner_key o' \<Longrightarrow> \<not> lock_key a < lock_key o'" for a using assms(2-4) by (auto simp: lock_key_def)
  consider "lock_key (fst x) < lock_key o'" | "\<not> lock_key (fst x) < lock_key o'" "owner_key (fst x) = owner_key o'"
    | "\<not> lock_key (fst x) < lock_key o'" "owner_key (fst x) \<noteq> owner_key o'" by blast
  then show ?case
  proof cases
    case 1
    then show ?thesis using Cons min [of "fst x"] by (auto simp: compare_less owner_equal_key)
  next
    case 2
    have "dropWhile (\<lambda>q. ceph_filelock_compare (fst q) o' < 0) g = g"
      using Cons.prems 2(1) by (cases g) (force simp: compare_less)+
    then show ?thesis using Cons 2 by (simp add: compare_less owner_equal_key)
  next
    case 3
    then have "owner_key o' < owner_key (fst x)" using lock_key_mono [of o' "fst x"] by (auto simp: not_less)
    moreover have "owner_key (fst x) \<le> owner_key (fst y)" if "y \<in> set g" for y
      using Cons.prems that lock_key_mono [of "fst x" "fst y"] by auto
    ultimately have "filter (\<lambda>q. ceph_filelock_owner_equal (fst q) o') g = []"
      by (fastforce simp: filter_empty_conv owner_equal_key)
    then show ?thesis using 3 by (simp add: compare_less owner_equal_key)
  qed
qed simp

lemma owners_insert_keys: "owner_key ` set (owners_insert x ys) = insert (owner_key x) (owner_key ` set ys)"
  by (induction x ys rule: owners_insert.induct) (auto simp: compare_less lock_key_def not_less)

text \<open>The owners without a range.\<close>

definition bare :: "ceph_filelock \<Rightarrow> ceph_filelock" where
  "bare l = l\<lparr>fl_start := 0, fl_length := 0, fl_type := 0\<rparr>"

lemma bare_simps [simp]: "owner_key (bare l) = owner_key l" "fl_start (bare l) = 0" "fl_length (bare l) = 0" "fl_type (bare l) = 0"
  by (simp_all add: bare_def owner_key_def)

lemma owners_of:
  defines "os \<equiv> \<lambda>ls. fold (\<lambda>l. owners_insert (bare l)) ls []"
  shows "owner_key ` set (os ls) = owner_key ` set ls" "\<And>x. x \<in> set (os ls) \<Longrightarrow> fl_start x = 0 \<and> fl_length x = 0 \<and> fl_type x = 0"
proof -
  have "owner_key ` set (fold (\<lambda>l. owners_insert (bare l)) ls ys) = owner_key ` set ls \<union> owner_key ` set ys" for ys
    by (induction ls arbitrary: ys) (auto simp: owners_insert_keys)
  then show "owner_key ` set (os ls) = owner_key ` set ls" by (simp add: os_def)
  have ins: "set (owners_insert x ys) \<subseteq> insert x (set ys)" for x ys by (induction x ys rule: owners_insert.induct) auto
  define zero where "zero = (\<lambda>x :: ceph_filelock. fl_start x = 0 \<and> fl_length x = 0 \<and> fl_type x = 0)"
  have z: "zero (bare l)" for l by (simp add: zero_def)
  have all: "\<forall>x\<in>set ys. zero x \<Longrightarrow> \<forall>x\<in>set (fold (\<lambda>l. owners_insert (bare l)) ls ys). zero x" for ys
  proof (induction ls arbitrary: ys)
    case (Cons l ls)
    have "\<forall>x\<in>set (owners_insert (bare l) ys). zero x" using ins [of "bare l" ys] Cons.prems z by blast
    then show ?case using Cons.IH by simp
  qed simp
  have "zero x" if "x \<in> set (os ls)" for x using all [of "[]"] that unfolding os_def by simp
  then show "\<And>x. x \<in> set (os ls) \<Longrightarrow> fl_start x = 0 \<and> fl_length x = 0 \<and> fl_type x = 0" unfolding zero_def .
qed

section \<open>Chains of waiting owners\<close>

text \<open>
  A request waits, on one file, for the owner of a lock in its way, who waits with another request on some file.
\<close>

definition in_the_way :: "flock_sys \<Rightarrow> ceph_filelock \<times> nat \<Rightarrow> ceph_filelock list" where
  "in_the_way sys = (\<lambda>(fl, p). conflicting fl (others_overlapping fl (fs_state sys p)))"

definition waits_on :: "flock_sys \<Rightarrow> ceph_filelock \<times> nat \<Rightarrow> ceph_filelock \<times> nat \<Rightarrow> bool" where
  "waits_on sys x y \<longleftrightarrow> (\<exists>l\<in>set (in_the_way sys x). ceph_filelock_owner_equal (fst y) l) \<and> y \<in> set (global_waiting_locks sys)"

definition blocked_by_owner :: "flock_sys \<Rightarrow> ceph_filelock \<Rightarrow> ceph_filelock \<times> nat \<Rightarrow> bool" where
  "blocked_by_owner sys f x \<longleftrightarrow> (\<exists>l\<in>set (in_the_way sys x). ceph_filelock_owner_equal f l)"

lemma next_waiters:
  assumes "sorted (map (\<lambda>q. lock_key (fst q)) (global_waiting_locks sys))"
  shows "list_ex (\<lambda>owner. list_ex P (waiting_of sys owner)) (fold (\<lambda>l. owners_insert (bare l)) (in_the_way sys x) [])
    \<longleftrightarrow> (\<exists>y. waits_on sys x y \<and> P y)"
proof -
  let ?os = "fold (\<lambda>l. owners_insert (bare l)) (in_the_way sys x) []"
  have "y \<in> set (waiting_of sys owner) \<longleftrightarrow> y \<in> set (global_waiting_locks sys) \<and> owner_key (fst y) = owner_key owner"
    if "owner \<in> set ?os" for owner y
    using waiting_of_filter [OF assms] owners_of(2) [OF that] by (simp add: waiting_of_def owner_equal_key)
  then have "list_ex (\<lambda>owner. list_ex P (waiting_of sys owner)) ?os
      \<longleftrightarrow> (\<exists>y\<in>set (global_waiting_locks sys). owner_key (fst y) \<in> owner_key ` set ?os \<and> P y)"
    unfolding list_ex_iff image_iff by blast
  also have "\<dots> \<longleftrightarrow> (\<exists>y. waits_on sys x y \<and> P y)"
    unfolding owners_of(1) waits_on_def owner_equal_key by blast
  finally show ?thesis .
qed

lemma deadlock_search_Suc:
  assumes "sorted (map (\<lambda>q. lock_key (fst q)) (global_waiting_locks sys))"
  shows "deadlock_search (Suc n) sys fl (others_overlapping fl (fs_state sys p)) fo
    \<longleftrightarrow> (case fo of None \<Rightarrow> False | Some f \<Rightarrow> blocked_by_owner sys f (fl, p))
      \<or> (\<exists>q p'. waits_on sys (fl, p) (q, p')
          \<and> deadlock_search n sys q (others_overlapping q (fs_state sys p')) (Some (case fo of None \<Rightarrow> fl | Some f \<Rightarrow> f)))"
proof -
  let ?f = "case fo of None \<Rightarrow> fl | Some f \<Rightarrow> f"
  let ?S = "\<lambda>(q, p'). deadlock_search n sys q (others_overlapping q (fs_state sys p')) (Some ?f)"
  have "\<not> deadlock_search n sys q [] (Some f)" for q f by (cases n) (simp_all add: conflicting_def)
  then have s: "(\<lambda>(q, p'). let locks' = others_overlapping q (fs_state sys p') in locks' \<noteq> [] \<and> deadlock_search n sys q locks' (Some ?f)) = ?S"
    by (auto simp: Let_def fun_eq_iff)
  have "deadlock_search (Suc n) sys fl (others_overlapping fl (fs_state sys p)) fo
      \<longleftrightarrow> (case fo of None \<Rightarrow> False | Some f \<Rightarrow> blocked_by_owner sys f (fl, p))
        \<or> list_ex (\<lambda>owner. list_ex ?S (waiting_of sys owner)) (fold (\<lambda>l. owners_insert (bare l)) (in_the_way sys (fl, p)) [])"
    unfolding deadlock_search.simps(2) Let_def [of "fold _ _ _"] Let_def [of ?f] s bare_def [symmetric]
    by (simp add: in_the_way_def blocked_by_owner_def list_ex_iff [of "ceph_filelock_owner_equal _"] split: option.split)
  then show ?thesis unfolding next_waiters [OF assms] by simp
qed

lemma relpowp_Suc_iff: "(R ^^ Suc k) x z \<longleftrightarrow> (\<exists>y. R x y \<and> (R ^^ k) y z)"
  by (metis relpowp_Suc_D2 relpowp_Suc_I2)

lemma deadlock_search_iff:
  assumes "sorted (map (\<lambda>q. lock_key (fst q)) (global_waiting_locks sys))"
  shows "deadlock_search n sys fl (others_overlapping fl (fs_state sys p)) (Some f)
    \<longleftrightarrow> (\<exists>k\<le>n. \<exists>y. (waits_on sys ^^ k) (fl, p) y \<and> blocked_by_owner sys f y)"
proof (induction n arbitrary: fl p)
  case 0
  show ?case by (auto simp: blocked_by_owner_def in_the_way_def list_ex_iff)
next
  case (Suc n)
  have "(\<exists>k\<le>Suc n. P k) \<longleftrightarrow> P 0 \<or> (\<exists>k\<le>n. P (Suc k))" for P
    by (metis Suc_le_mono le0 not0_implies_Suc)
  then show ?case
    unfolding deadlock_search_Suc [OF assms] option.case Suc.IH by (simp only: relpowp_Suc_iff relpowp.simps(1) split_paired_Ex) blast
qed

section \<open>Properties\<close>

text \<open>
  C16: the search for deadlocks. Before a request for an fcntl lock is put to wait, in a state in which no held range wraps around, \<^verbatim>\<open>is_deadlock\<close> answers yes exactly if the request would close a cycle of
  at most six owners: the request waits for the owner of a lock, who waits for another, and so on, one to five times, and the last one waits
  for a lock of the owner of the request. Cycles that are longer are not found.
\<close>

theorem is_deadlock_cycles:
  assumes "sys_ok N sys" "ls_type (fs_state sys p) = CEPH_LOCK_FCNTL"
  shows "is_deadlock p fl (others_overlapping fl (fs_state sys p)) sys
    \<longleftrightarrow> (\<exists>k\<in>{1..5}. \<exists>y. (waits_on sys ^^ k) (fl, p) y \<and> blocked_by_owner sys fl y)"
proof -
  have s: "sorted (map (\<lambda>q. lock_key (fst q)) (global_waiting_locks sys))" using assms(1) by (simp add: sys_ok_def)
  have m: "MAX_DEADLK_DEPTH = Suc 4" by (simp add: MAX_DEADLK_DEPTH_def)
  have "is_deadlock p fl (others_overlapping fl (fs_state sys p)) sys
      \<longleftrightarrow> (\<exists>q p'. waits_on sys (fl, p) (q, p') \<and> (\<exists>k\<le>4. \<exists>y. (waits_on sys ^^ k) (q, p') y \<and> blocked_by_owner sys fl y))"
    using assms(2) unfolding is_deadlock_def m deadlock_search_Suc [OF s] option.case deadlock_search_iff [OF s] by simp
  also have "\<dots> \<longleftrightarrow> (\<exists>k\<le>4. \<exists>y. (waits_on sys ^^ Suc k) (fl, p) y \<and> blocked_by_owner sys fl y)"
    unfolding relpowp_Suc_iff split_paired_Ex by blast
  also have "\<dots> \<longleftrightarrow> (\<exists>k\<in>Suc ` {..4}. \<exists>y. (waits_on sys ^^ k) (fl, p) y \<and> blocked_by_owner sys fl y)" by blast
  also have "Suc ` {..4} = {1..5}" by (auto simp: image_iff Bex_def) presburger
  finally show ?thesis .
qed

text \<open>Client 1 holds file 0 and waits for file 1; client 2 holds file 1 and asks for file 0.\<close>

definition sample_holder :: "ceph_filelock \<Rightarrow> ceph_filelock list \<Rightarrow> lock_state" where
  "sample_holder h ws = \<lparr>ls_type = CEPH_LOCK_FCNTL, held_locks = [(0, h)], ls_next = 1, waiting_locks = ws,
     client_held_lock_counts = [fl_client h \<mapsto> 1], client_waiting_lock_counts = map_of (map (\<lambda>l. (fl_client l, 1)) ws)\<rparr>"

definition sample_deadlock :: flock_sys where
  "sample_deadlock =
     (let a = sample_lock 1 0 10 CEPH_LOCK_EXCL; b = sample_lock 2 0 10 CEPH_LOCK_EXCL
      in \<lparr>fs_state = (fs_state sample_flock)(0 := sample_holder a [], 1 := sample_holder b [a]), global_waiting_locks = [(a, 1)]\<rparr>)"

lemma sample_deadlock_inv: "sys_inv sample_deadlock"
proof -
  have h: "held_inv (sample_holder h ws)" if "small h" for h ws
  proof -
    have "client_nodes (sample_holder h ws) c = (if c = fl_client h then {(0, h)} else {})" for c
      by (auto simp: client_nodes_def sample_holder_def)
    then have "counts_exact (sample_holder h ws)" by (simp add: counts_exact_def count_of_def sample_holder_def)
    then show ?thesis using that by (simp add: held_ok_def nodes_ok_def no_zero_def sample_holder_def)
  qed
  have w: "wait_inv (sample_holder h [])" "wait_inv (sample_holder h [l])" for h l
    by (auto simp: wait_inv_def no_zero_def client_waits_def count_of_def sample_holder_def)
  have "small (sample_lock 1 0 10 CEPH_LOCK_EXCL)" "small (sample_lock 2 0 10 CEPH_LOCK_EXCL)" by (simp_all add: fits_def sample_lock_def)
  then show ?thesis using sample_flock_inv(2) h w by (simp add: sys_ok_def sample_deadlock_def Let_def)
qed

theorem is_deadlock_cycles_witness:
  "\<exists>k\<in>{1..5}. \<exists>y. (waits_on sample_deadlock ^^ k) (sample_lock 2 0 10 CEPH_LOCK_EXCL, 0) y
     \<and> blocked_by_owner sample_deadlock (sample_lock 2 0 10 CEPH_LOCK_EXCL) y"
proof -
  let ?b = "sample_lock 2 0 10 CEPH_LOCK_EXCL"
  have t: "ls_type (fs_state sample_deadlock 0) = CEPH_LOCK_FCNTL" by (simp add: sample_deadlock_def sample_holder_def Let_def)
  have "is_deadlock 0 ?b (others_overlapping ?b (fs_state sample_deadlock 0)) sample_deadlock" by code_simp
  then show ?thesis using is_deadlock_cycles [OF sample_deadlock_inv t, of ?b] by blast
qed

end
