(* ===== verification/Flock_Wide.thy ===== *)
theory Flock_Wide
  imports Flock_Sys
begin

text \<open>
  File locks that end between 2 and 4 GiB. The end of two merged locks goes through an \<^verbatim>\<open>int\<close> in \<^verbatim>\<open>adjust_locks\<close>; here is what
  this does to the locks, and why the theorems on setting locks have their bound.
\<close>

unbundle bit_operations_syntax

section \<open>The end of merged locks\<close>

lemma sign_extend_31:
  fixes w :: u64
  assumes "2 ^ 31 \<le> unat w" "unat w < 2 ^ 32"
  shows "signed_take_bit 31 w = w - 2 ^ 32"
proof -
  have d: "unat w div 2 ^ 31 = 1" using assms by (intro div_nat_eqI) auto
  then have "bit (unat w) 31" by (simp add: bit_iff_odd)
  then have "bit w 31" by (simp add: bit_unsigned_iff)
  moreover have "take_bit 31 w AND NOT (mask 31) = 0" by (simp add: take_bit_eq_mask bit_eq_iff bit_simps)
  ultimately have "signed_take_bit 31 w = take_bit 31 w + NOT (mask 31)"
    by (simp add: signed_take_bit_eq_if_negative disjunctive_add_eq_or)
  moreover have "take_bit 31 w = w - 2 ^ 31"
  proof -
    have "unat w mod 2 ^ 31 = unat w - 2 ^ 31" using d by (metis minus_div_mult_eq_mod mult_1)
    moreover have "unat (w - 2 ^ 31) = unat w - 2 ^ 31" using assms(1) by (simp add: unat_sub word_le_nat_alt)
    ultimately show ?thesis by (simp add: word_unat_eq_iff take_bit_eq_mod unat_mod_distrib)
  qed
  ultimately show ?thesis by (simp flip: minus_exp_eq_not_mask)
qed

text \<open>What a lock becomes that is merged with an equal one.\<close>

definition grown :: "ceph_filelock \<Rightarrow> ceph_filelock" where
  "grown l = l\<lparr>fl_length := signed_take_bit 31 (fl_start l + fl_length l - 1) - fl_start l + 1\<rparr>"

lemma grown_simps [simp]: "fl_start (grown l) = fl_start l" "fl_client (grown l) = fl_client l" "fl_type (grown l) = fl_type l"
  "ceph_filelock_owner_equal (grown l) k \<longleftrightarrow> ceph_filelock_owner_equal l k"
  by (simp_all add: grown_def ceph_filelock_owner_equal_def)

lemma grown_range:
  assumes "fl_length l \<noteq> 0" "2 ^ 31 < hi l" "hi l \<le> 2 ^ 32"
  shows "lo (grown l) = lo l" "hi (grown l) = hi l + (2 ^ 64 - 2 ^ 32)"
proof -
  have f: "fits (2 ^ 32) l" using assms(1,3) by (simp add: fits_def hi_def)
  let ?e = "fl_start l + fl_length l - 1"
  have "unat ?e = hi l - 1" by (rule unat_last [OF f assms(1)])
  then have "signed_take_bit 31 ?e = ?e - 2 ^ 32" using assms(2,3) by (intro sign_extend_31) simp_all
  then have g: "fl_length (grown l) = fl_length l - 2 ^ 32" by (simp add: grown_def)
  show "lo (grown l) = lo l" by (simp add: lo_def)
  have u: "unat (fl_start l) + unat (fl_length l) \<le> 2 ^ 32" using f by (simp add: fits_def)
  show "hi (grown l) = hi l + (2 ^ 64 - 2 ^ 32)"
  proof (cases "fl_length l = 2 ^ 32")
    case True
    then show ?thesis using u assms(1) by (simp add: hi_def g)
  next
    case False
    then have "unat (fl_length l) \<noteq> 2 ^ 32" by (auto simp: word_unat_eq_iff)
    then have "unat (fl_length l) < 2 ^ 32" using u by linarith
    then have "unat (fl_length l - 2 ^ 32) = unat (fl_length l) + (2 ^ 64 - 2 ^ 32)" by (simp add: unat_sub_if_size word_size)
    then show ?thesis using False assms(1) by (simp add: hi_def g)
  qed
qed

section \<open>Setting a lock twice\<close>

lemma unat_max: "unat (- 1 :: u64) = 2 ^ 64 - 1"
  by (simp add: unsigned_minus_1_eq_mask mask_eq_exp_minus_1)

lemma remove_waiting_none: "waiting_locks (fs_state sys p) = [] \<Longrightarrow> remove_waiting p fl sys = sys"
  by (simp add: remove_waiting_def)

lemma add_lock_beside:
  assumes "held_locks (fs_state sys p) = [] \<or> (\<exists>i l. held_locks (fs_state sys p) = [(i, l)] \<and> \<not> ceph_filelock_owner_equal l k
      \<and> fits (- 1) l \<and> fits (- 1) k \<and> \<not> overlaps l k)"
    and "waiting_locks (fs_state sys p) = []"
  shows "add_lock p k w r sys = Some (True, False, set_state p (insert_held k (fs_state sys p)) sys)"
proof -
  have "get_overlapping_locks k True (fs_state sys p) = ([], [])"
    using assms(1) share_space_iff [of "- 1" _ k]
    by (auto simp: get_overlapping_locks_def get_last_before_def owner_equal_neighbor Let_def)
  then show ?thesis using assms(2) by (simp add: add_lock_def split_by_owner_def adjust_locks_def remove_waiting_none)
qed

lemma add_lock_again:
  assumes "held_locks (fs_state sys p) = [(i, l), (j, k)]" "i \<noteq> j" "waiting_locks (fs_state sys p) = []"
    and "\<not> ceph_filelock_owner_equal l k" "fits (- 1) l" "fits (- 1) k" "hi l \<le> lo k" "fl_length l \<noteq> 0"
  shows "add_lock p l w r sys = Some (True, False,
    set_state p (insert_held (grown l) (drop_zero_held (fl_client l) (erase_held i (fl_client l) (fs_state sys p)))) sys)"
proof -
  have o: "overlaps l l" "\<not> overlaps k l" using assms(7) lo_less_hi [of l] by (auto simp: overlaps_def)
  have sh: "share_space l l" "\<not> share_space k l" using share_space_iff [of "- 1"] o assms(5,6) by blast+
  have own: "\<not> ceph_filelock_owner_equal k l" "ceph_filelock_owner_equal l l" using assms(4) owner_equal_equiv by blast+
  have st: "\<not> fl_start k < fl_start l" using assms(7) lo_less_hi [of l] by (simp add: lo_def word_less_nat_alt)
  have "get_overlapping_locks l True (fs_state sys p) = ([(i, l)], [])"
    using sh own st by (auto simp: get_overlapping_locks_def get_last_before_def assms(1) owner_equal_neighbor Let_def)
  moreover have "adjust_locks [i] l [] (fs_state sys p)
      = Some (grown l, drop_zero_held (fl_client l) (erase_held i (fl_client l) (fs_state sys p)))"
    using assms(2,8) by (simp add: adjust_locks_def adjust_old_def assms(1) grown_def Let_def)
  ultimately show ?thesis using own(2) assms(3) by (simp add: add_lock_def split_by_owner_def remove_waiting_none)
qed

text \<open>
  C37: the end of two merged locks goes through an \<^verbatim>\<open>int\<close>, and mutual exclusion is lost. Let an owner lock a range exclusively that ends after 2 GiB and not
  after 4 GiB, let another owner lock a range behind it exclusively, and let the first owner lock its range again. All three
  requests are granted, and then both hold all bytes of the second range exclusively, up to 4 GiB before the end of the 64-bit range.
\<close>

theorem flock_merge_truncates:
  assumes "fs_state sys p = ceph_lock_state ty" "fl_type l = CEPH_LOCK_EXCL" "fl_type k = CEPH_LOCK_EXCL"
    and "fl_length l \<noteq> 0" "2 ^ 31 < hi l" "hi l \<le> 2 ^ 32" "hi l \<le> lo k" "fits (- 1) k" "\<not> ceph_filelock_owner_equal l k"
  shows "\<exists>sys1 sys2 sys3. add_lock p l w r sys = Some (True, False, sys1) \<and> add_lock p k w r sys1 = Some (True, False, sys2)
    \<and> add_lock p l w r sys2 = Some (True, False, sys3)
    \<and> (\<forall>b. lo k \<le> b \<and> b < hi k \<and> b < 2 ^ 64 - 2 ^ 32 \<longrightarrow>
         holds (fs_state sys3 p) l b CEPH_LOCK_EXCL \<and> holds (fs_state sys3 p) k b CEPH_LOCK_EXCL)"
proof -
  let ?s0 = "ceph_lock_state ty"
  let ?s1 = "insert_held l ?s0"
  let ?s2 = "insert_held k ?s1"
  let ?s3 = "insert_held (grown l) (drop_zero_held (fl_client l) (erase_held 0 (fl_client l) ?s2))"
  let ?sys1 = "set_state p ?s1 sys"
  let ?sys2 = "set_state p ?s2 ?sys1"
  have f: "fits (- 1) l" using assms(4,6) by (simp add: fits_def hi_def unat_max)
  have n: "\<not> overlaps l k" using assms(7) by (simp add: overlaps_def)
  have st: "fl_start l < fl_start k" using assms(7) lo_less_hi [of l] by (simp add: lo_def word_less_nat_alt)
  have s1: "held_locks ?s1 = [(0, l)]" "waiting_locks ?s1 = []" by (simp_all add: insert_held_def ceph_lock_state_def)
  have s2: "held_locks ?s2 = [(0, l), (1, k)]" "waiting_locks ?s2 = []"
    using st by (auto simp: insert_held_def ceph_lock_state_def)
  have s3: "set (held_locks ?s3) = {(2, grown l), (1, k)}" by (simp add: s2 drop_zero_held_def erase_held_def) (simp add: insert_held_def ceph_lock_state_def numeral_2_eq_2)
  have "add_lock p l w r sys = Some (True, False, ?sys1)"
    using add_lock_beside [of sys p l w r] by (simp add: assms(1) ceph_lock_state_def)
  moreover have "add_lock p k w r ?sys1 = Some (True, False, ?sys2)"
    using add_lock_beside [of ?sys1 p k w r] s1 f n assms(8,9) by simp
  moreover have "add_lock p l w r ?sys2 = Some (True, False, set_state p ?s3 ?sys2)"
    using add_lock_again [of ?sys2 p 0 l 1 k w r] s2 f assms(4,7-9) by simp
  moreover have "holds ?s3 l b CEPH_LOCK_EXCL \<and> holds ?s3 k b CEPH_LOCK_EXCL" if "lo k \<le> b" "b < hi k" "b < 2 ^ 64 - 2 ^ 32" for b
    using that grown_range [OF assms(4-6)] assms(2,3,7) lo_less_hi [of l] owner_equal_equiv(1) [of l] owner_equal_equiv(1) [of k]
    unfolding holds_def s3 by auto
  ultimately show ?thesis by (intro exI conjI allI impI) (assumption | simp)+
qed

theorem flock_merge_truncates_witness:
  "\<exists>sys1 sys2 sys3. add_lock 0 (sample_lock 1 0 0xC0000000 CEPH_LOCK_EXCL) False False sample_flock = Some (True, False, sys1)
     \<and> add_lock 0 (sample_lock 2 0x10000000000 5 CEPH_LOCK_EXCL) False False sys1 = Some (True, False, sys2)
     \<and> add_lock 0 (sample_lock 1 0 0xC0000000 CEPH_LOCK_EXCL) False False sys2 = Some (True, False, sys3)
     \<and> holds (fs_state sys3 0) (sample_lock 1 0 0xC0000000 CEPH_LOCK_EXCL) (2 ^ 40) CEPH_LOCK_EXCL
     \<and> holds (fs_state sys3 0) (sample_lock 2 0x10000000000 5 CEPH_LOCK_EXCL) (2 ^ 40) CEPH_LOCK_EXCL"
proof -
  let ?l = "sample_lock 1 0 0xC0000000 CEPH_LOCK_EXCL" and ?k = "sample_lock 2 0x10000000000 5 CEPH_LOCK_EXCL"
  have r: "fl_type ?l = CEPH_LOCK_EXCL" "fl_type ?k = CEPH_LOCK_EXCL" "fl_length ?l \<noteq> 0" "2 ^ 31 < hi ?l" "hi ?l \<le> 2 ^ 32"
      "hi ?l \<le> lo ?k" "fits (- 1) ?k" "\<not> ceph_filelock_owner_equal ?l ?k"
    by (simp_all add: sample_lock_def hi_def lo_def fits_def unat_max ceph_filelock_owner_equal_def)
  have b: "lo ?k \<le> 2 ^ 40" "2 ^ 40 < hi ?k" by (simp_all add: sample_lock_def hi_def lo_def)
  have "fs_state sample_flock 0 = ceph_lock_state CEPH_LOCK_FCNTL" by (simp add: sample_flock_def)
  from flock_merge_truncates [OF this r, of False False] b show ?thesis by fastforce
qed

end
