(* ===== verification/Spec2Isabelle.thy ===== *)
theory Spec2Isabelle
  imports Balancer_Loop Balancer_Hit Ino_Table Flock_Deadlock Flock_Wide
begin

text \<open>
  \<^bold>\<open>The program.\<close> The repository is a Ceph metadata server (MDS) with Lunule, a load balancer for clusters of such
  servers. A cluster has ranks 0, 1, 2 and so on; each rank is responsible for parts of the directory tree, which
  are subtrees of directory fragments. The balancer (\<^verbatim>\<open>src/mds/MDBalancer.cc\<close>) measures how hot each fragment is,
  exchanges the loads of the ranks, and decides which fragments to export to which rank. Around it the development covers
  the data structures the decisions and the servers rest on: decaying counters, hit histories, request traces, directory
  fragments and fragment trees, interval sets and the table of free inode numbers. A separate part of the server, the
  advisory locks that clients take on ranges of files (\<^verbatim>\<open>src/mds/flock.cc\<close>), is covered as a whole.

  \<^bold>\<open>How the parts interact.\<close> Requests hit the counters of inodes and directories (\<^verbatim>\<open>hit_inode\<close>, \<^verbatim>\<open>hit_dir\<close>), which may queue a
  fragment to be split or merged; the fragment tree of a directory and the hash of a name tell which fragment a request goes to. \<^verbatim>\<open>tick\<close> samples the load and on rank 0
  starts a round: \<^verbatim>\<open>send_heartbeat\<close> raises the epoch, the other ranks answer with their loads, and either the old balancer
  (\<^verbatim>\<open>prep_rebalance\<close>, \<^verbatim>\<open>try_rebalance\<close>) or, if \<^verbatim>\<open>mds_bal_ifenable\<close> is set, the imbalance-factor balancer (\<^verbatim>\<open>handle_ifbeat\<close>,
  \<^verbatim>\<open>simple_determine_rebalance\<close>) chooses the exports. Both walk down the directory fragments with \<^verbatim>\<open>find_exports\<close>. When a
  subtree has moved, \<^verbatim>\<open>subtract_export\<close> and \<^verbatim>\<open>add_import\<close> move its load.

  \<^bold>\<open>Conventions.\<close> A failed \<^verbatim>\<open>assert\<close>, an access out of range and, where a definition is a partial function, a loop that does
  not end are the value \<open>None\<close>. A \<^verbatim>\<open>std::map\<close> is the list of its entries in key order, a \<^verbatim>\<open>std::multimap\<close> the same with equal
  keys. A \<^verbatim>\<open>double\<close> is a real number, without rounding, infinities and NaN; the definitions spell out the branch that a division by
  zero takes where the code branches on the result, and \<^const>\<open>if_decide\<close> says what is different for a rate of zero. The load of a subtree
  is a value of the view the balancer has of it: the epochs that \<^verbatim>\<open>get_load\<close> refreshes on the way are in \<^verbatim>\<open>Hotness\<close>. The words of \<^verbatim>\<open>ceph_frag.h\<close> are 32-bit words and wrap around. Inode numbers
  and interval sets use natural numbers; the code's 64-bit numbers stay far below the bound. Effects on the rest of the server (messages, exports, the export queue) are
  values of the datatype \<^typ>\<open>bal_action\<close> in the order the code performs them. Calls into code that is not part of the repository are parameters: the sorting function of the C++ library
  with its documented behaviour \<^const>\<open>std_sort_spec\<close>, the hash function, and the Lua balancer \<^typ>\<open>mantle_ifc\<close>.

  \<^bold>\<open>The theories.\<close>
  \<^item> \<^verbatim>\<open>Ceph_Prelude\<close>: assertions, ordered maps, folds that may fail, and the locale \<^verbatim>\<open>transition_system\<close>, which is interpreted for the
    inode table, the heartbeats, the fragment trees, the queues of fragments to split and merge, and the file locks.
  \<^item> \<^verbatim>\<open>Time_Decay\<close>: \<^verbatim>\<open>utime_t\<close>, \<^verbatim>\<open>DecayRate\<close> and \<^verbatim>\<open>DecayCounter\<close> (\<^verbatim>\<open>src/common/DecayCounter.cc\<close>), the load vectors \<^verbatim>\<open>dirfrag_load_vec_t\<close> and
    \<^verbatim>\<open>load_spread_t\<close> (\<^verbatim>\<open>src/mds/mdstypes.h\<close>). A counter above its cut-off gives the same value whether it was read in between or not, values stay in bounds, and
    adding a vector and subtracting it again restores the vector.
  \<^item> \<^verbatim>\<open>Hotness\<close>: \<^verbatim>\<open>ReqCounter\<close> and \<^verbatim>\<open>dirfrag_pot_load_t\<close> (\<^verbatim>\<open>src/mds/adsl\<close>) and the functions of \<^verbatim>\<open>CInode\<close> and \<^verbatim>\<open>CDir\<close> that compute sizes and
    recency factors. The ring of counters refines a history of hits; the factors lie between 0 and 1.
  \<^item> \<^verbatim>\<open>Req_Trace\<close>: \<^verbatim>\<open>ReqTracer\<close> and \<^verbatim>\<open>PathUtil\<close>.
  \<^item> \<^verbatim>\<open>Balancer_Match\<close>: the record \<^typ>\<open>balancer\<close> with the members of \<^verbatim>\<open>MDBalancer\<close>, \<^verbatim>\<open>mds_load_t\<close>, and \<^verbatim>\<open>prep_rebalance\<close> with its matching of
    exporters and importers, which respects the target load on both sides.
  \<^item> \<^verbatim>\<open>Balancer_Export\<close>: \<^verbatim>\<open>find_exports\<close>, \<^verbatim>\<open>find_exports_wrapper\<close>, \<^verbatim>\<open>simple_determine_rebalance\<close> and \<^verbatim>\<open>try_rebalance\<close> on a tree of directory
    fragments, \<^typ>\<open>dview\<close>, with the values the balancer reads of a fragment. Nothing is exported twice, and only what
    may be exported.
  \<^item> \<^verbatim>\<open>Balancer_If\<close>: \<^verbatim>\<open>send_ifbeat\<close>, \<^verbatim>\<open>handle_ifbeat\<close> and the payload of \<^verbatim>\<open>MIFBeat\<close>. Messages go from ranks above the average to ranks that are not.
  \<^item> \<^verbatim>\<open>Balancer_Loop\<close>: heartbeats, \<^verbatim>\<open>tick\<close>, export pins, dispatch, and the system of ranks that exchange heartbeats over a network that
    loses, delays and repeats messages (\<^const>\<open>hb_step\<close>).
  \<^item> \<^verbatim>\<open>Balancer_Hit\<close>: \<^verbatim>\<open>hit_inode\<close>, \<^verbatim>\<open>hit_dir\<close> with the counters of all ancestors, \<^verbatim>\<open>queue_split\<close> and \<^verbatim>\<open>queue_merge\<close> with their callbacks,
    \<^verbatim>\<open>subtract_export\<close> and \<^verbatim>\<open>add_import\<close>. The fragments are a store of records. A hit counts once in the fragment and its
    ancestors, for every fragment that is pending a callback is in flight, and importing what was exported restores the load.
  \<^item> \<^verbatim>\<open>Interval_Set\<close>, \<^verbatim>\<open>Interval_Ops\<close>: \<^verbatim>\<open>interval_set\<close> (\<^verbatim>\<open>src/include/interval_set.h\<close>) as a set of numbers; the locale \<^verbatim>\<open>range_set\<close> is what its clients use.
  \<^item> \<^verbatim>\<open>Ino_Table\<close>: \<^verbatim>\<open>InoTable\<close>, projected and applied changes, and the system of pending changes (\<^const>\<open>ino_step\<close>). No inode number is handed out twice.
  \<^item> \<^verbatim>\<open>Frag\<close>: \<^verbatim>\<open>ceph_frag.h\<close> and \<^verbatim>\<open>frag_t\<close>, bit by bit. \<^verbatim>\<open>Frag_Tree\<close>: \<^verbatim>\<open>fragtree_t\<close>; \<^verbatim>\<open>Frag_Update\<close>: well-formed trees and the queries;
    \<^verbatim>\<open>Frag_Force\<close>: \<^verbatim>\<open>split\<close>, \<^verbatim>\<open>merge\<close>, \<^verbatim>\<open>force_to_leaf\<close> and the trees they make (\<^const>\<open>ft_step\<close>).
    \<^verbatim>\<open>Dir_Frags\<close>: the hash functions of \<^verbatim>\<open>src/common/ceph_hash.cc\<close> and the functions of \<^verbatim>\<open>CInode\<close> that find the fragments of a name
    or below a fragment.
  \<^item> \<^verbatim>\<open>Flock\<close>: \<^verbatim>\<open>ceph_lock_state_t\<close> and the lock requests. The held locks of a file are the entries of the multimap in order, each with the
    number of its node, which stands for an iterator; \<^typ>\<open>flock_sys\<close> has the states of all files and the static map of awaited locks.
    \<^verbatim>\<open>Flock_Held\<close>: the invariant \<^const>\<open>held_ok\<close> and the search for overlapping locks; \<^verbatim>\<open>Flock_Set\<close>, \<^verbatim>\<open>Flock_Ops\<close>: the loops that cut,
    merge and remove locks, byte by byte; \<^verbatim>\<open>Flock_Sys\<close>: the states that can be reached (\<^const>\<open>flock_step\<close>), in which exclusive locks
    exclude all others, and what setting and removing a lock does to every byte; \<^verbatim>\<open>Flock_Deadlock\<close>: the search finds exactly the
    cycles of at most six owners. Starts and lengths are 64-bit words. The ends of merged locks go through an \<^verbatim>\<open>int\<close>, so the theorems on setting
    locks are for ranges that end within 2 GiB or are open and start there (\<^const>\<open>fits\<close>, \<^const>\<open>held_ok\<close>); removing locks is exact for all ranges that do not wrap
    around. \<^verbatim>\<open>Flock_Wide\<close>: beyond 2 GiB exclusion is lost.

  This theory composes a round of the balancer: what rank 0 decides in \<^verbatim>\<open>handle_ifbeat\<close>, sends over the wire, and another rank
  carries out.

  \<^bold>\<open>Loops.\<close> There is no fuel; the search for deadlocks counts down from the depth limit the code itself has. Loops over containers are structural recursions or functions with a termination proof. The loops
  of \<^verbatim>\<open>fragtree_t\<close> and one loop of \<^verbatim>\<open>interval_set\<close>, which end only on sound data, are partial functions, and the lemmas show that they return on sound data.

  \<^bold>\<open>Not modelled.\<close> The cache itself (\<^verbatim>\<open>MDCache\<close>, \<^verbatim>\<open>CInode\<close>, \<^verbatim>\<open>CDir\<close> and \<^verbatim>\<open>CDentry\<close> beyond what the balancer computes with), the migration protocol
  (\<^verbatim>\<open>Migrator\<close>), the locks and capabilities of the cache (\<^verbatim>\<open>Locker\<close>), the journal and the request server: they are tens of thousands of lines of
  callbacks on a shared object graph, of which the balancer sees only the values kept in the model. Threads and mutexes: every handler runs under the server's lock and is one step. Encodings as bytes, formatted output, logging and
  performance counters. The rest of Ceph (OSD, monitor, clients, gateways, messenger) and the vendored libraries, which the
  balancer only uses through interfaces.
\<close>

section \<open>A round of the balancer\<close>

text \<open>A rank that takes part in the example of the imbalance-factor balancer as exporter.\<close>

definition sample_exporter :: mds_env where
  "sample_exporter = sample_env\<lparr>me_ee := (ex_env 12)\<lparr>ee_whoami := 1\<rparr>\<rparr>"

text \<open>
  C1: a round of the imbalance-factor balancer, from rank 0 to the exporting rank. When rank 0 sends a rank \<open>t\<close> a
  migration message in \<^verbatim>\<open>handle_ifbeat\<close>, and \<open>t\<close> handles the message as it arrives, with the decisions decoded from the wire, then
  \<open>t\<close> is a rank whose request rate is above the average rank 0 computed; \<open>t\<close> clears its export queue, exports no fragment twice and only fragments
  that may be exported, and every export goes to another rank, whose request rate is not above the average.
\<close>

theorem migration_round_safe:
  assumes "std_sort_spec srt" "handle_ifbeat srt cf me0 m0 b0 = Some (b0', acts0, fate0)"
    and "Send_ifbeat t l e f ds \<in> set acts0" "t \<noteq> 0"
    and "me_whoami me = t" "me_active me" "me_open me" "\<not> me_degraded me" "\<forall>c\<in>set (ee_cands (me_ee me)). cand_wf c"
    and "ib_IFvaule m = f" "ib_decision m = ifbeat_decode (ifbeat_decision_map ds)"
  shows "\<exists>b' acts iops loads old_req. handle_ifbeat srt' cf me m b = Some (b', acts, Msg_put) \<and> hd acts = Clear_export_queue
    \<and> ifbeat_rates cf (\<lambda>l. me_calc_load me0 l True) (omap_insert (ib_source m0) (ib_load m0) (b_mds_load b0))
        (map int [0..<me_num_in_mds me0]) (b_old_req b0) = Some (iops, loads, old_req)
    \<and> avg_of iops < iops ! nat t \<and> distinct (map fst (exports_of acts))
    \<and> (\<forall>(i, r)\<in>set (exports_of acts). r \<noteq> t \<and> iops ! nat r \<le> avg_of iops
         \<and> (\<exists>d\<in>(\<Union>c\<in>set (ee_cands (me_ee me)). cand_below c). dv_id d = i \<and> exportable {} d))"
proof -
  obtain iops loads old_req where r:
    "ifbeat_rates cf (\<lambda>l. me_calc_load me0 l True) (omap_insert (ib_source m0) (ib_load m0) (b_mds_load b0))
       (map int [0..<me_num_in_mds me0]) (b_old_req b0) = Some (iops, loads, old_req)"
    "\<exists>i. t = int i \<and> i < length iops \<and> avg_of iops < iops ! i" "mds_bal_ifthreshold cf \<le> f"
    "\<forall>d\<in>set ds. target_import_mds d \<noteq> t \<and> (\<exists>i. target_import_mds d = int i \<and> i < length iops \<and> iops ! i \<le> avg_of iops)"
    using handle_ifbeat_sends [OF assms(1-3)] by blast
  obtain b' acts where s: "simple_determine_rebalance (me_ee me) (ib_decision m) b = (b', acts)" by fastforce
  then obtain load where a: "acts = Clear_export_queue # sdr_decisions (me_ee me) load (ib_decision m) {}"
    by (auto simp: simple_determine_rebalance_def Let_def)
  have h: "handle_ifbeat srt' cf me m b = Some (b', acts, Msg_put)"
    using assms(4-8,10) r(3) s by (simp add: handle_ifbeat_def)
  have x: "distinct (map fst (exports_of acts))" "\<forall>(i, r)\<in>set (exports_of acts). r \<in> target_import_mds ` set (ib_decision m)
       \<and> (\<exists>d\<in>(\<Union>c\<in>set (ee_cands (me_ee me)). cand_below c). dv_id d = i \<and> exportable {} d)"
    using sdr_decisions_exports [OF assms(9), of load "ib_decision m" "{}"] search_below_cand unfolding a by (simp, fastforce)
  have "r \<noteq> t \<and> iops ! nat r \<le> avg_of iops" if "r \<in> target_import_mds ` set (ib_decision m)" for r
    using that r(4) unfolding assms(11) ifbeat_wire_targets by auto
  then show ?thesis using h a r(1,2) x by fastforce
qed

theorem migration_round_safe_witness:
  "\<exists>b0' l e f ds. handle_ifbeat sort_importers sample_if_conf sample_env sample_mifbeat sample_if_balancer
       = Some (b0', [Send_ifbeat 1 l e f ds], Msg_put)
     \<and> (\<exists>b' acts. handle_ifbeat sort_importers sample_if_conf sample_exporter
          (sample_mifbeat\<lparr>ib_IFvaule := f, ib_decision := ifbeat_decode (ifbeat_decision_map ds)\<rparr>) sample_if_balancer
            = Some (b', acts, Msg_put)
          \<and> hd acts = Clear_export_queue \<and> (\<forall>(i, r)\<in>set (exports_of acts). r \<noteq> 1))"
proof -
  obtain b0' l e f ds where h: "handle_ifbeat sort_importers sample_if_conf sample_env sample_mifbeat sample_if_balancer
      = Some (b0', [Send_ifbeat 1 l e f ds], Msg_put)"
    using sample_ifbeat by blast
  have send: "Send_ifbeat 1 l e f ds \<in> set [Send_ifbeat 1 l e f ds]" by simp
  let ?m = "sample_mifbeat\<lparr>ib_IFvaule := f, ib_decision := ifbeat_decode (ifbeat_decision_map ds)\<rparr>"
  have env: "me_whoami sample_exporter = 1" "me_active sample_exporter" "me_open sample_exporter" "\<not> me_degraded sample_exporter"
    "\<forall>c\<in>set (ee_cands (me_ee sample_exporter)). cand_wf c"
    using ex_env_wf [of 12] by (simp_all add: sample_exporter_def sample_env_def)
  have "\<exists>b' acts. handle_ifbeat sort_importers sample_if_conf sample_exporter ?m sample_if_balancer = Some (b', acts, Msg_put)
      \<and> hd acts = Clear_export_queue \<and> (\<forall>(i, r)\<in>set (exports_of acts). r \<noteq> 1)"
    using migration_round_safe [OF std_sort_spec_sort_importers h send _ env, of ?m sort_importers sample_if_balancer] by fastforce
  then show ?thesis using h by blast
qed

end
